(* ===== verification/Shogun_Prelude.thy ===== *)
theory Shogun_Prelude
  imports Main "HOL-Library.Word" "HOL-Library.Monad_Syntax"
begin

text \<open>
  The shared layer of the development: names for the C integer types at their
  widths, C strings, counted loops, little-endian 32-bit access to byte
  memory, and the facts on lists, options and words the components use.

  A function of the kernel that may spin forever, or whose result C leaves
  undefined, returns an \<^typ>\<open>'a option\<close>: \<^const>\<open>None\<close> is "no defined
  result". A function that always returns is a plain state transformer.
\<close>

unbundle bit_operations_syntax

section \<open>Types of the C program\<close>

type_synonym u8 = "8 word"
type_synonym u16 = "16 word"
type_synonym u32 = "32 word"
type_synonym u64 = "64 word"

text \<open>A pointer into RAM is its 32-bit address; 0 is \<^verbatim>\<open>NULL\<close>.\<close>

type_synonym ptr = u32

text \<open>
  Collections: \<^verbatim>\<open>frame\<close> holds what an operation leaves alone,
  \<^verbatim>\<open>effect\<close> holds closed forms of what it changes.
\<close>

named_theorems frame "state components an operation does not change"
named_theorems effect "closed forms of the state components an operation changes"

section \<open>C strings\<close>

text \<open>
  A \<^verbatim>\<open>const char*\<close> argument is the characters from its address on; the
  string ends at the first NUL, or at the end of the list, where the terminator
  of a literal stands.
\<close>

abbreviation NUL :: char where
  "NUL \<equiv> CHR 0x00"

abbreviation LF :: char where
  "LF \<equiv> CHR 0x0A"

abbreviation CR :: char where
  "CR \<equiv> CHR 0x0D"

definition cstr :: "string \<Rightarrow> string" where
  "cstr = takeWhile (\<lambda>c. c \<noteq> NUL)"

lemma cstr_Nil [simp]: "cstr [] = []"
  by (simp add: cstr_def)

lemma cstr_Cons [simp]: "cstr (c # cs) = (if c = NUL then [] else c # cstr cs)"
  by (simp add: cstr_def)

lemma cstr_idem [simp]: "cstr (cstr str) = cstr str"
  by (induction str) auto

lemma NUL_notin_cstr [simp]: "NUL \<notin> set (cstr str)"
  by (induction str) auto

lemma cstr_id: "NUL \<notin> set str \<Longrightarrow> cstr str = str"
  by (induction str) auto

lemma length_cstr: "length (cstr str) \<le> length str"
  by (simp add: cstr_def length_takeWhile_le)

section \<open>Counted loops\<close>

text \<open>\<^verbatim>\<open>for (i = lo; i < hi; i++) body\<close> over a state.\<close>

definition for_up :: "nat \<Rightarrow> nat \<Rightarrow> (nat \<Rightarrow> 's \<Rightarrow> 's) \<Rightarrow> 's \<Rightarrow> 's" where
  "for_up lo hi body s = fold body [lo..<hi] s"

lemma for_up_empty [simp]: "hi \<le> lo \<Longrightarrow> for_up lo hi body s = s"
  by (simp add: for_up_def)

lemma for_up_Suc: "lo \<le> hi \<Longrightarrow> for_up lo (Suc hi) body s = body hi (for_up lo hi body s)"
  by (simp add: for_up_def)

text \<open>The invariant rule for counted loops.\<close>

lemma for_up_invariant:
  assumes "P lo s" and "lo \<le> hi"
    and "\<And>i t. lo \<le> i \<Longrightarrow> i < hi \<Longrightarrow> P i t \<Longrightarrow> P (Suc i) (body i t)"
  shows "P hi (for_up lo hi body s)"
  using assms(2,3)
proof (induction hi rule: nat_induct_at_least)
  case base
  with assms(1) show ?case by simp
next
  case (Suc n)
  then show ?case by (simp add: for_up_Suc)
qed

text \<open>A projection no body changes is unchanged by the loop.\<close>

lemma for_up_frame:
  assumes "\<And>i t. f (body i t) = f t"
  shows "f (for_up lo hi body s) = f s"
proof -
  have "f (fold body is t) = f t" for "is" t
    by (induction "is" arbitrary: t) (simp_all add: assms)
  then show ?thesis by (simp add: for_up_def)
qed

section \<open>Searching\<close>

text \<open>A loop that returns at the first hit is \<^const>\<open>find\<close>.\<close>

lemma find_hitD: "find P xs = Some x \<Longrightarrow> P x \<and> x \<in> set xs"
  by (induction xs) (auto split: if_splits)

lemma find_hit_iff: "(\<exists>x. find P xs = Some x) \<longleftrightarrow> (\<exists>x\<in>set xs. P x)"
  by (metis find_None_iff not_None_eq)

section \<open>Options\<close>

lemma bind_Some_iff [simp]:
  "(Option.bind m f = Some y) = (\<exists>x. m = Some x \<and> f x = Some y)"
  by (cases m) auto

section \<open>Words\<close>

lemma unat_add_no_wrap:
  fixes a b :: "'a::len word"
  assumes "unat a + unat b < 2 ^ LENGTH('a)"
  shows "unat (a + b) = unat a + unat b"
  using assms by (simp add: unat_word_ariths)

lemma unat_sub_no_wrap:
  fixes a b :: "'a::len word"
  assumes "unat b \<le> unat a"
  shows "unat (a - b) = unat a - unat b"
  using assms by (simp add: unat_sub word_le_nat_alt)

lemma unat_u32_less: "unat (x :: u32) < 2 ^ 32"
proof -
  have "unat x < 2 ^ LENGTH(32)" by (rule unsigned_less)
  then show ?thesis by simp
qed

lemma sint_u32_range: "- (2 ^ 31) \<le> sint (x :: u32)" "sint (x :: u32) < 2 ^ 31"
  using sint_range_size [of x] by (simp_all add: word_size)

lemma sint_word_of_int_u32:
  "- (2 ^ 31) \<le> k \<Longrightarrow> k < 2 ^ 31 \<Longrightarrow> sint (word_of_int k :: u32) = k"
  using signed_take_bit_int_eq_self [of 31 k] by (simp add: sint_sbintrunc')

text \<open>Rounding an address down to a power of two: \<^verbatim>\<open>x & ~(2^k - 1)\<close>.\<close>

lemma and_not_mask_eq_push_drop:
  fixes x :: "'a::len word"
  shows "x AND NOT (mask k) = push_bit k (drop_bit k x)"
  by (rule bit_word_eqI) (auto simp: bit_simps)

lemma unat_and_not_mask:
  fixes x :: "'a::len word"
  shows "unat (x AND NOT (mask k)) = unat x - unat x mod 2 ^ k"
proof -
  have "x AND NOT (mask k) = x - take_bit k x"
    using bits_ident [of k x] by (simp add: and_not_mask_eq_push_drop eq_diff_eq)
  moreover have "take_bit k x \<le> x"
    by (simp add: word_le_nat_alt unsigned_take_bit_eq take_bit_nat_less_eq_self)
  ultimately have "unat (x AND NOT (mask k)) = unat x - take_bit k (unat x)"
    by (simp add: unat_sub unsigned_take_bit_eq)
  then show ?thesis
    by (simp add: take_bit_eq_mod [of k "unat x"])
qed

text \<open>
  \<^verbatim>\<open>is_pow2 a\<close>: the alignments the allocator is meant for. For those,
  \<^verbatim>\<open>x & ~(a - 1)\<close> is the greatest multiple of \<open>a\<close> below \<open>x\<close>.
\<close>

definition is_pow2 :: "u32 \<Rightarrow> bool" where
  "is_pow2 a = (\<exists>k<32. a = 2 ^ k)"

lemma unat_exp_u32:
  assumes "k < 32"
  shows "unat (2 ^ k :: u32) = 2 ^ k"
proof -
  have "(2 :: nat) ^ k < 2 ^ 32"
    using assms by (rule power_strict_increasing) simp
  then have "unat (of_nat (2 ^ k) :: u32) = 2 ^ k"
    by (simp only: unat_of_nat) simp
  then show ?thesis by simp
qed

lemma is_pow2_unat: "is_pow2 a \<Longrightarrow> \<exists>k<32. a = 2 ^ k \<and> unat a = 2 ^ k"
  by (auto simp: is_pow2_def unat_exp_u32)

lemma unat_align_down:
  assumes "is_pow2 a"
  shows "unat (x AND NOT (a - 1)) = unat x - unat x mod unat a"
proof -
  from is_pow2_unat [OF assms] obtain k where "a = 2 ^ k" "unat a = 2 ^ k" by blast
  then show ?thesis
    using unat_and_not_mask [of x k] by (simp add: mask_eq_decr_exp)
qed

lemma align_down_bounds:
  assumes "is_pow2 a"
  shows "unat (x AND NOT (a - 1)) \<le> unat x"
    and "unat x < unat (x AND NOT (a - 1)) + unat a"
    and "unat a dvd unat (x AND NOT (a - 1))"
proof -
  have pos: "0 < unat a"
    using is_pow2_unat [OF assms] by auto
  show "unat (x AND NOT (a - 1)) \<le> unat x"
    by (simp add: unat_align_down [OF assms])
  have "unat x mod unat a < unat a" using pos by simp
  then show "unat x < unat (x AND NOT (a - 1)) + unat a"
    by (simp add: unat_align_down [OF assms])
  show "unat a dvd unat (x AND NOT (a - 1))"
    by (simp add: unat_align_down [OF assms] dvd_minus_mod)
qed

section \<open>Byte memory\<close>

text \<open>
  RAM is a byte per 32-bit address. A 32-bit access at address \<open>a\<close> touches
  the bytes \<open>a\<close> to \<open>a + 3\<close>, least significant byte first; addresses wrap
  at \<open>2 ^ 32\<close>.
\<close>

type_synonym ram = "ptr \<Rightarrow> u8"

definition load32 :: "ram \<Rightarrow> ptr \<Rightarrow> u32" where
  "load32 m a = ucast (m a) OR push_bit 8 (ucast (m (a + 1)))
     OR push_bit 16 (ucast (m (a + 2))) OR push_bit 24 (ucast (m (a + 3)))"

definition store32 :: "ptr \<Rightarrow> u32 \<Rightarrow> ram \<Rightarrow> ram" where
  "store32 a v m = m(a := ucast v, a + 1 := ucast (drop_bit 8 v),
     a + 2 := ucast (drop_bit 16 v), a + 3 := ucast (drop_bit 24 v))"

lemma bytes_of_u32:
  "ucast (ucast v :: u8) OR push_bit 8 (ucast (ucast (drop_bit 8 v) :: u8))
     OR push_bit 16 (ucast (ucast (drop_bit 16 v) :: u8))
     OR push_bit 24 (ucast (ucast (drop_bit 24 v) :: u8)) = (v :: u32)"
proof (rule bit_word_eqI)
  fix n
  assume "n < LENGTH(32)"
  then consider "n < 8" | "8 \<le> n" "n < 16" | "16 \<le> n" "n < 24" | "24 \<le> n" "n < 32"
    by fastforce
  then show "bit (ucast (ucast v :: u8) OR push_bit 8 (ucast (ucast (drop_bit 8 v) :: u8))
     OR push_bit 16 (ucast (ucast (drop_bit 16 v) :: u8))
     OR push_bit 24 (ucast (ucast (drop_bit 24 v) :: u8)) :: u32) n = bit v n"
    by cases (auto simp: bit_simps)
qed

lemma load32_store32_same [simp]: "load32 (store32 a v m) a = v"
  using bytes_of_u32 [of v] by (simp add: load32_def store32_def)

text \<open>Two 32-bit accesses are disjoint when they are at least four bytes apart.\<close>

definition apart4 :: "ptr \<Rightarrow> ptr \<Rightarrow> bool" where
  "apart4 a b = (4 \<le> unat (a - b) \<and> 4 \<le> unat (b - a))"

lemma apart4_sym: "apart4 a b = apart4 b a"
  by (auto simp: apart4_def)

lemma apart4_distinct:
  assumes "apart4 a b" and "i < 4" and "j < 4"
  shows "a + of_nat i \<noteq> b + of_nat j"
proof
  assume eq: "a + of_nat i = b + of_nat j"
  show False
  proof (cases "i \<le> j")
    case True
    with eq have "a - b = of_nat (j - i)" by (simp add: of_nat_diff algebra_simps)
    then have "unat (a - b) = j - i"
      using assms(3) by (simp add: unat_of_nat del: of_nat_diff)
    with assms show False by (auto simp: apart4_def)
  next
    case False
    with eq have "b - a = of_nat (i - j)" by (simp add: of_nat_diff algebra_simps)
    then have "unat (b - a) = i - j"
      using assms(2) by (simp add: unat_of_nat del: of_nat_diff)
    with assms show False by (auto simp: apart4_def)
  qed
qed

lemma store32_other:
  assumes "\<And>j. j < 4 \<Longrightarrow> x \<noteq> a + of_nat j"
  shows "store32 a v m x = m x"
  using assms [of 0] assms [of 1] assms [of 2] assms [of 3]
  by (simp add: store32_def)

lemma load32_store32_apart [simp]:
  assumes "apart4 a b"
  shows "load32 (store32 b v m) a = load32 m a"
proof -
  have "store32 b v m (a + of_nat i) = m (a + of_nat i)" if "i < 4" for i
    by (rule store32_other) (rule apart4_distinct [OF assms that])
  from this [of 0] this [of 1] this [of 2] this [of 3] show ?thesis
    by (simp add: load32_def)
qed

lemma apart4I:
  assumes "unat a + 4 \<le> unat b" and "unat b + 4 \<le> 2 ^ 32"
  shows "apart4 a b" and "apart4 b a"
proof -
  have "unat (b - a) = unat b - unat a"
    using assms by (simp add: unat_sub_no_wrap)
  moreover have "unat (a - b) = 2 ^ 32 - (unat b - unat a)"
    using assms by (simp add: unat_sub_if')
  ultimately show "apart4 a b" using assms unfolding apart4_def by linarith
  then show "apart4 b a" by (simp add: apart4_sym)
qed

end
