(* ===== verification/Machine.thy ===== *)
theory Machine
  imports Shogun_Prelude
begin

text \<open>
  The machine under the kernel, as far as the inline assembly of the sources
  uses it: the interrupt flag (\<^verbatim>\<open>cli\<close>, \<^verbatim>\<open>sti\<close>), halting, the descriptor table
  registers (\<^verbatim>\<open>lgdt\<close>, \<^verbatim>\<open>lidt\<close>, \<^verbatim>\<open>sgdt\<close>) and port I/O (\<^verbatim>\<open>inb\<close>, \<^verbatim>\<open>outb\<close>).

  The devices behind the ports are not code of the kernel. They are the field
  \<^verbatim>\<open>device\<close> of the state: the value a read returns, as a function of the whole
  history of port accesses and of the port. Any run of any hardware, time and
  chance included, is one such function. What a theorem needs of a device (a
  UART that drains, a CMOS that stores) is a hypothesis on this function.

  The state of the kernel is a chain of records: each component extends the
  record of the component it is built on with the static variables of its
  source file, so an operation of a component applies to the state of every
  component above it.
\<close>

datatype io_event = In u16 u8 | Out u16 u8

type_synonym device_fn = "io_event list \<Rightarrow> u16 \<Rightarrow> u8"

text \<open>\<^verbatim>\<open>trace\<close> is the history of port accesses, newest first.\<close>

record machine =
  if_flag :: bool
  halted :: bool
  gdtr :: "u16 \<times> u32"
  idtr :: "u16 \<times> u32"
  trace :: "io_event list"
  device :: device_fn

definition cli :: "'z machine_scheme \<Rightarrow> 'z machine_scheme" where
  "cli s = s\<lparr>if_flag := False\<rparr>"

definition sti :: "'z machine_scheme \<Rightarrow> 'z machine_scheme" where
  "sti s = s\<lparr>if_flag := True\<rparr>"

text \<open>
  A loop around \<^verbatim>\<open>hlt\<close> that no interrupt can leave is the end of the run:
  the flag \<^verbatim>\<open>halted\<close> records it.
\<close>

definition halt_forever :: "'z machine_scheme \<Rightarrow> 'z machine_scheme" where
  "halt_forever s = s\<lparr>halted := True\<rparr>"

text \<open>The bytes written to a port, oldest first.\<close>

fun outs_to :: "u16 \<Rightarrow> io_event list \<Rightarrow> u8 list" where
  "outs_to p [] = []"
| "outs_to p (In q v # h) = outs_to p h"
| "outs_to p (Out q v # h) = (if q = p then outs_to p h @ [v] else outs_to p h)"

lemma outs_to_append: "outs_to p (h @ h') = outs_to p h' @ outs_to p h"
  by (induction p h rule: outs_to.induct) auto

end
