(* ===== verification/Port_Manager.thy ===== *)
theory Port_Manager
  imports Machine
begin

text \<open>
  The port manager (\<^verbatim>\<open>src/port_manager.c\<close>): a static registry of 64 handles
  through which a driver reserves an I/O port. A \<^verbatim>\<open>PortHandle*\<close> is
  \<^const>\<open>None\<close> for \<^verbatim>\<open>NULL\<close>, or its offset from \<^verbatim>\<open>port_registry\<close> in elements, which
  is outside \<open>0..63\<close> for a pointer that is not into the array; the registry is
  a total function so that such a pointer names whatever memory stands there.

  The locale \<^verbatim>\<open>port_table\<close> states what the manager promises (a port has at
  most one holder, a release gives back what a request took); the drivers'
  lemmas are proved in it once, and its interpretation on the model discharges
  the laws.
\<close>

section \<open>State and operations\<close>

type_synonym port_ptr = "int option"

record PortHandle =
  port :: u16
  in_use :: bool
  next_handle :: port_ptr

abbreviation MAX_TRACKED_PORTS :: int where
  "MAX_TRACKED_PORTS \<equiv> 64"

record ports = machine +
  port_registry :: "int \<Rightarrow> PortHandle"
  pm_initialized :: bool

definition registry_indices :: "int list" where
  "registry_indices = [0..MAX_TRACKED_PORTS - 1]"

definition init_port_manager :: "'z ports_scheme \<Rightarrow> 'z ports_scheme" where
  "init_port_manager s =
     (if pm_initialized s then s
      else (fold (\<lambda>i s. s\<lparr>port_registry := (port_registry s)
                (i := \<lparr>port = 0, in_use = False, next_handle = None\<rparr>)\<rparr>) registry_indices s)
           \<lparr>pm_initialized := True\<rparr>)"

definition request_port :: "u16 \<Rightarrow> 'z ports_scheme \<Rightarrow> port_ptr \<times> 'z ports_scheme" where
  "request_port p s0 =
     (let s = (if \<not> pm_initialized s0 then init_port_manager s0 else s0) in
      case find (\<lambda>i. in_use (port_registry s i) \<and> port (port_registry s i) = p)
             registry_indices of
        Some i \<Rightarrow> (None, s)
      | None \<Rightarrow>
         (case find (\<lambda>i. \<not> in_use (port_registry s i)) registry_indices of
            Some i \<Rightarrow> (Some i, s\<lparr>port_registry := (port_registry s)
                        (i := (port_registry s i)\<lparr>port := p, in_use := True\<rparr>)\<rparr>)
          | None \<Rightarrow> (None, s)))"

definition release_port :: "port_ptr \<Rightarrow> 'z ports_scheme \<Rightarrow> 'z ports_scheme" where
  "release_port handle s =
     (case handle of
        None \<Rightarrow> s
      | Some i \<Rightarrow>
          if 0 \<le> i \<and> i < MAX_TRACKED_PORTS then
            if in_use (port_registry s i)
            then s\<lparr>port_registry := (port_registry s)(i := (port_registry s i)\<lparr>in_use := False\<rparr>)\<rparr>
            else s
          else s)"

definition is_port_in_use :: "u16 \<Rightarrow> 'z ports_scheme \<Rightarrow> bool" where
  "is_port_in_use p s =
     (case find (\<lambda>i. in_use (port_registry s i) \<and> port (port_registry s i) = p)
             registry_indices of
        Some i \<Rightarrow> True
      | None \<Rightarrow> False)"

section \<open>The abstract table and the invariant\<close>

text \<open>The abstract view: which port each handle holds.\<close>

definition held :: "'z ports_scheme \<Rightarrow> int \<rightharpoonup> u16" where
  "held s i = (if 0 \<le> i \<and> i < MAX_TRACKED_PORTS \<and> in_use (port_registry s i)
               then Some (port (port_registry s i)) else None)"

text \<open>
  The invariant: no two handles hold the same port, and nothing is held before
  the registry is initialised (its static storage starts zeroed).
\<close>

definition ports_ok :: "'z ports_scheme \<Rightarrow> bool" where
  "ports_ok s \<longleftrightarrow> (\<forall>i j p. held s i = Some p \<longrightarrow> held s j = Some p \<longrightarrow> i = j)
     \<and> (\<not> pm_initialized s \<longrightarrow> held s = Map.empty)"

locale port_table =
  fixes request :: "u16 \<Rightarrow> 's \<Rightarrow> int option \<times> 's"
    and release :: "int option \<Rightarrow> 's \<Rightarrow> 's"
    and table :: "'s \<Rightarrow> int \<rightharpoonup> u16"
    and ok :: "'s \<Rightarrow> bool"
  assumes request_ok: "ok s \<Longrightarrow> ok (snd (request p s))"
    and release_ok: "ok s \<Longrightarrow> ok (release g s)"
    and request_refused: "ok s \<Longrightarrow> request p s = (None, t) \<Longrightarrow> table t = table s"
    and request_granted: "ok s \<Longrightarrow> request p s = (Some h, t) \<Longrightarrow>
          table s h = None \<and> p \<notin> ran (table s) \<and> table t = (table s)(h \<mapsto> p)"
    and request_free: "ok s \<Longrightarrow> p \<notin> ran (table s) \<Longrightarrow> card (dom (table s)) < 64 \<Longrightarrow>
          fst (request p s) \<noteq> None"
    and release_null: "release None s = s"
    and release_table: "table (release (Some h) s) = (table s)(h := None)"
begin

text \<open>A second request for a held port is refused.\<close>

lemma request_twice:
  assumes "ok s" and "request p s = (Some h, t)"
  shows "fst (request p t) = None"
proof -
  from request_granted [OF assms] have t: "table t h = Some p" by simp
  have "ok t" using request_ok [OF assms(1), of p] assms(2) by simp
  show ?thesis
  proof (cases "request p t")
    case (Pair g u)
    show ?thesis
    proof (cases g)
      case (Some k)
      with Pair request_granted [OF \<open>ok t\<close>, of p k u] t show ?thesis
        by (auto simp: ran_def)
    qed (use Pair in simp)
  qed
qed

text \<open>Releasing what a request returned restores the table.\<close>

lemma request_release:
  assumes "ok s" and "request p s = (h, t)"
  shows "table (release h t) = table s"
proof (cases h)
  case None
  with assms request_refused [of s p t] show ?thesis by (simp add: release_null)
next
  case (Some i)
  with assms request_granted [of s p i t] show ?thesis
    by (auto simp: release_table)
qed

text \<open>The drivers' pattern: two ports taken one after the other.\<close>

lemma request_pair:
  assumes "ok s" and "request p s = (Some h, t)" and "request q t = (Some k, u)"
  shows "p \<noteq> q" and "h \<noteq> k" and "table u = (table s)(h \<mapsto> p, k \<mapsto> q)"
    and "table (release (Some k) (release (Some h) u)) = table s"
    and "table (release (Some h) (release (Some k) u)) = table s"
proof -
  have "ok t" using request_ok [OF assms(1), of p] assms(2) by simp
  note g1 = request_granted [OF assms(1,2)] and g2 = request_granted [OF \<open>ok t\<close> assms(3)]
  from g1 g2 show "p \<noteq> q" "h \<noteq> k" "table u = (table s)(h \<mapsto> p, k \<mapsto> q)"
    by (auto simp: ran_def split: if_splits)
  then show "table (release (Some k) (release (Some h) u)) = table s"
    "table (release (Some h) (release (Some k) u)) = table s"
    using g1 g2 by (auto simp: release_table)
qed

end

section \<open>The manager implements the table\<close>

lemma set_registry_indices [simp]: "set registry_indices = {0..<64}"
  by (auto simp: registry_indices_def)

lemma fold_clear_registry:
  "fold (\<lambda>i s. s\<lparr>port_registry := (port_registry s)(i := e)\<rparr>) is s =
     s\<lparr>port_registry := (\<lambda>i. if i \<in> set is then e else port_registry s i)\<rparr>"
proof (induction "is" arbitrary: s)
  case Nil
  then show ?case by simp
next
  case (Cons i "is")
  then show ?case by (auto simp: fun_eq_iff)
qed

lemma init_port_manager_eq:
  "init_port_manager s =
     (if pm_initialized s then s
      else s\<lparr>port_registry := (\<lambda>i. if i \<in> {0..<64} then \<lparr>port = 0, in_use = False, next_handle = None\<rparr>
                                    else port_registry s i), pm_initialized := True\<rparr>)"
  by (simp add: init_port_manager_def fold_clear_registry)

lemma held_init: "ports_ok s \<Longrightarrow> held (init_port_manager s) = held s"
  by (auto simp: init_port_manager_eq ports_ok_def held_def fun_eq_iff)

lemma ports_ok_init: "ports_ok s \<Longrightarrow> ports_ok (init_port_manager s)"
  using held_init [of s] by (auto simp: ports_ok_def init_port_manager_eq)

lemma held_Some_iff:
  "held s i = Some p \<longleftrightarrow> i \<in> {0..<64} \<and> in_use (port_registry s i) \<and> port (port_registry s i) = p"
  by (auto simp: held_def)

lemma find_held:
  "(\<exists>i. find (\<lambda>i. in_use (port_registry s i) \<and> port (port_registry s i) = p) registry_indices = Some i)
     = (p \<in> ran (held s))"
  unfolding find_hit_iff set_registry_indices ran_def mem_Collect_eq held_Some_iff by blast

text \<open>
  After the lazy initialisation a request is a search for the port and then
  for the first free handle.
\<close>

lemma request_port_cases:
  assumes "ports_ok s"
  obtains t where "ports_ok t" "held t = held s" "pm_initialized t"
    "request_port p s =
       (if p \<in> ran (held t) then (None, t)
        else case find (\<lambda>i. \<not> in_use (port_registry t i)) registry_indices of
               Some i \<Rightarrow> (Some i, t\<lparr>port_registry := (port_registry t)
                           (i := (port_registry t i)\<lparr>port := p, in_use := True\<rparr>)\<rparr>)
             | None \<Rightarrow> (None, t))"
proof -
  define t where "t = (if \<not> pm_initialized s then init_port_manager s else s)"
  have hit: "(\<exists>i. find (\<lambda>i. in_use (port_registry t i) \<and> port (port_registry t i) = p)
           registry_indices = Some i) = (p \<in> ran (held t))"
    by (rule find_held)
  have req: "request_port p s =
     (case find (\<lambda>i. in_use (port_registry t i) \<and> port (port_registry t i) = p)
             registry_indices of
        Some i \<Rightarrow> (None, t)
      | None \<Rightarrow>
         (case find (\<lambda>i. \<not> in_use (port_registry t i)) registry_indices of
            Some i \<Rightarrow> (Some i, t\<lparr>port_registry := (port_registry t)
                        (i := (port_registry t i)\<lparr>port := p, in_use := True\<rparr>)\<rparr>)
          | None \<Rightarrow> (None, t)))"
    by (simp only: request_port_def Let_def t_def)
  show ?thesis
  proof (rule that [of t])
    show "ports_ok t" "held t = held s" "pm_initialized t"
      using assms by (simp_all add: t_def ports_ok_init held_init) (simp add: init_port_manager_eq)
    show "request_port p s =
       (if p \<in> ran (held t) then (None, t)
        else case find (\<lambda>i. \<not> in_use (port_registry t i)) registry_indices of
               Some i \<Rightarrow> (Some i, t\<lparr>port_registry := (port_registry t)
                           (i := (port_registry t i)\<lparr>port := p, in_use := True\<rparr>)\<rparr>)
             | None \<Rightarrow> (None, t))"
      unfolding req using hit by (auto split: option.split)
  qed
qed

lemma find_free_handle:
  "find (\<lambda>i. \<not> in_use (port_registry t i)) registry_indices = Some i \<Longrightarrow>
     0 \<le> i \<and> i < 64 \<and> held t i = None"
  by (auto simp: held_def dest!: find_hitD)

lemma find_free_handle_None:
  assumes "find (\<lambda>i. \<not> in_use (port_registry t i)) registry_indices = None"
  shows "card (dom (held t)) = 64"
proof -
  have "dom (held t) = {0..<64}"
    using assms by (auto simp: find_None_iff held_def split: if_splits)
  then show ?thesis by simp
qed

lemma held_take:
  "0 \<le> i \<Longrightarrow> i < 64 \<Longrightarrow>
     held (t\<lparr>port_registry := (port_registry t)(i := (port_registry t i)\<lparr>port := p, in_use := True\<rparr>)\<rparr>)
       = (held t)(i \<mapsto> p)"
  by (auto simp: held_def fun_eq_iff)

lemma request_port_granted:
  assumes "ports_ok s" and "request_port p s = (Some h, t)"
  shows "held s h = None \<and> p \<notin> ran (held s) \<and> held t = (held s)(h \<mapsto> p) \<and> pm_initialized t"
proof (rule request_port_cases [OF assms(1), where p = p])
  fix u
  assume u: "held u = held s" "pm_initialized u"
    and eq: "request_port p s = (if p \<in> ran (held u) then (None, u)
        else case find (\<lambda>i. \<not> in_use (port_registry u i)) registry_indices of
               Some i \<Rightarrow> (Some i, u\<lparr>port_registry := (port_registry u)
                           (i := (port_registry u i)\<lparr>port := p, in_use := True\<rparr>)\<rparr>)
             | None \<Rightarrow> (None, u))"
  with assms(2) have "p \<notin> ran (held u)"
    and f: "find (\<lambda>i. \<not> in_use (port_registry u i)) registry_indices = Some h"
    and t: "t = u\<lparr>port_registry := (port_registry u)(h := (port_registry u h)\<lparr>port := p, in_use := True\<rparr>)\<rparr>"
    by (auto split: if_splits option.splits)
  with u find_free_handle [OF f] show ?thesis by (simp add: held_take)
qed

lemma request_port_refused:
  assumes "ports_ok s" and "request_port p s = (None, t)"
  shows "held t = held s \<and> ports_ok t \<and> (p \<in> ran (held s) \<or> card (dom (held s)) = 64)"
proof (rule request_port_cases [OF assms(1), where p = p])
  fix u
  assume "ports_ok u" "held u = held s"
    and "request_port p s = (if p \<in> ran (held u) then (None, u)
        else case find (\<lambda>i. \<not> in_use (port_registry u i)) registry_indices of
               Some i \<Rightarrow> (Some i, u\<lparr>port_registry := (port_registry u)
                           (i := (port_registry u i)\<lparr>port := p, in_use := True\<rparr>)\<rparr>)
             | None \<Rightarrow> (None, u))"
  with assms(2) show ?thesis
    using find_free_handle_None [of u] by (auto split: if_splits option.splits)
qed

lemma ports_ok_request:
  assumes "ports_ok s"
  shows "ports_ok (snd (request_port p s))"
proof (cases "request_port p s")
  case (Pair h t)
  show ?thesis
  proof (cases h)
    case None
    with Pair request_port_refused [OF assms] show ?thesis by simp
  next
    case (Some i)
    with Pair request_port_granted [OF assms, of p i t] assms show ?thesis
      by (auto simp: ports_ok_def ran_def)
  qed
qed

lemma held_release: "held (release_port (Some h) s) = (held s)(h := None)"
  by (auto simp: release_port_def held_def fun_eq_iff)

lemma ports_ok_release: "ports_ok s \<Longrightarrow> ports_ok (release_port h s)"
proof (cases h)
  case (Some i)
  have "pm_initialized (release_port (Some i) s) = pm_initialized s"
    by (simp add: release_port_def)
  then show "ports_ok s \<Longrightarrow> ports_ok (release_port h s)"
    using Some by (simp add: ports_ok_def held_release)
qed (simp add: release_port_def)

lemma is_port_in_use_iff: "is_port_in_use p s \<longleftrightarrow> p \<in> ran (held s)"
proof -
  have "is_port_in_use p s \<longleftrightarrow>
     (\<exists>i. find (\<lambda>i. in_use (port_registry s i) \<and> port (port_registry s i) = p)
            registry_indices = Some i)"
    by (auto simp: is_port_in_use_def split: option.split)
  also have "\<dots> \<longleftrightarrow> p \<in> ran (held s)"
    by (rule find_held)
  finally show ?thesis .
qed

text \<open>The manager touches nothing but its registry.\<close>

definition same_but_registry :: "'z ports_scheme \<Rightarrow> 'z ports_scheme \<Rightarrow> bool" where
  "same_but_registry s t \<longleftrightarrow>
     t = s\<lparr>port_registry := port_registry t, pm_initialized := pm_initialized t\<rparr>"

lemma request_port_frame [frame]: "same_but_registry s (snd (request_port p s))"
proof (cases "pm_initialized s")
  case True
  then show ?thesis
    by (cases s) (auto simp: same_but_registry_def request_port_def Let_def split: option.split)
next
  case False
  then show ?thesis
    by (cases s)
      (auto simp: same_but_registry_def request_port_def Let_def init_port_manager_eq split: option.split)
qed

lemma same_but_registry_trace: "same_but_registry s t \<Longrightarrow> trace t = trace s"
  by (cases s; cases t) (simp add: same_but_registry_def)

lemma same_but_registry_device: "same_but_registry s t \<Longrightarrow> device t = device s"
  by (cases s; cases t) (simp add: same_but_registry_def)

lemma release_port_frame [frame]: "same_but_registry s (release_port h s)"
  by (cases s) (auto simp: same_but_registry_def release_port_def split: option.split)

lemmas registry_frame_simps [simp] =
  request_port_frame [THEN same_but_registry_trace] request_port_frame [THEN same_but_registry_device]
  release_port_frame [THEN same_but_registry_trace] release_port_frame [THEN same_but_registry_device]

interpretation pm: port_table request_port release_port held ports_ok
proof unfold_locales
  fix s :: "'a ports_scheme" and p
  assume "ports_ok s" "p \<notin> ran (held s)" "card (dom (held s)) < 64"
  then show "fst (request_port p s) \<noteq> None"
    using request_port_refused [of s p] by (cases "request_port p s") auto
next
  show "release_port None s = s" for s :: "'a ports_scheme"
    by (simp add: release_port_def)
qed (simp_all add: ports_ok_request ports_ok_release request_port_refused request_port_granted
      held_release)

text \<open>A request that finds room, in the form the drivers use it.\<close>

lemma finite_held: "finite (dom (held s))"
proof -
  have "dom (held s) \<subseteq> {0..<64}" by (auto simp: held_def split: if_splits)
  then show ?thesis by (rule finite_subset) simp
qed

lemma request_port_grants:
  fixes s :: "'z ports_scheme"
  assumes "ports_ok s" and "p \<notin> ran (held s)" and "card (dom (held s)) < 64"
  shows "\<exists>h t. request_port p s = (Some h, t) \<and> held s h = None \<and> held t = (held s)(h \<mapsto> p) \<and> ports_ok t
     \<and> card (dom (held t)) = Suc (card (dom (held s))) \<and> ran (held t) = insert p (ran (held s))
     \<and> same_but_registry s t"
proof -
  from pm.request_free [OF assms] obtain h t where r: "request_port p s = (Some h, t)"
    by (cases "request_port p s") auto
  from request_port_granted [OF assms(1) r] have g: "held s h = None" "held t = (held s)(h \<mapsto> p)" by simp_all
  from r have t: "t = snd (request_port p s)" by simp
  have "card (dom (held t)) = Suc (card (dom (held s)))"
    using g finite_held [of s] by (simp add: card_insert_if domIff)
  moreover have "ran (held t) = insert p (ran (held s))" using g by (simp add: ran_map_upd)
  ultimately show ?thesis
    using r g ports_ok_request [OF assms(1), of p] request_port_frame [of s p] t by blast
qed

section \<open>Properties\<close>

text \<open>The state at power-on: static storage is zeroed, no port was touched.\<close>

definition ports_boot :: "device_fn \<Rightarrow> ports" where
  "ports_boot d =
     \<lparr>if_flag = False, halted = False, gdtr = (0, 0), idtr = (0, 0), trace = [], device = d,
      port_registry = (\<lambda>_. \<lparr>port = 0, in_use = False, next_handle = None\<rparr>),
      pm_initialized = False\<rparr>"

lemma held_boot [simp]: "held (ports_boot d) = Map.empty"
  by (simp add: held_def ports_boot_def fun_eq_iff)

lemma ports_ok_boot [simp]: "ports_ok (ports_boot d)"
  by (simp add: ports_ok_def)

text \<open>
  C17 (request refines the table). A request keeps the invariant. If it returns
  a handle, the handle was free, nobody held the port, and the table gains
  exactly that entry. If it returns \<^verbatim>\<open>NULL\<close>, the table is unchanged, and the
  port was held already or all 64 handles were taken.
\<close>

theorem request_port_refines:
  assumes "ports_ok s"
  shows "ports_ok (snd (request_port p s)) \<and>
    (case fst (request_port p s) of
       Some h \<Rightarrow> held s h = None \<and> p \<notin> ran (held s)
                  \<and> held (snd (request_port p s)) = (held s)(h \<mapsto> p)
     | None \<Rightarrow> held (snd (request_port p s)) = held s
                \<and> (p \<in> ran (held s) \<or> card (dom (held s)) = 64))"
proof (cases "request_port p s")
  case (Pair h t)
  then show ?thesis
    using ports_ok_request [OF assms, of p] request_port_granted [OF assms, of p _ t]
      request_port_refused [OF assms, of p t]
    by (auto split: option.split)
qed

theorem request_port_refines_witness:
  "ports_ok (ports_boot (\<lambda>_ _. 0)) \<and>
   held (snd (request_port 0x70 (ports_boot (\<lambda>_ _. 0)))) = [0 \<mapsto> 0x70]"
proof -
  have "fst (request_port 0x70 (ports_boot (\<lambda>_ _. 0))) = Some 0"
    by (simp add: request_port_def init_port_manager_eq ports_boot_def registry_indices_def upto.simps)
  then show ?thesis
    using request_port_refines [OF ports_ok_boot [of "\<lambda>_ _. 0"], of "0x70"] by simp
qed

text \<open>
  A port has one holder, and release gives it back. After a successful
  request the port is reported in use and a second request for it is refused;
  releasing the handle makes the port free and restores the table.
\<close>

theorem request_release_roundtrip:
  assumes "ports_ok s" and "request_port p s = (Some h, t)"
  shows "is_port_in_use p t \<and> fst (request_port p t) = None
    \<and> held (release_port (Some h) t) = held s \<and> \<not> is_port_in_use p (release_port (Some h) t)"
  using request_port_granted [OF assms] pm.request_twice [OF assms] pm.request_release [OF assms]
  by (auto simp: is_port_in_use_iff ran_def)

theorem request_release_roundtrip_witness:
  "\<exists>t. request_port 0x70 (ports_boot (\<lambda>_ _. 0)) = (Some 0, t) \<and> is_port_in_use 0x70 t
     \<and> \<not> is_port_in_use 0x70 (release_port (Some 0) t)"
proof -
  have "\<exists>t. request_port 0x70 (ports_boot (\<lambda>_ _. 0)) = (Some 0, t)"
    by (simp add: request_port_def init_port_manager_eq ports_boot_def registry_indices_def upto.simps)
  then show ?thesis
    using request_release_roundtrip [OF ports_ok_boot [of "\<lambda>_ _. 0"], of "0x70" 0] by blast
qed

end
