(* ===== verification/Io.thy ===== *)
theory Io
  imports Port_Manager
begin

text \<open>
  Port access and the polled serial driver (\<^verbatim>\<open>src/io.c\<close>). Every character the
  kernel prints goes through \<^verbatim>\<open>write_serial\<close>, which spins until the UART reports
  an empty transmitter. The spin is the \<^verbatim>\<open>partial_function\<close> \<open>serial_wait\<close>;
  \<open>uart_drains\<close> is what it needs of the hardware to return: from every history,
  polling the line status register often enough shows the bit. Under it every
  output function of the kernel returns, and the bytes sent are known.
\<close>

section \<open>Port access\<close>

abbreviation SERIAL_COM1 :: u16 where
  "SERIAL_COM1 \<equiv> 0x3F8"

abbreviation SERIAL_LINE_STATUS :: u16 where
  "SERIAL_LINE_STATUS \<equiv> SERIAL_COM1 + 5"

abbreviation SERIAL_LINE_ENABLE_DLAB :: u8 where
  "SERIAL_LINE_ENABLE_DLAB \<equiv> 0x80"

abbreviation SERIAL_LINE_STATUS_EMPTY :: u8 where
  "SERIAL_LINE_STATUS_EMPTY \<equiv> 0x40"

definition in_b :: "u16 \<Rightarrow> 'z machine_scheme \<Rightarrow> u8 \<times> 'z machine_scheme" where
  "in_b p s = (let v = device s (trace s) p in (v, s\<lparr>trace := In p v # trace s\<rparr>))"

definition out_b :: "u16 \<Rightarrow> u8 \<Rightarrow> 'z machine_scheme \<Rightarrow> 'z machine_scheme" where
  "out_b p v s = s\<lparr>trace := Out p v # trace s\<rparr>"

definition read_port_b :: "port_ptr \<Rightarrow> 'z ports_scheme \<Rightarrow> u8 \<times> 'z ports_scheme" where
  "read_port_b handle s =
     (case handle of None \<Rightarrow> (0, s) | Some i \<Rightarrow> in_b (port (port_registry s i)) s)"

definition write_port_b :: "port_ptr \<Rightarrow> u8 \<Rightarrow> 'z ports_scheme \<Rightarrow> 'z ports_scheme" where
  "write_port_b handle value s =
     (case handle of None \<Rightarrow> s | Some i \<Rightarrow> out_b (port (port_registry s i)) value s)"

section \<open>The serial driver\<close>

definition init_serial :: "'z ports_scheme \<Rightarrow> 'z ports_scheme" where
  "init_serial s =
     (let (serial_handle, s) = request_port SERIAL_COM1 s in
      case serial_handle of
        None \<Rightarrow> s
      | Some i \<Rightarrow>
         (let p = port (port_registry s i);
              s = out_b (p + 1) 0x00 s;
              s = out_b (p + 3) SERIAL_LINE_ENABLE_DLAB s;
              s = out_b (p + 0) 0x03 s;
              s = out_b (p + 1) 0x00 s;
              s = out_b (p + 3) 0x03 s;
              s = out_b (p + 2) 0xC7 s;
              s = out_b (p + 4) 0x0B s;
              s = out_b (p + 4) 0x1E s;
              s = out_b (p + 0) 0xAE s;
              (v, s) = in_b (p + 0) s
          in out_b (p + 4) 0x0F s))"

definition serial_is_transmit_empty :: "'z machine_scheme \<Rightarrow> u8 \<times> 'z machine_scheme" where
  "serial_is_transmit_empty s =
     (let (v, s) = in_b SERIAL_LINE_STATUS s in (v AND SERIAL_LINE_STATUS_EMPTY, s))"

text \<open>\<^verbatim>\<open>while (serial_is_transmit_empty() == 0);\<close>\<close>

partial_function (option) serial_wait ::
    "'z machine_scheme \<Rightarrow> 'z machine_scheme option" where
  "serial_wait s =
     (case serial_is_transmit_empty s of (v, s) \<Rightarrow> if v = 0 then serial_wait s else Some s)"

definition write_serial :: "char \<Rightarrow> 'z machine_scheme \<Rightarrow> 'z machine_scheme option" where
  "write_serial c s =
     do { s \<leftarrow> serial_wait s;
          Some (out_b SERIAL_COM1 (of_char c) s) }"

fun write_serial_string :: "string \<Rightarrow> 'z machine_scheme \<Rightarrow> 'z machine_scheme option" where
  "write_serial_string [] s = Some s"
| "write_serial_string (c # cs) s =
     (if c = NUL then Some s
      else do { s \<leftarrow> (if c = LF then write_serial CR s else Some s);
                s \<leftarrow> write_serial c s;
                write_serial_string cs s })"

text \<open>The loop around \<^verbatim>\<open>hlt\<close> at the end never returns.\<close>

definition exit_qemu :: "u8 \<Rightarrow> 'z machine_scheme \<Rightarrow> 'z machine_scheme" where
  "exit_qemu exit_code s =
     halt_forever (out_b 0x80 exit_code (out_b 0x402 exit_code s))"

section \<open>What the driver sends\<close>

definition sent :: "'z machine_scheme \<Rightarrow> u8 list" where
  "sent s = outs_to SERIAL_COM1 (trace s)"

text \<open>The line discipline: a carriage return before every line feed.\<close>

fun crlf :: "string \<Rightarrow> string" where
  "crlf [] = []"
| "crlf (c # cs) = (if c = LF then CR # LF # crlf cs else c # crlf cs)"

text \<open>The history after \<open>n\<close> polls of the line status register.\<close>

fun lsr_polls :: "device_fn \<Rightarrow> nat \<Rightarrow> io_event list \<Rightarrow> io_event list" where
  "lsr_polls d 0 h = h"
| "lsr_polls d (Suc n) h =
     lsr_polls d n (In SERIAL_LINE_STATUS (d h SERIAL_LINE_STATUS) # h)"

definition tx_empty :: "device_fn \<Rightarrow> io_event list \<Rightarrow> bool" where
  "tx_empty d h \<longleftrightarrow> d h SERIAL_LINE_STATUS AND SERIAL_LINE_STATUS_EMPTY \<noteq> 0"

definition uart_drains :: "device_fn \<Rightarrow> bool" where
  "uart_drains d \<longleftrightarrow> (\<forall>h. \<exists>n. tx_empty d (lsr_polls d n h))"

text \<open>
  The port accesses other than the serial driver's own: \<^verbatim>\<open>same_but_serial\<close> says
  that an operation only talked to the UART, so that every other device has
  seen the same accesses before and after it.
\<close>

definition uart_event :: "io_event \<Rightarrow> bool" where
  "uart_event e \<longleftrightarrow> (case e of In p v \<Rightarrow> p = SERIAL_LINE_STATUS | Out p v \<Rightarrow> p = SERIAL_COM1)"

definition other_io :: "io_event list \<Rightarrow> io_event list" where
  "other_io h = filter (\<lambda>e. \<not> uart_event e) h"

definition same_but_serial :: "'z machine_scheme \<Rightarrow> 'z machine_scheme \<Rightarrow> bool" where
  "same_but_serial s t \<longleftrightarrow> t = s\<lparr>trace := trace t\<rparr> \<and> other_io (trace t) = other_io (trace s)"

lemma uart_event_simps [simp]:
  "uart_event (In p v) \<longleftrightarrow> p = SERIAL_LINE_STATUS" "uart_event (Out p v) \<longleftrightarrow> p = SERIAL_COM1"
  by (simp_all add: uart_event_def)

lemma other_io_simps [simp]:
  "other_io [] = []" "other_io (e # h) = (if uart_event e then other_io h else e # other_io h)"
  by (simp_all add: other_io_def)

lemma same_but_serial_refl: "same_but_serial s s"
  by (simp add: same_but_serial_def)

lemma same_but_serial_trans:
  "same_but_serial s t \<Longrightarrow> same_but_serial t u \<Longrightarrow> same_but_serial s u"
  by (cases s; cases t; cases u) (simp add: same_but_serial_def)

lemma other_io_lsr_polls: "other_io (lsr_polls d n h) = other_io h"
  by (induction n arbitrary: h) simp_all

lemma outs_to_other_io: "p \<noteq> SERIAL_COM1 \<Longrightarrow> outs_to p h = outs_to p (other_io h)"
  by (induction p h rule: outs_to.induct) auto

text \<open>
  The interface the output functions of the kernel rely on: a sink for
  characters that always returns, appends the character to what was sent, and
  changes nothing a client can see.
\<close>

locale char_sink =
  fixes put :: "char \<Rightarrow> 's \<Rightarrow> 's option"
    and out :: "'s \<Rightarrow> u8 list"
    and live :: "'s \<Rightarrow> bool"
    and same :: "'s \<Rightarrow> 's \<Rightarrow> bool"
  assumes put_returns: "live s \<Longrightarrow> \<exists>t. put c s = Some t \<and> out t = out s @ [of_char c]
            \<and> live t \<and> same s t"
    and same_refl: "same s s"
    and same_trans: "same s t \<Longrightarrow> same t u \<Longrightarrow> same s u"
begin

fun puts :: "string \<Rightarrow> 's \<Rightarrow> 's option" where
  "puts [] s = Some s"
| "puts (c # cs) s = Option.bind (put c s) (puts cs)"

lemma puts_returns:
  "live s \<Longrightarrow> \<exists>t. puts cs s = Some t \<and> out t = out s @ map of_char cs \<and> live t \<and> same s t"
proof (induction cs arbitrary: s)
  case Nil
  then show ?case by (simp add: same_refl)
next
  case (Cons c cs)
  from put_returns [OF Cons.prems, of c] obtain t
    where t: "put c s = Some t" "out t = out s @ [of_char c]" "live t" "same s t"
    by blast
  from Cons.IH [OF \<open>live t\<close>] obtain u
    where "puts cs t = Some u" "out u = out t @ map of_char cs" "live u" "same t u"
    by blast
  with t show ?case by (auto intro: same_trans)
qed

end

lemma serial_wait_polls:
  assumes "tx_empty (device s) (lsr_polls (device s) n (trace s))"
  shows "\<exists>m. serial_wait s = Some (s\<lparr>trace := lsr_polls (device s) (Suc m) (trace s)\<rparr>)"
  using assms
proof (induction n arbitrary: s)
  case 0
  then have "serial_wait s = Some (s\<lparr>trace := lsr_polls (device s) (Suc 0) (trace s)\<rparr>)"
    by (subst serial_wait.simps) (simp add: serial_is_transmit_empty_def in_b_def tx_empty_def Let_def)
  then show ?case by blast
next
  case (Suc n)
  let ?s = "s\<lparr>trace := In SERIAL_LINE_STATUS (device s (trace s) SERIAL_LINE_STATUS) # trace s\<rparr>"
  have unfold: "serial_wait s = (if tx_empty (device s) (trace s) then Some ?s else serial_wait ?s)"
    by (subst serial_wait.simps) (simp add: serial_is_transmit_empty_def in_b_def tx_empty_def Let_def)
  show ?case
  proof (cases "tx_empty (device s) (trace s)")
    case True
    with unfold show ?thesis by (intro exI [of _ 0]) simp
  next
    case False
    have "\<exists>m. serial_wait ?s = Some (?s\<lparr>trace := lsr_polls (device ?s) (Suc m) (trace ?s)\<rparr>)"
      by (rule Suc.IH) (use Suc.prems in simp)
    then obtain m where "serial_wait ?s = Some (?s\<lparr>trace := lsr_polls (device s) (Suc m) (trace ?s)\<rparr>)"
      by auto
    with False unfold show ?thesis by (intro exI [of _ "Suc m"]) simp
  qed
qed

lemma outs_to_lsr_polls: "outs_to p (lsr_polls d n h) = outs_to p h"
  by (induction n arbitrary: h) simp_all

lemma write_serial_returns:
  assumes "uart_drains (device s)"
  shows "\<exists>t. write_serial c s = Some t \<and> sent t = sent s @ [of_char c]
           \<and> uart_drains (device t) \<and> same_but_serial s t"
proof -
  from assms obtain n where "tx_empty (device s) (lsr_polls (device s) n (trace s))"
    unfolding uart_drains_def by blast
  from serial_wait_polls [OF this] obtain m
    where "serial_wait s = Some (s\<lparr>trace := lsr_polls (device s) (Suc m) (trace s)\<rparr>)" by blast
  with assms show ?thesis
    by (simp add: write_serial_def out_b_def sent_def outs_to_lsr_polls same_but_serial_def other_io_lsr_polls)
qed

interpretation serial: char_sink write_serial sent "\<lambda>s. uart_drains (device s)" same_but_serial
  by unfold_locales (auto intro: write_serial_returns same_but_serial_trans same_but_serial_refl)

text \<open>The string writer is the sink fed with the CR-LF expansion of the string.\<close>

lemma write_serial_string_eq: "write_serial_string str s = serial.puts (crlf (cstr str)) s"
  by (induction str s rule: write_serial_string.induct)
    (auto intro!: Option.bind_cong split: option.split)

lemma write_serial_string_returns:
  assumes "uart_drains (device s)"
  shows "\<exists>t. write_serial_string str s = Some t
           \<and> sent t = sent s @ map of_char (crlf (cstr str)) \<and> same_but_serial s t"
  using serial.puts_returns [OF assms, of "crlf (cstr str)"] by (auto simp: write_serial_string_eq)

section \<open>Properties\<close>

text \<open>A UART that is always ready, for the witnesses.\<close>

definition uart_ready :: device_fn where
  "uart_ready = (\<lambda>_ _. 0x60)"

lemma uart_drains_ready [simp]: "uart_drains uart_ready"
  by (simp add: uart_drains_def tx_empty_def uart_ready_def)

text \<open>
  The serial writer returns and sends the string. On a UART that drains,
  \<^verbatim>\<open>write_serial_string\<close> returns; the bytes it has sent are the string up to its
  NUL, a carriage return before every line feed; and nothing but the trace of
  port accesses has changed.
\<close>

theorem write_serial_string_sends:
  assumes "uart_drains (device s)"
  shows "\<exists>t. write_serial_string str s = Some t
    \<and> sent t = sent s @ map of_char (crlf (cstr str)) \<and> same_but_serial s t"
  using assms by (rule write_serial_string_returns)

theorem write_serial_string_sends_witness:
  "\<exists>t. write_serial_string [CHR ''h'', LF] (ports_boot uart_ready) = Some t \<and> sent t = [104, 13, 10]"
  using write_serial_string_sends [of "ports_boot uart_ready" "[CHR ''h'', LF]"]
  by (auto simp: ports_boot_def sent_def)

lemma init_serial_refused:
  assumes "ports_ok s" and "SERIAL_COM1 \<in> ran (held s)"
  shows "trace (init_serial s) = trace s"
proof -
  have "fst (request_port SERIAL_COM1 s) = None"
    using request_port_granted [OF assms(1), of SERIAL_COM1] assms(2)
    by (cases "request_port SERIAL_COM1 s"; cases "fst (request_port SERIAL_COM1 s)") auto
  then show ?thesis
    by (cases "request_port SERIAL_COM1 s")
      (use registry_frame_simps(1) [of SERIAL_COM1 s] in \<open>simp add: init_serial_def\<close>)
qed

lemma held_init_serial: "held (init_serial s) = held (snd (request_port SERIAL_COM1 s))"
  by (auto simp: init_serial_def Let_def in_b_def out_b_def held_def fun_eq_iff
      split: prod.split option.split)

lemma ports_ok_init_serial:
  assumes "ports_ok s"
  shows "ports_ok (init_serial s)"
proof -
  have "pm_initialized (init_serial s) = pm_initialized (snd (request_port SERIAL_COM1 s))"
    by (auto simp: init_serial_def Let_def in_b_def out_b_def split: prod.split option.split)
  then show ?thesis
    using ports_ok_request [OF assms, of SERIAL_COM1]
    by (simp add: ports_ok_def held_init_serial)
qed

text \<open>
  The UART is programmed once. While a handle is free, \<^verbatim>\<open>init_serial\<close>
  leaves COM1 reserved, and a second call finds it taken and sends nothing to
  the hardware.
\<close>

theorem init_serial_once:
  assumes "ports_ok s" and "card (dom (held s)) < 64"
  shows "is_port_in_use SERIAL_COM1 (init_serial s)
    \<and> trace (init_serial (init_serial s)) = trace (init_serial s)"
proof -
  have "SERIAL_COM1 \<in> ran (held (init_serial s))"
  proof (cases "request_port SERIAL_COM1 s")
    case (Pair h t)
    with assms show ?thesis
      using request_port_granted [OF assms(1), of SERIAL_COM1 _ t]
        request_port_refused [OF assms(1), of SERIAL_COM1 t]
      by (cases h) (auto simp: held_init_serial ran_def)
  qed
  then show ?thesis
    using init_serial_refused [OF ports_ok_init_serial [OF assms(1)]] is_port_in_use_iff by blast
qed

theorem init_serial_once_witness:
  "is_port_in_use SERIAL_COM1 (init_serial (ports_boot uart_ready))
   \<and> trace (init_serial (init_serial (ports_boot uart_ready))) = trace (init_serial (ports_boot uart_ready))"
  by (rule init_serial_once) simp_all

end
