(* ===== verification/Terminal.thy ===== *)
theory Terminal
  imports Io "HOL-Library.Signed_Division"
begin

text \<open>
  The VGA text terminal and the number printers (\<^verbatim>\<open>src/terminal.c\<close>). The text
  buffer is indexed by cell, as \<^verbatim>\<open>vga_buffer[i]\<close> is; the cursor and the colour
  are the 8-bit statics of the file. \<^verbatim>\<open>output_string\<close> and the printers write to
  the terminal and to the serial line.
\<close>

section \<open>State and cursor\<close>

abbreviation VGA_WIDTH :: nat where
  "VGA_WIDTH \<equiv> 80"

abbreviation VGA_HEIGHT :: nat where
  "VGA_HEIGHT \<equiv> 25"

record terminal = ports +
  vga_buffer :: "nat \<Rightarrow> u16"
  terminal_row :: u8
  terminal_column :: u8
  terminal_color :: u8

text \<open>
  \<^verbatim>\<open>(uint16_t)c | (uint16_t)color << 8\<close>: \<^verbatim>\<open>char\<close> is signed, so the
  conversion extends the sign.
\<close>

definition vga_entry :: "char \<Rightarrow> u8 \<Rightarrow> u16" where
  "vga_entry c color = scast (of_char c :: u8) OR push_bit 8 (ucast color)"

definition put_char :: "char \<Rightarrow> u8 \<Rightarrow> u32 \<Rightarrow> u32 \<Rightarrow> 'z terminal_scheme \<Rightarrow> 'z terminal_scheme" where
  "put_char c color x y s =
     s\<lparr>vga_buffer := (vga_buffer s)(unat (y * 80 + x) := vga_entry c color)\<rparr>"

definition scroll_terminal :: "'z terminal_scheme \<Rightarrow> 'z terminal_scheme" where
  "scroll_terminal s =
     (let s = for_up 0 (VGA_HEIGHT - 1) (\<lambda>y.
                for_up 0 VGA_WIDTH (\<lambda>x s.
                  s\<lparr>vga_buffer := (vga_buffer s)
                     (y * VGA_WIDTH + x := vga_buffer s ((y + 1) * VGA_WIDTH + x))\<rparr>)) s
      in for_up 0 VGA_WIDTH (\<lambda>x s.
           s\<lparr>vga_buffer := (vga_buffer s)
              ((VGA_HEIGHT - 1) * VGA_WIDTH + x := vga_entry (CHR '' '') (terminal_color s))\<rparr>) s)"

definition clear_terminal :: "'z terminal_scheme \<Rightarrow> 'z terminal_scheme" where
  "clear_terminal s =
     (for_up 0 VGA_HEIGHT (\<lambda>y.
        for_up 0 VGA_WIDTH (\<lambda>x s.
          put_char (CHR '' '') (terminal_color s) (of_nat x) (of_nat y) s)) s)
     \<lparr>terminal_row := 0, terminal_column := 0\<rparr>"

text \<open>The end of a row, shared by both ways to reach it.\<close>

definition terminal_wrap_row :: "'z terminal_scheme \<Rightarrow> 'z terminal_scheme" where
  "terminal_wrap_row s =
     (if unat (terminal_row s) \<ge> VGA_HEIGHT
      then (scroll_terminal s)\<lparr>terminal_row := of_nat (VGA_HEIGHT - 1)\<rparr>
      else s)"

definition terminal_put_cursor :: "'z terminal_scheme \<Rightarrow> 'z terminal_scheme" where
  "terminal_put_cursor s =
     (let s = s\<lparr>terminal_column := terminal_column s + 1\<rparr>;
          s = (if unat (terminal_column s) \<ge> VGA_WIDTH
               then s\<lparr>terminal_column := 0, terminal_row := terminal_row s + 1\<rparr> else s)
      in terminal_wrap_row s)"

definition terminal_put_char :: "char \<Rightarrow> 'z terminal_scheme \<Rightarrow> 'z terminal_scheme" where
  "terminal_put_char c s =
     (if c = LF
      then terminal_wrap_row (s\<lparr>terminal_column := 0, terminal_row := terminal_row s + 1\<rparr>)
      else terminal_put_cursor
             (put_char c (terminal_color s) (ucast (terminal_column s)) (ucast (terminal_row s)) s))"

fun write_string :: "string \<Rightarrow> 'z terminal_scheme \<Rightarrow> 'z terminal_scheme" where
  "write_string [] s = s"
| "write_string (c # cs) s = (if c = NUL then s else write_string cs (terminal_put_char c s))"

section \<open>Output to terminal and serial line\<close>

definition init_output :: "'z terminal_scheme \<Rightarrow> 'z terminal_scheme" where
  "init_output s = init_serial s"

definition output_char :: "char \<Rightarrow> 'z terminal_scheme \<Rightarrow> 'z terminal_scheme option" where
  "output_char c s = write_serial c (terminal_put_char c s)"

definition output_string :: "string \<Rightarrow> 'z terminal_scheme \<Rightarrow> 'z terminal_scheme option" where
  "output_string str s = write_serial_string str (write_string str s)"

section \<open>Number printing\<close>

text \<open>
  The printers write digits into a buffer from index 0 up, least significant
  first, and then swap the ends of the written part towards the middle. The
  model keeps the written part of the buffer as a list: \<^verbatim>\<open>buffer[i++] = c\<close>
  appends, and the terminating NUL stands at its end.
\<close>

function reverse_buffer :: "nat \<Rightarrow> nat \<Rightarrow> string \<Rightarrow> string" where
  "reverse_buffer start end buf =
     (if start < end
      then reverse_buffer (start + 1) (end - 1) (buf[start := buf ! end, end := buf ! start])
      else buf)"
  by pat_completeness auto
termination
  by (relation "measure (\<lambda>(start, end, buf). end - start)") auto

declare reverse_buffer.simps [simp del]

text \<open>
  \<^verbatim>\<open>num % 10\<close> and \<^verbatim>\<open>num / 10\<close> on \<^verbatim>\<open>int32_t\<close> truncate towards zero. Negating the
  least \<^verbatim>\<open>int32_t\<close> overflows; the model wraps, as the machine's \<^verbatim>\<open>neg\<close> does.
\<close>

function int_digits :: "u32 \<Rightarrow> string \<Rightarrow> string" where
  "int_digits num buf =
     (if num = 0 then buf
      else int_digits (word_of_int (sint num sdiv 10))
             (buf @ [char_of (sint num smod 10 + 48)]))"
  by pat_completeness auto
termination
proof (relation "measure (\<lambda>(num, buf). nat \<bar>sint num\<bar>)")
  fix num :: u32 and buf :: string
  assume "num \<noteq> 0"
  then have "sint num \<noteq> 0" by (simp add: signed_eq_0_iff)
  then have lt: "\<bar>sint num sdiv 10\<bar> < \<bar>sint num\<bar>"
    by (simp add: signed_divide_int_def abs_mult)
  have "sint (word_of_int (sint num sdiv 10) :: u32) = sint num sdiv 10"
    by (rule sint_word_of_int_u32) (use lt sint_u32_range [of num] in linarith)+
  with lt show "((word_of_int (sint num sdiv 10), buf @ [char_of (sint num smod 10 + 48)]), num, buf)
     \<in> measure (\<lambda>(num, buf). nat \<bar>sint num\<bar>)"
    by simp
qed simp

declare int_digits.simps [simp del]

definition int_to_string :: "u32 \<Rightarrow> string" where
  "int_to_string num =
     (if num = 0 then ''0''
      else let negative = sint num < 0;
               num = (if negative then - num else num);
               buf = int_digits num [];
               buf = (if negative then buf @ ''-'' else buf)
           in reverse_buffer 0 (length buf - 1) buf)"

function uint_digits :: "u32 \<Rightarrow> string \<Rightarrow> string" where
  "uint_digits num buf =
     (if num = 0 then buf
      else uint_digits (num div 10) (buf @ [char_of (unat (num mod 10) + 48)]))"
  by pat_completeness auto
termination
  by (relation "measure (\<lambda>(num, buf). unat num)")
    (auto simp: unat_div intro!: div_less_dividend simp flip: unat_eq_0)

declare uint_digits.simps [simp del]

definition uint_to_string :: "u32 \<Rightarrow> string" where
  "uint_to_string num =
     (if num = 0 then ''0''
      else let buf = uint_digits num [] in reverse_buffer 0 (length buf - 1) buf)"

definition put_i32 :: "u32 \<Rightarrow> 'z terminal_scheme \<Rightarrow> 'z terminal_scheme option" where
  "put_i32 num s = output_string (int_to_string num) s"

definition put_u32 :: "u32 \<Rightarrow> 'z terminal_scheme \<Rightarrow> 'z terminal_scheme option" where
  "put_u32 num s = output_string (uint_to_string num) s"

definition put_u64_padding :: "u32 \<Rightarrow> 'z terminal_scheme \<Rightarrow> 'z terminal_scheme option" where
  "put_u64_padding lower s =
     (if lower < 10 then output_string ''000000000'' s
      else if lower < 100 then output_string ''00000000'' s
      else if lower < 1000 then output_string ''0000000'' s
      else if lower < 10000 then output_string ''000000'' s
      else if lower < 100000 then output_string ''00000'' s
      else if lower < 1000000 then output_string ''0000'' s
      else if lower < 10000000 then output_string ''000'' s
      else if lower < 100000000 then output_string ''00'' s
      else if lower < 1000000000 then output_string ''0'' s
      else Some s)"

definition put_u64 :: "u64 \<Rightarrow> 'z terminal_scheme \<Rightarrow> 'z terminal_scheme option" where
  "put_u64 num s =
     (let upper = (ucast (drop_bit 32 num) :: u32); lower = (ucast num :: u32) in
      if upper \<noteq> 0 then
        do { s \<leftarrow> put_u32 upper s;
             let buffer = uint_to_string lower;
             s \<leftarrow> put_u64_padding lower s;
             output_string buffer s }
      else put_u32 lower s)"

text \<open>
  \<^verbatim>\<open>for (i = 8; i > 0; i--)\<close> fills \<^verbatim>\<open>buffer[9]\<close> down to \<^verbatim>\<open>buffer[2]\<close>: the list of
  digits grows at its front.
\<close>

fun hex_digits :: "nat \<Rightarrow> u32 \<Rightarrow> string \<Rightarrow> string" where
  "hex_digits 0 num buf = buf"
| "hex_digits (Suc i) num buf =
     hex_digits i (drop_bit 4 num) (''0123456789ABCDEF'' ! unat (num AND 0xF) # buf)"

definition hex_string :: "u32 \<Rightarrow> string" where
  "hex_string num = ''0x'' @ hex_digits 8 num []"

definition put_hex :: "u32 \<Rightarrow> 'z terminal_scheme \<Rightarrow> 'z terminal_scheme option" where
  "put_hex num s = output_string (hex_string num) s"

section \<open>Decimal and hexadecimal numerals\<close>

text \<open>The reference: the decimal numeral of a number, and its value.\<close>

definition dec_digit :: "nat \<Rightarrow> char" where
  "dec_digit d = char_of (d + 48)"

fun dec :: "nat \<Rightarrow> string" where
  "dec n = (if n < 10 then [dec_digit n] else dec (n div 10) @ [dec_digit (n mod 10)])"

declare dec.simps [simp del]

definition dec_value :: "string \<Rightarrow> nat" where
  "dec_value = foldl (\<lambda>v c. 10 * v + (of_char c - 48)) 0"

lemma dec_value_snoc: "d < 10 \<Longrightarrow> dec_value (str @ [dec_digit d]) = 10 * dec_value str + d"
  by (simp add: dec_value_def dec_digit_def)

lemma dec_value_dec [simp]: "dec_value (dec n) = n"
proof (induction n rule: dec.induct)
  case (1 n)
  show ?case
  proof (cases "n < 10")
    case True
    then have "dec_value (dec n) = dec_value ([] @ [dec_digit n])"
      by (simp add: dec.simps)
    also have "\<dots> = n"
      using True by (subst dec_value_snoc) (simp_all add: dec_value_def)
    finally show ?thesis .
  next
    case False
    with "1" show ?thesis by (subst dec.simps) (simp add: dec_value_snoc)
  qed
qed

lemma length_dec: "n < 10 ^ Suc k \<Longrightarrow> length (dec n) \<le> Suc k"
proof (induction k arbitrary: n)
  case 0
  then show ?case by (simp add: dec.simps)
next
  case (Suc k)
  show ?case
  proof (cases "n < 10")
    case True
    then show ?thesis by (simp add: dec.simps)
  next
    case False
    from Suc.prems have "n div 10 < 10 ^ Suc k" by (simp add: less_mult_imp_div_less)
    from Suc.IH [OF this] False show ?thesis by (subst dec.simps) simp
  qed
qed

lemma NUL_notin_dec [simp]: "NUL \<notin> set (dec n)"
proof (induction n rule: dec.induct)
  case (1 n)
  have d: "NUL \<noteq> dec_digit d" if "d < 10" for d
  proof
    assume "NUL = dec_digit d"
    then have "(of_char (dec_digit d) :: nat) = of_char NUL" by simp
    with that show False by (simp add: dec_digit_def)
  qed
  then show ?case
    using "1" by (subst dec.simps) auto
qed

text \<open>Reversal of the buffer by swapping its ends.\<close>

lemma length_reverse_buffer [simp]: "length (reverse_buffer i j buf) = length buf"
  by (induction i j buf rule: reverse_buffer.induct) (simp add: reverse_buffer.simps)

lemma nth_reverse_buffer:
  "j < length buf \<Longrightarrow> k < length buf \<Longrightarrow>
     reverse_buffer i j buf ! k = (if i \<le> k \<and> k \<le> j then buf ! (i + j - k) else buf ! k)"
proof (induction i j buf rule: reverse_buffer.induct)
  case (1 i j buf)
  show ?case
  proof (cases "i < j")
    case True
    with "1" show ?thesis
      by (subst reverse_buffer.simps) (auto simp: nth_list_update)
  next
    case False
    then show ?thesis
      by (subst reverse_buffer.simps) (auto dest: le_antisym)
  qed
qed

lemma reverse_buffer_rev: "reverse_buffer 0 (length buf - Suc 0) buf = rev buf"
proof (cases "buf = []")
  case True
  then show ?thesis by (simp add: reverse_buffer.simps)
next
  case False
  then show ?thesis
    by (intro nth_equalityI) (auto simp: nth_reverse_buffer rev_nth)
qed

lemma uint_digits_eq:
  "uint_digits num buf = buf @ (if num = 0 then [] else rev (dec (unat num)))"
proof (induction num buf rule: uint_digits.induct)
  case (1 num buf)
  show ?case
  proof (cases "num = 0")
    case True
    then show ?thesis by (simp add: uint_digits.simps)
  next
    case False
    have small: "num div 10 = 0 \<longleftrightarrow> unat num < 10"
      by (simp add: unat_eq_0 [symmetric] unat_div div_eq_0_iff)
    have "uint_digits num buf = buf @ [dec_digit (unat num mod 10)] @
       (if num div 10 = 0 then [] else rev (dec (unat num div 10)))"
      using "1" [OF False] False
      by (subst uint_digits.simps) (simp add: dec_digit_def unat_mod unat_div)
    also have "\<dots> = buf @ rev (dec (unat num))"
      by (subst (2) dec.simps) (simp add: small)
    finally show ?thesis using False by simp
  qed
qed

lemma dec_0: "dec 0 = ''0''"
  by code_simp

lemma uint_to_string_eq: "uint_to_string num = dec (unat num)"
  using reverse_buffer_rev [of "rev (dec (unat num))"]
  by (cases "num = 0") (simp_all add: uint_to_string_def uint_digits_eq dec_0)

lemma int_digits_eq:
  "0 \<le> sint num \<Longrightarrow>
     int_digits num buf = buf @ (if num = 0 then [] else rev (dec (nat (sint num))))"
proof (induction num buf rule: int_digits.induct)
  case (1 num buf)
  show ?case
  proof (cases "num = 0")
    case True
    then show ?thesis by (simp add: int_digits.simps)
  next
    case False
    let ?q = "word_of_int (sint num sdiv 10) :: u32"
    have q: "sint ?q = sint num div 10"
    proof -
      have "sint num sdiv 10 = sint num div 10"
        using "1.prems" by (simp add: signed_divide_int_def sgn_if)
      moreover have "0 \<le> sint num div 10" "sint num div 10 < 2 ^ 31"
        using "1.prems" sint_u32_range(2) [of num] by presburger+
      ultimately show ?thesis by (simp add: sint_word_of_int_u32)
    qed
    have r: "sint num smod 10 = sint num mod 10"
      using "1.prems" by (simp add: signed_modulo_int_def sgn_if)
    have nat_q: "nat (sint ?q) = nat (sint num) div 10"
      by (simp add: q nat_div_distrib)
    have small: "?q = 0 \<longleftrightarrow> nat (sint num) < 10"
    proof -
      have "?q = 0 \<longleftrightarrow> sint num div 10 = 0"
        unfolding q [symmetric] by (simp add: signed_eq_0_iff)
      also have "\<dots> \<longleftrightarrow> nat (sint num) < 10"
        using "1.prems" by presburger
      finally show ?thesis .
    qed
    have "char_of (sint num smod 10 + 48) = dec_digit (nat (sint num) mod 10)"
    proof -
      have "sint num smod 10 + 48 = int (nat (sint num) mod 10 + 48)"
        using "1.prems" by (simp add: r zmod_int)
      then show ?thesis by (simp only: dec_digit_def char_of_nat)
    qed
    then have "int_digits num buf = buf @ [dec_digit (nat (sint num) mod 10)] @
       (if ?q = 0 then [] else rev (dec (nat (sint num) div 10)))"
      using "1.IH" [OF False] False q "1.prems" nat_q
      by (subst int_digits.simps) simp
    also have "\<dots> = buf @ rev (dec (nat (sint num)))"
      by (subst (2) dec.simps) (simp add: small)
    finally show ?thesis using False by simp
  qed
qed

lemma int_to_string_eq:
  assumes "num \<noteq> 0x80000000"
  shows "int_to_string num =
     (if sint num < 0 then ''-'' @ dec (nat (- sint num)) else dec (nat (sint num)))"
proof (cases "sint num < 0")
  case True
  have "sint num \<noteq> - (2 ^ 31)"
  proof
    assume "sint num = - (2 ^ 31)"
    then have "num = word_of_int (- (2 ^ 31))" by (metis scast_eq scast_id)
    with assms show False by simp
  qed
  then have neg: "sint (- num) = - sint num"
    using True sint_u32_range [of num]
    by (simp add: sint_word_ariths signed_take_bit_int_eq_self)
  with True have "- num \<noteq> 0" "num \<noteq> 0" by auto
  with True neg show ?thesis
    using reverse_buffer_rev [of "rev (dec (nat (- sint num))) @ ''-''"]
    by (simp add: int_to_string_def int_digits_eq Let_def)
next
  case False
  then show ?thesis
    using reverse_buffer_rev [of "rev (dec (nat (sint num)))"]
    by (cases "num = 0") (simp_all add: int_to_string_def int_digits_eq dec_0 Let_def)
qed

text \<open>Hexadecimal: the value of a string of hex digits.\<close>

definition hex_digit_value :: "char \<Rightarrow> nat" where
  "hex_digit_value c = (let v = of_char c in if v < 58 then v - 48 else v - 55)"

definition hex_value :: "string \<Rightarrow> nat" where
  "hex_value = foldl (\<lambda>v c. 16 * v + hex_digit_value c) 0"

lemma hex_digit_value_nth: "k < 16 \<Longrightarrow> hex_digit_value (''0123456789ABCDEF'' ! k) = k"
proof -
  have "\<forall>k\<in>set [0..<16]. hex_digit_value (''0123456789ABCDEF'' ! k) = k"
    by code_simp
  then show "k < 16 \<Longrightarrow> hex_digit_value (''0123456789ABCDEF'' ! k) = k" by simp
qed

lemma foldl_hex: "foldl (\<lambda>v c. 16 * v + hex_digit_value c) a str = a * 16 ^ length str + hex_value str"
  unfolding hex_value_def
proof (induction str arbitrary: a)
  case Nil
  then show ?case by simp
next
  case (Cons c str)
  show ?case
    using Cons [of "16 * a + hex_digit_value c"] Cons [of "hex_digit_value c"]
    by (simp add: algebra_simps)
qed

lemma hex_value_Cons: "hex_value (c # str) = hex_digit_value c * 16 ^ length str + hex_value str"
  using foldl_hex [of "hex_digit_value c" str] by (simp add: hex_value_def)

lemma unat_low_nibble: "unat (num AND 0xF :: u32) = unat num mod 16"
proof -
  have "num AND 0xF = take_bit 4 num" by (simp add: take_bit_eq_mask mask_eq_decr_exp)
  then show ?thesis by (simp add: unsigned_take_bit_eq take_bit_eq_mod [of 4 "unat num"])
qed

lemma length_hex_digits [simp]: "length (hex_digits i num buf) = i + length buf"
  by (induction i arbitrary: num buf) simp_all

lemma hex_value_digits:
  "hex_value (hex_digits i num buf) = unat num mod 16 ^ i * 16 ^ length buf + hex_value buf"
proof (induction i arbitrary: num buf)
  case 0
  then show ?case by simp
next
  case (Suc i)
  let ?c = "''0123456789ABCDEF'' ! unat (num AND 0xF)"
  have "unat (drop_bit 4 num) = unat num div 16"
    by (simp add: drop_bit_eq_div unat_div)
  moreover have "hex_digit_value ?c = unat num mod 16"
    by (simp add: hex_digit_value_nth unat_low_nibble)
  moreover have "unat num mod (16 * 16 ^ i) = 16 * (unat num div 16 mod 16 ^ i) + unat num mod 16"
    by (rule mod_mult2_eq)
  ultimately show ?case
    by (simp only: hex_digits.simps Suc.IH hex_value_Cons power_Suc list.size)
      (simp add: algebra_simps)
qed

lemma hex_value_hex_digits: "hex_value (hex_digits 8 num []) = unat num"
proof -
  have "unat num < 16 ^ 8" using unsigned_less [of num] by simp
  then show ?thesis by (simp only: hex_value_digits) (simp add: hex_value_def)
qed

lemma NUL_notin_hex [simp]: "NUL \<notin> set (hex_digits i num buf) \<longleftrightarrow> NUL \<notin> set buf"
proof (induction i arbitrary: num buf)
  case (Suc i)
  have "NUL \<notin> set ''0123456789ABCDEF''" by simp
  moreover have "''0123456789ABCDEF'' ! unat (num AND 0xF) \<in> set ''0123456789ABCDEF''"
    by (rule nth_mem) (simp add: unat_low_nibble)
  ultimately have "NUL \<noteq> ''0123456789ABCDEF'' ! unat (num AND 0xF)" by metis
  then show ?case by (simp only: hex_digits.simps Suc.IH set_simps insert_iff) blast
qed simp

section \<open>The terminal\<close>

text \<open>Closed forms of the loops.\<close>

lemma scroll_row_eq:
  "n \<le> 80 \<Longrightarrow> for_up 0 n (\<lambda>x s. s\<lparr>vga_buffer := (vga_buffer s)
      (y * 80 + x := vga_buffer s ((y + 1) * 80 + x))\<rparr>) s =
    s\<lparr>vga_buffer := (\<lambda>i. if y * 80 \<le> i \<and> i < y * 80 + n then vga_buffer s (i + 80) else vga_buffer s i)\<rparr>"
proof (induction n)
  case 0
  show ?case by (cases s) (auto simp: fun_eq_iff)
next
  case (Suc n)
  then show ?case by (auto simp: for_up_Suc fun_eq_iff algebra_simps)
qed

lemma scroll_rows_eq:
  "for_up 0 m (\<lambda>y. for_up 0 80 (\<lambda>x s. s\<lparr>vga_buffer := (vga_buffer s)
      (y * 80 + x := vga_buffer s ((y + 1) * 80 + x))\<rparr>)) s =
    s\<lparr>vga_buffer := (\<lambda>i. if i < m * 80 then vga_buffer s (i + 80) else vga_buffer s i)\<rparr>"
proof (induction m)
  case 0
  show ?case by simp
next
  case (Suc m)
  show ?case
    unfolding for_up_Suc [OF le0] Suc.IH
    by (subst scroll_row_eq, simp) (cases s, auto simp: fun_eq_iff)
qed

lemma blank_row_eq:
  "for_up 0 n (\<lambda>x s. s\<lparr>vga_buffer := (vga_buffer s)(b + x := vga_entry c (terminal_color s))\<rparr>) s =
    s\<lparr>vga_buffer := (\<lambda>i. if b \<le> i \<and> i < b + n then vga_entry c (terminal_color s) else vga_buffer s i)\<rparr>"
proof (induction n)
  case 0
  show ?case by (cases s) (auto simp: fun_eq_iff)
next
  case (Suc n)
  then show ?case by (auto simp: for_up_Suc fun_eq_iff)
qed

abbreviation blank :: "'z terminal_scheme \<Rightarrow> u16" where
  "blank s \<equiv> vga_entry (CHR '' '') (terminal_color s)"

definition scrolled :: "u16 \<Rightarrow> (nat \<Rightarrow> u16) \<Rightarrow> nat \<Rightarrow> u16" where
  "scrolled b buf i = (if i < 1920 then buf (i + 80) else if i < 2000 then b else buf i)"

lemma scroll_terminal_eq [effect]:
  "scroll_terminal s = s\<lparr>vga_buffer := scrolled (blank s) (vga_buffer s)\<rparr>"
  by (cases s) (auto simp: scroll_terminal_def scrolled_def Let_def scroll_rows_eq [simplified] blank_row_eq fun_eq_iff)

lemma cell_index:
  "x < 80 \<Longrightarrow> y < 25 \<Longrightarrow> unat (of_nat y * 80 + of_nat x :: u32) = y * 80 + x"
proof -
  assume "x < 80" "y < 25"
  then have "unat (of_nat (y * 80 + x) :: u32) = y * 80 + x"
    by (subst unat_of_nat) simp
  then show ?thesis by simp
qed

lemma clear_row_eq:
  "n \<le> 80 \<Longrightarrow> y < 25 \<Longrightarrow>
    for_up 0 n (\<lambda>x s. put_char (CHR '' '') (terminal_color s) (of_nat x) (of_nat y) s) s =
    s\<lparr>vga_buffer := (\<lambda>i. if y * 80 \<le> i \<and> i < y * 80 + n then blank s else vga_buffer s i)\<rparr>"
proof (induction n)
  case 0
  show ?case by (cases s) (auto simp: fun_eq_iff)
next
  case (Suc n)
  then show ?case by (auto simp: for_up_Suc put_char_def cell_index fun_eq_iff)
qed

lemma clear_rows_eq:
  "m \<le> 25 \<Longrightarrow>
    for_up 0 m (\<lambda>y. for_up 0 80 (\<lambda>x s. put_char (CHR '' '') (terminal_color s) (of_nat x) (of_nat y) s)) s =
    s\<lparr>vga_buffer := (\<lambda>i. if i < m * 80 then blank s else vga_buffer s i)\<rparr>"
proof (induction m)
  case 0
  show ?case by simp
next
  case (Suc m)
  then show ?case
    unfolding for_up_Suc [OF le0] Suc.IH [OF Suc_leD [OF Suc.prems]]
    by (subst clear_row_eq, simp, simp) (cases s, auto simp: fun_eq_iff)
qed

lemma clear_terminal_eq [effect]:
  "clear_terminal s = s\<lparr>vga_buffer := (\<lambda>i. if i < 2000 then blank s else vga_buffer s i),
      terminal_row := 0, terminal_column := 0\<rparr>"
  unfolding clear_terminal_def by (subst clear_rows_eq) simp_all

text \<open>The cursor is always on the screen.\<close>

definition cursor_ok :: "'z terminal_scheme \<Rightarrow> bool" where
  "cursor_ok s \<longleftrightarrow> unat (terminal_row s) < 25 \<and> unat (terminal_column s) < 80"

lemma unat_inc_u8: "unat (x :: u8) < 255 \<Longrightarrow> unat (x + 1) = Suc (unat x)"
  by (simp add: unat_word_ariths)

lemma cell_index_cursor:
  "cursor_ok s \<Longrightarrow>
     unat (ucast (terminal_row s) * 80 + ucast (terminal_column s) :: u32)
       = unat (terminal_row s) * 80 + unat (terminal_column s)"
proof -
  assume "cursor_ok s"
  moreover have "ucast (terminal_row s) = (of_nat (unat (terminal_row s)) :: u32)"
    "ucast (terminal_column s) = (of_nat (unat (terminal_column s)) :: u32)"
    by simp_all
  ultimately show ?thesis
    using cell_index [of "unat (terminal_column s)" "unat (terminal_row s)"]
    by (simp only: cursor_ok_def)
qed

text \<open>
  What \<^verbatim>\<open>terminal_put_char\<close> does, with the cell, the wrap and the scroll of
  the C code made explicit.
\<close>

lemma terminal_put_char_eq:
  assumes "cursor_ok s"
  defines "r \<equiv> unat (terminal_row s)" and "c \<equiv> unat (terminal_column s)"
  shows "terminal_put_char ch s =
    (let new_row = (ch = LF \<or> c = 79);
         buf = (if ch = LF then vga_buffer s
                else (vga_buffer s)(r * 80 + c := vga_entry ch (terminal_color s)))
     in s\<lparr>vga_buffer := (if new_row \<and> r = 24
                         then scrolled (blank s) buf else buf),
          terminal_row := (if new_row then (if r = 24 then 24 else terminal_row s + 1) else terminal_row s),
          terminal_column := (if new_row then 0 else terminal_column s + 1)\<rparr>)"
proof -
  have r: "unat (terminal_row s) = r" "unat (terminal_row s + 1) = Suc r"
    and c: "unat (terminal_column s) = c" "unat (terminal_column s + 1) = Suc c"
    using assms(1) by (simp_all add: cursor_ok_def unat_inc_u8 r_def c_def)
  have "r < 25" "c < 80" using assms(1) by (simp_all add: cursor_ok_def r_def c_def)
  note defs = terminal_put_char_def terminal_put_cursor_def terminal_wrap_row_def put_char_def
    scroll_terminal_eq Let_def
  show ?thesis
    using \<open>r < 25\<close> \<open>c < 80\<close>
    by (cases "ch = LF"; cases "c = 79"; cases "r = 24")
      (simp_all add: defs r c cell_index_cursor [OF assms(1), unfolded r c])
qed

lemma cursor_ok_put_char:
  assumes "cursor_ok s"
  shows "cursor_ok (terminal_put_char ch s)"
proof -
  have "unat (terminal_row s) < 25" "unat (terminal_column s) < 80"
    using assms by (simp_all add: cursor_ok_def)
  then show ?thesis
    unfolding terminal_put_char_eq [OF assms] Let_def
    by (auto simp: cursor_ok_def unat_inc_u8)
qed

lemma cursor_ok_write_string: "cursor_ok s \<Longrightarrow> cursor_ok (write_string str s)"
  by (induction str s rule: write_string.induct) (simp_all add: cursor_ok_put_char)

lemma cursor_ok_clear [simp]: "cursor_ok (clear_terminal s)"
  by (simp add: clear_terminal_eq cursor_ok_def)

text \<open>
  \<^verbatim>\<open>same_but_console\<close>: printing changes the text buffer and the cursor and
  talks to the UART, and changes no other part of the kernel state.
\<close>

definition same_but_console :: "'z terminal_scheme \<Rightarrow> 'z terminal_scheme \<Rightarrow> bool" where
  "same_but_console s t \<longleftrightarrow>
     t = s\<lparr>trace := trace t, vga_buffer := vga_buffer t,
           terminal_row := terminal_row t, terminal_column := terminal_column t\<rparr>
     \<and> other_io (trace t) = other_io (trace s)"

lemma same_but_console_refl [simp]: "same_but_console s s"
  by (simp add: same_but_console_def)

lemma same_but_console_trans:
  "same_but_console s t \<Longrightarrow> same_but_console t u \<Longrightarrow> same_but_console s u"
  by (cases s; cases t; cases u) (simp add: same_but_console_def)

lemma same_but_serial_console: "same_but_serial s t \<Longrightarrow> same_but_console s t"
  by (cases s; cases t) (simp add: same_but_console_def same_but_serial_def)

lemma same_but_console_io: "same_but_console s t \<Longrightarrow> other_io (trace t) = other_io (trace s)"
  by (simp add: same_but_console_def)

lemma same_but_console_device: "same_but_console s t \<Longrightarrow> device t = device s"
  by (cases s; cases t) (simp add: same_but_console_def)

lemma same_but_console_color: "same_but_console s t \<Longrightarrow> terminal_color t = terminal_color s"
  by (cases s; cases t) (simp add: same_but_console_def)

lemma same_but_console_registry:
  "same_but_console s t \<Longrightarrow> port_registry t = port_registry s \<and> pm_initialized t = pm_initialized s"
  by (cases s; cases t) (simp add: same_but_console_def)

lemma terminal_put_char_frame [frame]:
  "same_but_console s (terminal_put_char ch s)" "trace (terminal_put_char ch s) = trace s"
  by (cases s, auto simp: same_but_console_def terminal_put_char_def terminal_put_cursor_def
      terminal_wrap_row_def put_char_def scroll_terminal_eq Let_def)+

lemma write_string_frame [frame]:
  "same_but_console s (write_string str s)" "trace (write_string str s) = trace s"
proof (induction str s rule: write_string.induct)
  case (2 c cs s)
  show "same_but_console s (write_string (c # cs) s)"
    using "2.IH"(1) terminal_put_char_frame(1) [of s c] by (auto intro: same_but_console_trans)
  show "trace (write_string (c # cs) s) = trace s"
    using "2.IH"(2) terminal_put_char_frame(2) [of c s] by auto
qed simp_all

section \<open>Printing\<close>

text \<open>
  \<^verbatim>\<open>prints f str\<close>: on a machine whose UART drains, the operation returns, has
  sent \<open>str\<close> with CR-LF line ends over the serial line, and has changed only
  the console. The rules compose such operations as the C code sequences its
  calls, so that a message of many pieces is proved by applying them.
\<close>

definition prints :: "('z terminal_scheme \<Rightarrow> 'z terminal_scheme option) \<Rightarrow> string \<Rightarrow> bool" where
  "prints f str \<longleftrightarrow>
     (\<forall>s. uart_drains (device s) \<longrightarrow>
        (\<exists>t. f s = Some t \<and> sent t = sent s @ map of_char (crlf str) \<and> same_but_console s t
           \<and> (cursor_ok s \<longrightarrow> cursor_ok t)))"

named_theorems printing "operations that print, with what they print"

lemma printsI:
  assumes "\<And>s. uart_drains (device s) \<Longrightarrow>
     \<exists>t. f s = Some t \<and> sent t = sent s @ map of_char (crlf str) \<and> same_but_console s t
        \<and> (cursor_ok s \<longrightarrow> cursor_ok t)"
  shows "prints f str"
  using assms by (simp add: prints_def)

lemma printsD:
  assumes "prints f str" and "uart_drains (device s)"
  obtains t where "f s = Some t" "sent t = sent s @ map of_char (crlf str)"
    "same_but_console s t" "cursor_ok s \<Longrightarrow> cursor_ok t" "uart_drains (device t)"
  using assms same_but_console_device unfolding prints_def by metis

lemma crlf_append: "crlf (a @ b) = crlf a @ crlf b"
  by (induction a) auto

lemma crlf_id: "LF \<notin> set str \<Longrightarrow> crlf str = str"
  by (induction str) auto

lemma prints_Some [printing]: "prints Some []"
  by (rule printsI) simp

lemma prints_seq [printing]:
  assumes "prints f a" and "prints g b"
  shows "prints (\<lambda>s. Option.bind (f s) g) (a @ b)"
proof (rule printsI)
  fix s :: "'a terminal_scheme"
  assume "uart_drains (device s)"
  from printsD [OF assms(1) this] obtain t where t: "f s = Some t"
    "sent t = sent s @ map of_char (crlf a)" "same_but_console s t"
    "cursor_ok s \<Longrightarrow> cursor_ok t" "uart_drains (device t)" by metis
  from printsD [OF assms(2) t(5)] obtain u where "g t = Some u"
    "sent u = sent t @ map of_char (crlf b)" "same_but_console t u"
    "cursor_ok t \<Longrightarrow> cursor_ok u" by metis
  with t show "\<exists>u. Option.bind (f s) g = Some u \<and> sent u = sent s @ map of_char (crlf (a @ b))
      \<and> same_but_console s u \<and> (cursor_ok s \<longrightarrow> cursor_ok u)"
    by (auto simp: crlf_append intro: same_but_console_trans)
qed

lemma same_but_serial_cursor: "same_but_serial s t \<Longrightarrow> cursor_ok t = cursor_ok s"
  by (cases s; cases t) (simp add: same_but_serial_def cursor_ok_def)

lemma prints_output_string: "prints (output_string str) (cstr str)"
proof (rule printsI)
  fix s :: "'a terminal_scheme"
  assume "uart_drains (device s)"
  moreover have "device (write_string str s) = device s"
    using write_string_frame(1) by (rule same_but_console_device)
  ultimately obtain t where "write_serial_string str (write_string str s) = Some t"
    "sent t = sent (write_string str s) @ map of_char (crlf (cstr str))"
    "same_but_serial (write_string str s) t"
    using write_serial_string_returns [of "write_string str s" str] by auto
  then show "\<exists>t. output_string str s = Some t \<and> sent t = sent s @ map of_char (crlf (cstr str))
      \<and> same_but_console s t \<and> (cursor_ok s \<longrightarrow> cursor_ok t)"
    using write_string_frame [where s = s and str = str] cursor_ok_write_string [of s str]
    by (auto simp: output_string_def sent_def same_but_serial_cursor
        intro: same_but_console_trans same_but_serial_console)
qed

lemma prints_literal [printing]: "NUL \<notin> set str \<Longrightarrow> prints (output_string str) str"
  using prints_output_string [of str] by (simp add: cstr_id)

lemma prints_put_u32 [printing]: "prints (put_u32 n) (dec (unat n))"
  using prints_literal [of "dec (unat n)"] by (simp add: put_u32_def [abs_def] uint_to_string_eq)

lemma prints_put_hex [printing]: "prints (put_hex n) (hex_string n)"
  using prints_literal [of "hex_string n"] by (simp add: put_hex_def [abs_def] hex_string_def)

lemma prints_put_i32 [printing]:
  assumes "n \<noteq> 0x80000000"
  shows "prints (put_i32 n) (if sint n < 0 then ''-'' @ dec (nat (- sint n)) else dec (nat (sint n)))"
  using prints_literal [of "int_to_string n"] assms
  by (auto simp: put_i32_def [abs_def] int_to_string_eq)

text \<open>
  The 64-bit printer pads the low half to ten digits and puts the high half in
  front. What comes out is a numeral, but of \<open>upper * 10 ^ 10 + lower\<close>.
\<close>

fun padded :: "nat \<Rightarrow> nat \<Rightarrow> string" where
  "padded 0 n = []"
| "padded (Suc k) n = padded k (n div 10) @ [dec_digit (n mod 10)]"

lemma dec_shift: "0 < a \<Longrightarrow> b < 10 ^ k \<Longrightarrow> dec (a * 10 ^ k + b) = dec a @ padded k b"
proof (induction k arbitrary: b)
  case 0
  then show ?case by simp
next
  case (Suc k)
  let ?n = "a * 10 ^ Suc k + b"
  have "1 \<le> a * 10 ^ k" using Suc.prems(1) by simp
  then have "10 * 1 \<le> 10 * (a * 10 ^ k)" by (rule mult_le_mono2)
  moreover have n: "?n = b + 10 * (a * 10 ^ k)" by simp
  ultimately have "10 \<le> ?n" by linarith
  moreover have "?n div 10 = a * 10 ^ k + b div 10" unfolding n by simp
  moreover have "?n mod 10 = b mod 10" unfolding n by (rule mod_mult_self2)
  moreover have "b div 10 < 10 ^ k" using Suc.prems(2) by (simp add: less_mult_imp_div_less)
  ultimately show ?case
    using Suc.IH [of "b div 10"] Suc.prems(1) by (subst dec.simps) simp
qed

lemma padded_dec: "k = 0 \<or> 10 ^ k \<le> n \<Longrightarrow> n < 10 ^ Suc k \<Longrightarrow> padded (Suc k) n = dec n"
proof (induction k arbitrary: n)
  case 0
  then show ?case by (subst dec.simps) simp
next
  case (Suc k)
  then have n: "10 ^ Suc k \<le> n" by simp
  then have "10 ^ k \<le> n div 10" by (simp add: less_eq_div_iff_mult_less_eq mult.commute)
  moreover have "n div 10 < 10 ^ Suc k" using Suc.prems(2) by (simp add: less_mult_imp_div_less)
  moreover have "10 \<le> n"
  proof -
    have "(10 :: nat) * 1 \<le> 10 * 10 ^ k" by (rule mult_le_mono2) simp
    with n show ?thesis unfolding power_Suc by linarith
  qed
  ultimately show ?case
    using Suc.IH [of "n div 10"] by (subst dec.simps) simp
qed

lemma padded_zeros: "n < 10 ^ k \<Longrightarrow> padded (j + k) n = replicate j (CHR ''0'') @ padded k n"
proof (induction k arbitrary: n)
  case 0
  have z: "dec_digit 0 = CHR ''0''" using dec_0 dec.simps [of 0] by simp
  have "padded j 0 = replicate j (CHR ''0'')"
    by (induction j) (simp_all add: z replicate_append_same)
  with 0 show ?case by simp
next
  case (Suc k)
  then show ?case using Suc.IH [of "n div 10"] by (simp add: less_mult_imp_div_less)
qed

lemma padded_leading:
  "k = 0 \<or> 10 ^ k \<le> n \<Longrightarrow> n < 10 ^ Suc k \<Longrightarrow>
     padded (j + Suc k) n = replicate j (CHR ''0'') @ dec n"
  using padded_zeros [of n "Suc k" j] padded_dec [of k n] by simp

lemma put_u64_padding_branch:
  assumes "k = 0 \<or> 10 ^ k \<le> unat lower" and "unat lower < 10 ^ Suc k"
    and "z = replicate j (CHR ''0'')" and "j + Suc k = 10"
    and "put_u64_padding lower = (output_string z :: 'z terminal_scheme \<Rightarrow> 'z terminal_scheme option)"
  shows "\<exists>z. prints (put_u64_padding lower :: 'z terminal_scheme \<Rightarrow> 'z terminal_scheme option) z
     \<and> z @ dec (unat lower) = padded 10 (unat lower)"
proof -
  have "z @ dec (unat lower) = padded 10 (unat lower)"
    using padded_leading [OF assms(1,2), of j] by (simp only: assms(3,4))
  moreover have "prints (output_string z :: 'z terminal_scheme \<Rightarrow> 'z terminal_scheme option) z"
    by (rule prints_literal) (simp add: assms(3))
  ultimately show ?thesis using assms(5) by auto
qed

lemma output_string_Nil [simp]: "output_string [] = Some"
  by (rule ext) (simp add: output_string_def)

lemma replicate_Suc_digits:
  "replicate 9 c = [c, c, c, c, c, c, c, c, c]" "replicate 8 c = [c, c, c, c, c, c, c, c]"
  "replicate 7 c = [c, c, c, c, c, c, c]" "replicate 6 c = [c, c, c, c, c, c]"
  "replicate 5 c = [c, c, c, c, c]" "replicate 4 c = [c, c, c, c]"
  "replicate 3 c = [c, c, c]" "replicate 2 c = [c, c]" "replicate 1 c = [c]"
  by (simp_all add: numeral_eq_Suc)

lemma prints_put_u64_padding:
  "\<exists>z. prints (put_u64_padding lower :: 'z terminal_scheme \<Rightarrow> 'z terminal_scheme option) z
     \<and> z @ dec (unat lower) = padded 10 (unat lower)"
proof -
  note lt = word_less_nat_alt put_u64_padding_def fun_eq_iff replicate_Suc_digits
  consider "unat lower < 10" | "10 \<le> unat lower" "unat lower < 100"
    | "100 \<le> unat lower" "unat lower < 1000" | "1000 \<le> unat lower" "unat lower < 10000"
    | "10000 \<le> unat lower" "unat lower < 100000" | "100000 \<le> unat lower" "unat lower < 1000000"
    | "1000000 \<le> unat lower" "unat lower < 10000000"
    | "10000000 \<le> unat lower" "unat lower < 100000000"
    | "100000000 \<le> unat lower" "unat lower < 1000000000" | "1000000000 \<le> unat lower"
    by linarith
  then show ?thesis
  proof cases
    case 1
    then show ?thesis by (intro put_u64_padding_branch [of 0 _ "''000000000''" 9]) (simp_all add: lt)
  next
    case 2
    then show ?thesis by (intro put_u64_padding_branch [of 1 _ "''00000000''" 8]) (simp_all add: lt)
  next
    case 3
    then show ?thesis by (intro put_u64_padding_branch [of 2 _ "''0000000''" 7]) (simp_all add: lt)
  next
    case 4
    then show ?thesis by (intro put_u64_padding_branch [of 3 _ "''000000''" 6]) (simp_all add: lt)
  next
    case 5
    then show ?thesis by (intro put_u64_padding_branch [of 4 _ "''00000''" 5]) (simp_all add: lt)
  next
    case 6
    then show ?thesis by (intro put_u64_padding_branch [of 5 _ "''0000''" 4]) (simp_all add: lt)
  next
    case 7
    then show ?thesis by (intro put_u64_padding_branch [of 6 _ "''000''" 3]) (simp_all add: lt)
  next
    case 8
    then show ?thesis by (intro put_u64_padding_branch [of 7 _ "''00''" 2]) (simp_all add: lt)
  next
    case 9
    then show ?thesis by (intro put_u64_padding_branch [of 8 _ "''0''" 1]) (simp_all add: lt)
  next
    case 10
    then show ?thesis using unat_u32_less [of lower] by (intro put_u64_padding_branch [of 9 _ "''''" 0]) (simp_all add: lt)
  qed
qed

lemma prints_put_u64:
  fixes n :: u64
  defines "upper \<equiv> ucast (drop_bit 32 n) :: u32" and "lower \<equiv> ucast n :: u32"
  shows "prints (put_u64 n :: 'z terminal_scheme \<Rightarrow> 'z terminal_scheme option)
    (if upper = 0 then dec (unat lower) else dec (unat upper * 10 ^ 10 + unat lower))"
proof (cases "upper = 0")
  case True
  then show ?thesis
    using prints_put_u32 [of lower] by (simp add: put_u64_def [abs_def] upper_def lower_def Let_def)
next
  case False
  obtain z where z: "prints (put_u64_padding lower :: 'z terminal_scheme \<Rightarrow> 'z terminal_scheme option) z"
    "z @ dec (unat lower) = padded 10 (unat lower)"
    using prints_put_u64_padding by blast
  have "prints (\<lambda>s :: 'z terminal_scheme. Option.bind (put_u32 upper s) (\<lambda>s. Option.bind
      (put_u64_padding lower s) (output_string (uint_to_string lower))))
      (dec (unat upper) @ z @ dec (unat lower))"
    unfolding uint_to_string_eq by (intro prints_seq prints_put_u32 z prints_literal) simp
  moreover have "dec (unat upper) @ z @ dec (unat lower) = dec (unat upper * 10 ^ 10 + unat lower)"
    using False unat_u32_less [of lower] z(2) by (subst dec_shift) (simp_all add: unat_gt_0)
  ultimately show ?thesis
    using False by (simp add: put_u64_def [abs_def] upper_def lower_def Let_def)
qed

section \<open>The screen shows the end of the page\<close>

text \<open>
  The abstract terminal is a page of unboundedly many rows of 80 cells; it never
  scrolls. The concrete terminal shows the last 25 rows of it.
\<close>

record page =
  cells :: "nat \<Rightarrow> nat \<Rightarrow> u16"
  page_row :: nat
  page_column :: nat

definition blank_page :: "u8 \<Rightarrow> page" where
  "blank_page color = \<lparr>cells = (\<lambda>_ _. vga_entry (CHR '' '') color), page_row = 0, page_column = 0\<rparr>"

definition page_put :: "u8 \<Rightarrow> char \<Rightarrow> page \<Rightarrow> page" where
  "page_put color c p =
     (if c = LF then p\<lparr>page_row := Suc (page_row p), page_column := 0\<rparr>
      else let p = p\<lparr>cells := (cells p)(page_row p := (cells p (page_row p))
                       (page_column p := vga_entry c color))\<rparr>
           in if Suc (page_column p) = 80
              then p\<lparr>page_row := Suc (page_row p), page_column := 0\<rparr>
              else p\<lparr>page_column := Suc (page_column p)\<rparr>)"

definition page_write :: "u8 \<Rightarrow> string \<Rightarrow> page \<Rightarrow> page" where
  "page_write color str p = fold (page_put color) str p"

text \<open>The number of rows that have left the screen.\<close>

definition scrolled_off :: "page \<Rightarrow> nat" where
  "scrolled_off p = page_row p - 24"

definition shows_page :: "page \<Rightarrow> 'z terminal_scheme \<Rightarrow> bool" where
  "shows_page p s \<longleftrightarrow>
     unat (terminal_row s) = page_row p - scrolled_off p
   \<and> unat (terminal_column s) = page_column p \<and> page_column p < 80
   \<and> (\<forall>r<25. \<forall>c<80. vga_buffer s (r * 80 + c) = cells p (r + scrolled_off p) c)
   \<and> (\<forall>r>page_row p. \<forall>c. cells p r c = blank s)"

lemma shows_page_cursor_ok: "shows_page p s \<Longrightarrow> cursor_ok s"
  by (auto simp: shows_page_def cursor_ok_def scrolled_off_def)

lemma shows_page_clear: "shows_page (blank_page (terminal_color s)) (clear_terminal s)"
  by (simp add: shows_page_def blank_page_def clear_terminal_eq scrolled_off_def)

lemma cell_inj:
  "c < 80 \<Longrightarrow> c' < 80 \<Longrightarrow> r * 80 + c = r' * 80 + c' \<longleftrightarrow> r = r' \<and> c = (c' :: nat)"
proof -
  assume "c < 80" "c' < 80"
  then have "(r * 80 + c) div 80 = r" "(r' * 80 + c') div 80 = r'"
    "(r * 80 + c) mod 80 = c" "(r' * 80 + c') mod 80 = c'" by simp_all
  then show ?thesis by metis
qed

lemma scrolled_cell:
  "r < 25 \<Longrightarrow> c < 80 \<Longrightarrow>
     scrolled b buf (r * 80 + c) = (if r = 24 then b else buf (Suc r * 80 + c))"
  by (auto simp: scrolled_def ac_simps)

text \<open>A new row on the page is a new row, or a scroll, on the screen.\<close>

lemma shows_page_new_row:
  assumes "shows_page p s"
  shows "shows_page (p\<lparr>page_row := Suc (page_row p), page_column := 0\<rparr>)
     (s\<lparr>vga_buffer := (if unat (terminal_row s) = 24
                        then scrolled (blank s) (vga_buffer s) else vga_buffer s),
        terminal_row := (if unat (terminal_row s) = 24 then 24 else terminal_row s + 1),
        terminal_column := 0\<rparr>)"
proof (cases "page_row p < 24")
  case True
  with assms have "unat (terminal_row s) = page_row p"
    by (simp add: shows_page_def scrolled_off_def)
  with True assms show ?thesis
    by (simp add: shows_page_def scrolled_off_def unat_inc_u8)
next
  case False
  then have off: "scrolled_off (p\<lparr>page_row := Suc (page_row p), page_column := 0\<rparr>) = Suc (scrolled_off p)"
    "page_row p = 24 + scrolled_off p"
    by (auto simp: scrolled_off_def)
  with assms have row: "unat (terminal_row s) = 24" by (simp add: shows_page_def)
  have "scrolled (blank s) (vga_buffer s) (r * 80 + c) = cells p (r + Suc (scrolled_off p)) c"
    if "r < 25" "c < 80" for r c
  proof (cases "r = 24")
    case True
    then have "page_row p < r + Suc (scrolled_off p)" using off by simp
    with assms have "cells p (r + Suc (scrolled_off p)) c = blank s"
      unfolding shows_page_def by blast
    with True show ?thesis using scrolled_cell [OF that] by metis
  next
    case False
    with assms that show ?thesis by (simp add: shows_page_def scrolled_cell del: mult_Suc)
  qed
  with assms row off show ?thesis by (auto simp: shows_page_def)
qed

lemma shows_page_cell:
  assumes "shows_page p s"
  shows "shows_page (p\<lparr>cells := (cells p)(page_row p := (cells p (page_row p))(page_column p := e))\<rparr>)
     (s\<lparr>vga_buffer := (vga_buffer s)(unat (terminal_row s) * 80 + unat (terminal_column s) := e)\<rparr>)"
  using assms by (auto simp: shows_page_def scrolled_off_def cell_inj)

lemma shows_page_column:
  assumes "shows_page p s" and "Suc (page_column p) < 80"
  shows "shows_page (p\<lparr>page_column := Suc (page_column p)\<rparr>)
     (s\<lparr>terminal_column := terminal_column s + 1\<rparr>)"
  using assms by (simp add: shows_page_def scrolled_off_def unat_inc_u8)

lemma shows_page_put:
  assumes "shows_page p s"
  shows "shows_page (page_put (terminal_color s) ch p) (terminal_put_char ch s)"
proof (cases "ch = LF")
  case True
  then show ?thesis
    using shows_page_new_row [OF assms]
    by (simp add: terminal_put_char_eq [OF shows_page_cursor_ok [OF assms]] page_put_def Let_def)
next
  case False
  let ?e = "vga_entry ch (terminal_color s)"
  let ?s = "s\<lparr>vga_buffer := (vga_buffer s)(unat (terminal_row s) * 80 + unat (terminal_column s) := ?e)\<rparr>"
  let ?p = "p\<lparr>cells := (cells p)(page_row p := (cells p (page_row p))(page_column p := ?e))\<rparr>"
  have cell: "shows_page ?p ?s" by (rule shows_page_cell [OF assms])
  have col: "unat (terminal_column s) = page_column p" "page_column p < 80"
    using assms by (simp_all add: shows_page_def)
  note put = terminal_put_char_eq [OF shows_page_cursor_ok [OF assms], of ch]
  show ?thesis
  proof (cases "Suc (page_column p) = 80")
    case True
    with False col show ?thesis
      using shows_page_new_row [OF cell] by (simp add: put page_put_def Let_def cong: if_cong)
  next
    case nowrap: False
    with col have "shows_page (?p\<lparr>page_column := Suc (page_column p)\<rparr>)
        (?s\<lparr>terminal_column := terminal_column s + 1\<rparr>)"
      using shows_page_column [OF cell] by simp
    with False nowrap col show ?thesis by (simp add: put page_put_def Let_def)
  qed
qed

lemma shows_page_write_string:
  "shows_page p s \<Longrightarrow> shows_page (page_write (terminal_color s) (cstr str) p) (write_string str s)"
proof (induction str s arbitrary: p rule: write_string.induct)
  case (1 s)
  then show ?case by (simp add: page_write_def)
next
  case (2 c cs s)
  have "terminal_color (terminal_put_char c s) = terminal_color s"
    by (rule same_but_console_color) (rule terminal_put_char_frame)
  with "2.IH" [OF _ shows_page_put [OF "2.prems"]] "2.prems" show ?case
    by (simp add: page_write_def)
qed

section \<open>Properties\<close>

definition terminal_boot :: "device_fn \<Rightarrow> terminal" where
  "terminal_boot d = ports.extend (ports_boot d)
     \<lparr>vga_buffer = (\<lambda>_. 0), terminal_row = 0, terminal_column = 0, terminal_color = 0x0F\<rparr>"

lemma terminal_boot_simps [simp]:
  "device (terminal_boot d) = d" "trace (terminal_boot d) = []" "terminal_color (terminal_boot d) = 0x0F"
  "terminal_row (terminal_boot d) = 0" "terminal_column (terminal_boot d) = 0"
  by (simp_all add: terminal_boot_def ports_boot_def ports.defs terminal.defs)

lemma cursor_ok_boot [simp]: "cursor_ok (terminal_boot d)"
  by (simp add: cursor_ok_def)

text \<open>
  C12 (the screen shows the end of the page). After clearing the terminal and
  writing a string, with all its line feeds, wraps and scrolls, every cell of
  the screen is the cell of the unbounded page that many rows further down,
  and the cursor is where the page ends.
\<close>

theorem write_string_shows_page:
  "shows_page (page_write (terminal_color s) (cstr str) (blank_page (terminal_color s)))
     (write_string str (clear_terminal s))"
proof -
  have "terminal_color (clear_terminal s) = terminal_color s" by (simp add: clear_terminal_eq)
  then show ?thesis
    using shows_page_write_string [OF shows_page_clear, of s str] by simp
qed

lemma put_char_beyond:
  assumes "cursor_ok s" and "2000 \<le> i"
  shows "vga_buffer (terminal_put_char c s) i = vga_buffer s i"
  using assms by (auto simp: terminal_put_char_eq Let_def scrolled_def cursor_ok_def)

text \<open>
  C30 (writes stay inside the text buffer). From a cursor on the screen,
  whatever string is written, the cursor stays on the screen and no cell
  outside the 80 by 25 text buffer is written.
\<close>

theorem write_string_in_bounds:
  assumes "cursor_ok s"
  shows "cursor_ok (write_string str s)
    \<and> (\<forall>i. 2000 \<le> i \<longrightarrow> vga_buffer (write_string str s) i = vga_buffer s i)"
  using assms
  by (induction str s rule: write_string.induct) (auto simp: cursor_ok_put_char put_char_beyond)

theorem write_string_in_bounds_witness:
  "cursor_ok (terminal_boot uart_ready)
   \<and> vga_buffer (write_string ''shogun'' (terminal_boot uart_ready)) 2000
       = vga_buffer (terminal_boot uart_ready) 2000"
  using write_string_in_bounds [OF cursor_ok_boot, of "''shogun''" uart_ready] by simp

text \<open>
  C23 (console output returns). On a UART that drains, \<^verbatim>\<open>output_string\<close> returns;
  the serial line has received the string with CR-LF line ends, the terminal is
  what \<^verbatim>\<open>write_string\<close> makes of it, and no other part of the kernel state has
  changed.
\<close>

theorem output_string_returns:
  assumes "uart_drains (device s)"
  shows "\<exists>t. output_string str s = Some t \<and> sent t = sent s @ map of_char (crlf (cstr str))
    \<and> same_but_serial (write_string str s) t \<and> same_but_console s t"
proof -
  have "uart_drains (device (write_string str s))"
    using assms write_string_frame(1) [of s str] by (simp add: same_but_console_device)
  then obtain t where "write_serial_string str (write_string str s) = Some t"
    "sent t = sent (write_string str s) @ map of_char (crlf (cstr str))"
    "same_but_serial (write_string str s) t"
    using write_serial_string_returns by blast
  then show ?thesis
    using write_string_frame [where s = s and str = str]
    by (auto simp: output_string_def sent_def intro: same_but_console_trans same_but_serial_console)
qed

theorem output_string_returns_witness:
  "\<exists>t. output_string ''ok'' (terminal_boot uart_ready) = Some t \<and> sent t = [111, 107]"
  using output_string_returns [of "terminal_boot uart_ready" "''ok''"] by (auto simp: sent_def)

text \<open>
  C40 (unsigned printing round trip). \<^verbatim>\<open>uint_to_string\<close> writes the decimal numeral
  of its argument: reading it back gives the number, and with its terminator it
  fits the 11-byte buffer of \<^verbatim>\<open>put_u32\<close>.
\<close>

theorem uint_to_string_roundtrip:
  "uint_to_string n = dec (unat n) \<and> dec_value (uint_to_string n) = unat n
   \<and> length (uint_to_string n) + 1 \<le> 11"
  using length_dec [of "unat n" 9] unat_u32_less [of n] by (simp add: uint_to_string_eq)

text \<open>
  Signed printing. Except for the least 32-bit integer, \<^verbatim>\<open>int_to_string\<close>
  writes the sign and the decimal numeral of its argument, within the 12-byte
  buffer of \<^verbatim>\<open>put_i32\<close>.
\<close>

theorem int_to_string_decimal:
  assumes "n \<noteq> 0x80000000"
  shows "int_to_string n =
      (if sint n < 0 then ''-'' @ dec (nat (- sint n)) else dec (nat (sint n)))
    \<and> length (int_to_string n) + 1 \<le> 12"
proof -
  have "nat (- sint n) < 10 ^ Suc 9" "nat (sint n) < 10 ^ Suc 9"
    using sint_u32_range [of n] by simp_all
  then show ?thesis
    using length_dec [of "nat (- sint n)" 9] length_dec [of "nat (sint n)" 9]
    by (simp add: int_to_string_eq [OF assms])
qed

theorem int_to_string_decimal_witness:
  "int_to_string (- 42) = ''-'' @ dec 42"
  using int_to_string_decimal [of "- 42"] by simp

text \<open>
  The least integer is misprinted. For \<^verbatim>\<open>INT32_MIN\<close> the negation
  overflows; with the machine's wrap-around every remainder is negative and the
  digits come out as characters below \<^verbatim>\<open>'0'\<close>.
\<close>

theorem int_to_string_min: "int_to_string 0x80000000 = ''-./,),(-*,(''"
  by code_simp

text \<open>
  Hexadecimal printing round trip. \<^verbatim>\<open>put_hex\<close> prints \<^verbatim>\<open>0x\<close> and exactly
  eight digits whose value is the number, and, terminator included, fills its
  11-byte buffer exactly.
\<close>

theorem put_hex_roundtrip:
  "prints (put_hex n) (hex_string n) \<and> take 2 (hex_string n) = ''0x''
   \<and> hex_value (drop 2 (hex_string n)) = unat n \<and> length (hex_string n) + 1 = 11"
  using prints_put_hex [of n] by (simp add: hex_string_def hex_value_hex_digits)

text \<open>
  64-bit printing. A number below \<open>2 ^ 32\<close> is printed as its numeral. For
  any other number \<^verbatim>\<open>put_u64\<close> prints the numeral of \<open>upper * 10 ^ 10 + lower\<close>,
  which is never the number \<open>upper * 2 ^ 32 + lower\<close> it was given.
\<close>

theorem put_u64_prints:
  fixes n :: u64
  defines "upper \<equiv> ucast (drop_bit 32 n) :: u32" and "lower \<equiv> ucast n :: u32"
  shows "prints (put_u64 n :: 'z terminal_scheme \<Rightarrow> 'z terminal_scheme option)
      (if upper = 0 then dec (unat lower) else dec (unat upper * 10 ^ 10 + unat lower))
    \<and> unat n = unat upper * 2 ^ 32 + unat lower
    \<and> (unat upper * 10 ^ 10 + unat lower = unat n \<longleftrightarrow> upper = 0)"
proof -
  have u: "unat upper = unat n div 2 ^ 32"
  proof -
    have "unat n < 2 ^ 64" using unsigned_less [of n] by simp
    then have "unat n div 2 ^ 32 < 2 ^ 32" by (simp add: less_mult_imp_div_less)
    then show ?thesis
      by (simp add: upper_def unsigned_ucast_eq drop_bit_eq_div unat_div take_bit_eq_mod)
  qed
  have l: "unat lower = unat n mod 2 ^ 32"
    by (simp add: lower_def unsigned_ucast_eq take_bit_eq_mod)
  have n: "unat n = unat upper * 2 ^ 32 + unat lower"
    unfolding u l by (rule div_mult_mod_eq [symmetric])
  then have "unat upper * 10 ^ 10 + unat lower = unat n \<longleftrightarrow> upper = 0"
    by (simp add: unat_eq_0 [symmetric])
  moreover have "prints (put_u64 n :: 'z terminal_scheme \<Rightarrow> 'z terminal_scheme option)
      (if upper = 0 then dec (unat lower) else dec (unat upper * 10 ^ 10 + unat lower))"
    unfolding upper_def lower_def by (rule prints_put_u64)
  ultimately show ?thesis using n by blast
qed

section \<open>Printing values of the state\<close>

text \<open>
  \<^verbatim>\<open>prints_from s f str\<close>: \<^const>\<open>prints\<close> for one state, for code that prints what
  it reads from the state; printing leaves everything it reads alone.
\<close>

definition prints_from ::
    "'z terminal_scheme \<Rightarrow> ('z terminal_scheme \<Rightarrow> 'z terminal_scheme option) \<Rightarrow> string \<Rightarrow> bool" where
  "prints_from s f str \<longleftrightarrow> (uart_drains (device s) \<longrightarrow>
     (\<exists>t. f s = Some t \<and> sent t = sent s @ map of_char (crlf str) \<and> same_but_console s t
        \<and> (cursor_ok s \<longrightarrow> cursor_ok t)))"

lemma prints_fromI: "prints f str \<Longrightarrow> prints_from s f str"
  unfolding prints_from_def prints_def by blast

lemma prints_from_seq:
  assumes "prints_from s f a" and "\<And>t. same_but_console s t \<Longrightarrow> prints_from t g b"
  shows "prints_from s (\<lambda>s. Option.bind (f s) g) (a @ b)"
  unfolding prints_from_def
proof
  assume "uart_drains (device s)"
  with assms(1) obtain t where t: "f s = Some t" "sent t = sent s @ map of_char (crlf a)"
    "same_but_console s t" "cursor_ok s \<Longrightarrow> cursor_ok t" unfolding prints_from_def by blast
  with \<open>uart_drains (device s)\<close> have "uart_drains (device t)" by (simp add: same_but_console_device)
  with assms(2) [OF t(3)] obtain u where "g t = Some u" "sent u = sent t @ map of_char (crlf b)"
    "same_but_console t u" "cursor_ok t \<Longrightarrow> cursor_ok u" unfolding prints_from_def by blast
  with t show "\<exists>u. Option.bind (f s) g = Some u \<and> sent u = sent s @ map of_char (crlf (a @ b))
      \<and> same_but_console s u \<and> (cursor_ok s \<longrightarrow> cursor_ok u)"
    by (auto simp: crlf_append intro: same_but_console_trans)
qed

lemma prints_from_cong:
  "f s = g s \<Longrightarrow> prints_from s g str \<Longrightarrow> prints_from s f str"
  by (simp add: prints_from_def)

lemma prints_from_Some: "prints_from s Some []"
  by (rule prints_fromI) (rule prints_Some)

lemma prints_from_literal: "NUL \<notin> set str \<Longrightarrow> prints_from s (output_string str) str"
  by (rule prints_fromI) (rule prints_literal)

lemma prints_from_string: "v s = str \<Longrightarrow> prints_from s (\<lambda>s. output_string (v s) s) (cstr str)"
  by (rule prints_from_cong [OF _ prints_fromI [OF prints_output_string]]) simp

lemma prints_from_put_hex: "v s = n \<Longrightarrow> prints_from s (\<lambda>s. put_hex (v s) s) (hex_string n)"
  by (rule prints_from_cong [OF _ prints_fromI [OF prints_put_hex]]) simp

lemma prints_from_put_u32: "v s = n \<Longrightarrow> prints_from s (\<lambda>s. put_u32 (v s) s) (dec (unat n))"
  by (rule prints_from_cong [OF _ prints_fromI [OF prints_put_u32]]) simp

lemma prints_from_if:
  assumes "b s = c" and "c \<Longrightarrow> prints_from s f x" and "\<not> c \<Longrightarrow> prints_from s g y"
  shows "prints_from s (\<lambda>s. if b s then f s else g s) (if c then x else y)"
  using assms by (simp add: prints_from_def)

lemmas prints_from_rules = prints_from_seq prints_from_if prints_from_literal prints_from_put_hex
  prints_from_put_u32 prints_from_Some

end
