(* ===== verification/Memory.thy ===== *)
theory Memory
  imports Terminal
begin

text \<open>
  The heap allocator (\<^verbatim>\<open>src/memory.c\<close>): a free list kept inside the free
  memory itself. The model works on byte memory at 32-bit addresses, so the
  headers, the wrap-around of the address arithmetic and the sharing of bytes
  between a used header and the free header later written over it are those of
  the C code on its 32-bit target, where \<^verbatim>\<open>sizeof(FreeSegment)\<close> is 8 and
  \<^verbatim>\<open>sizeof(UsedSegment)\<close> is 4.
\<close>

section \<open>State and operations\<close>

record mem = terminal +
  ram :: ram
  first_free :: ptr

abbreviation sizeof_FreeSegment :: u32 where
  "sizeof_FreeSegment \<equiv> 8"

abbreviation sizeof_UsedSegment :: u32 where
  "sizeof_UsedSegment \<equiv> 4"

abbreviation HEAP_SIZE :: u32 where
  "HEAP_SIZE \<equiv> 2 * 1024 * 1024"

text \<open>\<^verbatim>\<open>FreeSegment\<close> is \<^verbatim>\<open>size\<close> at offset 0 and \<^verbatim>\<open>next_segment\<close> at offset 4.\<close>

definition seg_size :: "ram \<Rightarrow> ptr \<Rightarrow> u32" where
  "seg_size m p = load32 m p"

definition seg_next :: "ram \<Rightarrow> ptr \<Rightarrow> ptr" where
  "seg_next m p = load32 m (p + 4)"

definition set_size :: "ptr \<Rightarrow> u32 \<Rightarrow> 'z mem_scheme \<Rightarrow> 'z mem_scheme" where
  "set_size p v s = s\<lparr>ram := store32 p v (ram s)\<rparr>"

definition set_next :: "ptr \<Rightarrow> ptr \<Rightarrow> 'z mem_scheme \<Rightarrow> 'z mem_scheme" where
  "set_next p v s = s\<lparr>ram := store32 (p + 4) v (ram s)\<rparr>"

definition align_up :: "u32 \<Rightarrow> u32 \<Rightarrow> u32" where
  "align_up value alignment = (value + alignment - 1) AND NOT (alignment - 1)"

text \<open>
  The search for the largest available region: multiboot memory map entries
  have \<^verbatim>\<open>size\<close> at offset 0, \<^verbatim>\<open>base_addr_low\<close> at 4, \<^verbatim>\<open>length_low\<close> at 12 and \<^verbatim>\<open>type\<close> at
  20; the entry after one is \<^verbatim>\<open>size + 4\<close> bytes on.
\<close>

partial_function (option) mmap_search ::
    "ram \<Rightarrow> ptr \<Rightarrow> ptr \<Rightarrow> u32 \<Rightarrow> u32 \<Rightarrow> (u32 \<times> u32) option" where
  "mmap_search m current limit largest_region_addr largest_region_size =
     (if current < limit then
        (if load32 m (current + 20) = 1 \<and> load32 m (current + 12) > largest_region_size
            \<and> load32 m (current + 12) \<ge> HEAP_SIZE
         then mmap_search m (current + (load32 m current + 4)) limit
                (load32 m (current + 4)) (load32 m (current + 12))
         else mmap_search m (current + (load32 m current + 4)) limit
                largest_region_addr largest_region_size)
      else Some (largest_region_addr, largest_region_size))"

text \<open>
  \<^verbatim>\<open>kernel_end\<close> is the linker's symbol, \<^verbatim>\<open>esp\<close> the stack pointer \<^verbatim>\<open>get_esp\<close> reads;
  in \<^verbatim>\<open>multiboot_info\<close> the flags are at offset 0, \<^verbatim>\<open>mmap_length\<close> at 44 and
  \<^verbatim>\<open>mmap_addr\<close> at 48.
\<close>

definition init_allocator ::
    "ptr \<Rightarrow> ptr \<Rightarrow> ptr \<Rightarrow> 'z mem_scheme \<Rightarrow> 'z mem_scheme option" where
  "init_allocator kernel_end esp multiboot_info_ptr s =
     (if load32 (ram s) multiboot_info_ptr AND (push_bit 6 1) = 0 then Some s
      else
        let mmap_addr = load32 (ram s) (multiboot_info_ptr + 48);
            mmap_length = load32 (ram s) (multiboot_info_ptr + 44) in
        do { (largest_region_addr, largest_region_size) \<leftarrow>
               mmap_search (ram s) mmap_addr (mmap_addr + mmap_length) 0 0;
             if largest_region_size = 0 then Some s
             else
               let reserved_end = (if kernel_end > esp then kernel_end else esp) in
               if largest_region_addr \<le> reserved_end
                  \<and> largest_region_addr + largest_region_size > reserved_end
               then let heap_start = (reserved_end + 7) AND NOT 7;
                        s = set_size heap_start (largest_region_size
                              - (heap_start - largest_region_addr) - sizeof_FreeSegment) s;
                        s = set_next heap_start 0 s
                    in Some (s\<lparr>first_free := heap_start\<rparr>)
               else Some s })"

text \<open>
  The first-fit loop. A block is cut off the top of a segment; the write of the
  used header comes before the segment's size is read again, as in the C code.
\<close>

definition take_block :: "ptr \<Rightarrow> ptr \<Rightarrow> ptr \<Rightarrow> u32 \<Rightarrow> 'z mem_scheme \<Rightarrow> 'z mem_scheme" where
  "take_block prev current header_ptr full_alloc_size s =
     (let s = set_size header_ptr full_alloc_size s;
          remaining_size = seg_size (ram s) current - full_alloc_size
      in if remaining_size = 0 then
           if prev = 0 then s\<lparr>first_free := seg_next (ram s) current\<rparr>
           else set_next prev (seg_next (ram s) current) s
         else if remaining_size < sizeof_FreeSegment then
           set_size current (seg_size (ram s) current - full_alloc_size) s
         else set_size current (seg_size (ram s) current - full_alloc_size) s)"

partial_function (option) allocate_loop ::
    "u32 \<Rightarrow> u32 \<Rightarrow> ptr \<Rightarrow> ptr \<Rightarrow> 'z mem_scheme \<Rightarrow> (ptr \<times> 'z mem_scheme) option" where
  "allocate_loop sz alignment prev current s =
     (if current \<noteq> 0 then
        let segment_end = current + sizeof_FreeSegment + seg_size (ram s) current;
            aligned_data_ptr = (segment_end - sz) AND NOT (alignment - 1);
            header_ptr = aligned_data_ptr - sizeof_UsedSegment;
            data_start = current + sizeof_FreeSegment;
            full_alloc_size = segment_end - header_ptr
        in if header_ptr \<ge> data_start \<and> full_alloc_size \<le> seg_size (ram s) current
           then Some (aligned_data_ptr, take_block prev current header_ptr full_alloc_size s)
           else allocate_loop sz alignment current (seg_next (ram s) current) s
      else Some (0, s))"

definition allocate :: "u32 \<Rightarrow> u32 \<Rightarrow> 'z mem_scheme \<Rightarrow> (ptr \<times> 'z mem_scheme) option" where
  "allocate sz alignment s =
     (if sz = 0 then Some (0, s)
      else allocate_loop sz alignment 0 (first_free s) s)"

definition segments_adjacent :: "ptr \<Rightarrow> ptr \<Rightarrow> 'z mem_scheme \<Rightarrow> bool" where
  "segments_adjacent p q s = (q = p + sizeof_FreeSegment + seg_size (ram s) p)"

definition merge_adjacent :: "ptr \<Rightarrow> ptr \<Rightarrow> 'z mem_scheme \<Rightarrow> ptr \<times> 'z mem_scheme" where
  "merge_adjacent p q s =
     (if segments_adjacent p q s
      then let s = set_size p (q + sizeof_FreeSegment + seg_size (ram s) q - (p + sizeof_FreeSegment)) s;
               s = set_next p (seg_next (ram s) q) s
           in (p, s)
      else (p, s))"

partial_function (option) free_list_walk ::
    "ram \<Rightarrow> ptr \<Rightarrow> ptr \<Rightarrow> ptr \<Rightarrow> (ptr \<times> ptr) option" where
  "free_list_walk m freed_block prev current =
     (if current \<noteq> 0 \<and> current < freed_block
      then free_list_walk m freed_block current (seg_next m current)
      else Some (prev, current))"

text \<open>
  One of the two coalescing steps of \<^verbatim>\<open>deallocate\<close>: \<open>p\<close> takes over \<open>q\<close> when
  \<open>q\<close> starts where \<open>p\<close> ends.
\<close>

definition absorb :: "ptr \<Rightarrow> ptr \<Rightarrow> 'z mem_scheme \<Rightarrow> 'z mem_scheme" where
  "absorb p q s =
     (if segments_adjacent p q s
      then let s = set_size p (seg_size (ram s) p + sizeof_FreeSegment + seg_size (ram s) q) s
           in set_next p (seg_next (ram s) q) s
      else s)"

definition deallocate :: "ptr \<Rightarrow> 'z mem_scheme \<Rightarrow> 'z mem_scheme option" where
  "deallocate ptr s =
     (if ptr = 0 then Some s
      else
        let used_header = ptr - sizeof_UsedSegment;
            total_size = load32 (ram s) used_header;
            freed_block = used_header;
            s = set_size freed_block (total_size - sizeof_UsedSegment) s;
            s = set_next freed_block 0 s in
        do { (prev, current) \<leftarrow> free_list_walk (ram s) freed_block 0 (first_free s);
             let s = set_next freed_block current s;
             let s = (if prev = 0 then s\<lparr>first_free := freed_block\<rparr>
                      else set_next prev freed_block s);
             let s = (if current \<noteq> 0 then absorb freed_block current s else s);
             Some (if prev \<noteq> 0 then absorb prev freed_block s else s) })"

definition malloc :: "u32 \<Rightarrow> 'z mem_scheme \<Rightarrow> (ptr \<times> 'z mem_scheme) option" where
  "malloc sz s = allocate sz 8 s"

definition free :: "ptr \<Rightarrow> 'z mem_scheme \<Rightarrow> 'z mem_scheme option" where
  "free ptr s = deallocate ptr s"

text \<open>
  The string literals of the debug printer contain a backslash and an \<^verbatim>\<open>n\<close>, not a
  line feed: they are written with a doubled backslash in the source.
\<close>

definition print_free_segment :: "ptr \<Rightarrow> 'z mem_scheme \<Rightarrow> 'z mem_scheme option" where
  "print_free_segment current s =
     do { s \<leftarrow> put_hex current s;
          s \<leftarrow> output_string '': '' s;
          s \<leftarrow> put_hex (current + sizeof_FreeSegment + seg_size (ram s) current) s;
          s \<leftarrow> output_string '', FreeSegment { size: '' s;
          s \<leftarrow> put_u32 (seg_size (ram s) current) s;
          s \<leftarrow> output_string '', next_segment: '' s;
          s \<leftarrow> (if seg_next (ram s) current \<noteq> 0 then put_hex (seg_next (ram s) current) s
               else output_string ''0x0'' s);
          output_string ('' }'' @ [CHR 0x5C, CHR ''n'']) s }"

partial_function (option) print_free_segments ::
    "ptr \<Rightarrow> 'z mem_scheme \<Rightarrow> 'z mem_scheme option" where
  "print_free_segments current s =
     (if current \<noteq> 0
      then do { s \<leftarrow> print_free_segment current s;
                print_free_segments (seg_next (ram s) current) s }
      else Some s)"

definition debug_print_free_list :: "'z mem_scheme \<Rightarrow> 'z mem_scheme option" where
  "debug_print_free_list s =
     (if first_free s = 0
      then output_string (''Free list is empty'' @ [CHR 0x5C, CHR ''n'']) s
      else print_free_segments (first_free s) s)"

section \<open>The free list as a list of segments\<close>

text \<open>
  \<^verbatim>\<open>path m p segs q\<close>: following the \<^verbatim>\<open>next\<close> pointers from \<open>p\<close> leads through
  the segments \<open>segs\<close>, each an address and a size, to \<open>q\<close>. The free list is a
  path from \<^verbatim>\<open>first_free\<close> to \<^verbatim>\<open>NULL\<close>.
\<close>

type_synonym seg = "nat \<times> nat"

fun path :: "ram \<Rightarrow> ptr \<Rightarrow> seg list \<Rightarrow> ptr \<Rightarrow> bool" where
  "path m p [] q \<longleftrightarrow> p = q"
| "path m p ((a, n) # segs) q \<longleftrightarrow>
     p \<noteq> 0 \<and> unat p = a \<and> unat (seg_size m p) = n \<and> path m (seg_next m p) segs q"

definition free_list :: "'z mem_scheme \<Rightarrow> seg list \<Rightarrow> bool" where
  "free_list s segs \<longleftrightarrow> path (ram s) (first_free s) segs 0"

text \<open>The segments are in address order and do not overlap or wrap.\<close>

fun segs_ok :: "nat \<Rightarrow> seg list \<Rightarrow> bool" where
  "segs_ok lo [] = True"
| "segs_ok lo ((a, n) # segs) = (lo \<le> a \<and> a + 8 + n < 2 ^ 32 \<and> segs_ok (a + 8 + n) segs)"

text \<open>The bytes of a list of segments, headers included.\<close>

definition seg_bytes :: "seg list \<Rightarrow> nat set" where
  "seg_bytes segs = (\<Union>(a, n) \<in> set segs. {a..<a + 8 + n})"

lemma seg_bytes_simps [simp]:
  "seg_bytes [] = {}" "seg_bytes ((a, n) # segs) = {a..<a + 8 + n} \<union> seg_bytes segs"
  "seg_bytes (xs @ ys) = seg_bytes xs \<union> seg_bytes ys"
  by (auto simp: seg_bytes_def)

lemma path_append: "path m p (xs @ ys) q \<longleftrightarrow> (\<exists>r. path m p xs r \<and> path m r ys q)"
  by (induction xs arbitrary: p) auto

lemma segs_ok_append:
  "segs_ok lo (xs @ ys) \<longleftrightarrow>
     segs_ok lo xs \<and> segs_ok (if xs = [] then lo else fst (last xs) + 8 + snd (last xs)) ys"
  by (induction lo xs rule: segs_ok.induct) auto

lemma segs_ok_mono: "segs_ok lo segs \<Longrightarrow> lo' \<le> lo \<Longrightarrow> segs_ok lo' segs"
  by (cases segs) auto

lemma segs_ok_above: "segs_ok lo segs \<Longrightarrow> (b, k) \<in> set segs \<Longrightarrow> lo \<le> b \<and> b + 8 + k < 2 ^ 32"
proof (induction lo segs rule: segs_ok.induct)
  case (2 lo a n segs)
  then show ?case by fastforce
qed simp

lemma segs_ok_bytes: "segs_ok lo segs \<Longrightarrow> x \<in> seg_bytes segs \<Longrightarrow> lo \<le> x \<and> x < 2 ^ 32"
  using segs_ok_above by (fastforce simp: seg_bytes_def)

lemma segs_ok_before:
  "segs_ok lo (xs @ (a, n) # ys) \<Longrightarrow> (b, k) \<in> set xs \<Longrightarrow> b + 8 + k \<le> a"
proof (induction xs arbitrary: lo)
  case (Cons x xs)
  obtain c l where x: "x = (c, l)" by fastforce
  show ?case
  proof (cases "(b, k) = x")
    case True
    with Cons.prems(1) x have "segs_ok (b + 8 + k) (xs @ (a, n) # ys)" by simp
    from segs_ok_above [OF this, of a n] show ?thesis by simp
  next
    case False
    with Cons x show ?thesis by auto
  qed
qed simp

lemma segs_ok_after:
  assumes "segs_ok lo (xs @ (a, n) # ys)" and "(b, k) \<in> set ys"
  shows "a + 8 + n \<le> b"
  using assms segs_ok_above [of "a + 8 + n" ys b k] by (auto simp: segs_ok_append)

text \<open>
  A store that misses every header of a path leaves the path alone. A header
  is the eight bytes at the segment's address.
\<close>

definition misses :: "nat \<Rightarrow> seg list \<Rightarrow> bool" where
  "misses x segs \<longleftrightarrow> x + 4 \<le> 2 ^ 32 \<and> (\<forall>(b, k) \<in> set segs. (x + 4 \<le> b \<or> b + 8 \<le> x) \<and> b + 8 \<le> 2 ^ 32)"

lemma misses_Cons [simp]:
  "misses x ((b, k) # segs) \<longleftrightarrow> (x + 4 \<le> b \<or> b + 8 \<le> x) \<and> b + 8 \<le> 2 ^ 32 \<and> misses x segs"
  by (auto simp: misses_def)

lemma misses_append [simp]: "misses x (xs @ ys) \<longleftrightarrow> misses x xs \<and> misses x ys"
  by (auto simp: misses_def)

lemma unat_plus4: "unat p + 8 \<le> 2 ^ 32 \<Longrightarrow> unat (p + 4 :: ptr) = unat p + 4"
  by (simp add: unat_add_no_wrap)

lemma header_apart:
  assumes "unat x + 4 \<le> unat p \<or> unat p + 8 \<le> unat x" and "unat p + 8 \<le> 2 ^ 32" and "unat x + 4 \<le> 2 ^ 32"
  shows "apart4 p x" and "apart4 (p + 4) x"
  using assms apart4I [of x p] apart4I [of p x] apart4I [of x "p + 4"] apart4I [of "p + 4" x]
  by (auto simp: unat_plus4)

lemma path_store32:
  "misses (unat x) segs \<Longrightarrow> path (store32 x v m) p segs q = path m p segs q"
proof (induction m p segs q rule: path.induct)
  case (2 m p a n segs q)
  show ?case
  proof (cases "unat p = a")
    case True
    with "2.prems" have "apart4 p x" "apart4 (p + 4) x"
      using header_apart [of x p] by (auto simp: misses_def)
    with "2" True show ?thesis by (simp add: seg_size_def seg_next_def)
  next
    case False
    then show ?thesis by simp
  qed
qed simp

section \<open>First fit\<close>

text \<open>
  The abstract allocator works on the list of segments, with unbounded
  numbers: the data of a block starts at the highest multiple of the alignment
  that leaves \<open>size\<close> bytes below the end of the segment, its header four
  bytes below that, and the segment keeps what is left.
\<close>

definition block_data :: "nat \<Rightarrow> nat \<Rightarrow> seg \<Rightarrow> nat" where
  "block_data sz al sg = (case sg of (a, n) \<Rightarrow>
     let e = a + 8 + n in (e - sz) - (e - sz) mod al)"

definition block_fits :: "nat \<Rightarrow> nat \<Rightarrow> seg \<Rightarrow> bool" where
  "block_fits sz al sg = (case sg of (a, n) \<Rightarrow> sz \<le> a + 8 + n \<and> a + 12 \<le> block_data sz al sg)"

definition shrink :: "nat \<Rightarrow> seg \<Rightarrow> seg list" where
  "shrink d sg = (case sg of (a, n) \<Rightarrow> if d = a + 12 then [] else [(a, d - (a + 12))])"

fun first_fit :: "nat \<Rightarrow> nat \<Rightarrow> seg list \<Rightarrow> (nat \<times> nat \<times> seg list) option" where
  "first_fit sz al [] = None"
| "first_fit sz al ((a, n) # segs) =
     (if block_fits sz al (a, n)
      then let d = block_data sz al (a, n) in Some (d, a + 8 + n - (d - 4), shrink d (a, n) @ segs)
      else map_option (\<lambda>(d, full, r). (d, full, (a, n) # r)) (first_fit sz al segs))"

text \<open>The request sizes for which the 32-bit arithmetic of the loop is exact.\<close>

definition request_ok :: "u32 \<Rightarrow> u32 \<Rightarrow> bool" where
  "request_ok sz al \<longleftrightarrow> is_pow2 al \<and> unat sz + unat al + 4 \<le> 2 ^ 32"

text \<open>
  The addresses one step of the loop computes for the segment at \<open>cur\<close>: its end \<open>e\<close>
  and the data \<open>d\<close> of a block of \<open>sz\<close> bytes at its top. When the block does not fit,
  the address of its header may wrap below zero; the test still fails then.
\<close>

lemma top_block_data:
  fixes cur sz al csize :: u32
  assumes req: "request_ok sz al" and seg: "unat cur + 8 + unat csize < 2 ^ 32" and fits: "unat sz \<le> unat cur + 8 + unat csize"
  defines "e \<equiv> cur + 8 + csize"
  defines "d \<equiv> (e - sz) AND NOT (al - 1)" and "D \<equiv> block_data (unat sz) (unat al) (unat cur, unat csize)"
  shows "unat (e - sz) = unat cur + 8 + unat csize - unat sz" "unat d = D" "D \<le> unat cur + 8 + unat csize"
    "unat e = unat cur + 8 + unat csize"
proof -
  from req have p2: "is_pow2 al" by (simp add: request_ok_def)
  show e: "unat e = unat cur + 8 + unat csize" using seg by (simp add: e_def unat_add_no_wrap)
  then show es: "unat (e - sz) = unat cur + 8 + unat csize - unat sz" using fits by (simp add: unat_sub_no_wrap)
  show "unat d = D" by (simp add: d_def D_def block_data_def Let_def unat_align_down [OF p2] es)
  show "D \<le> unat cur + 8 + unat csize" by (simp add: D_def block_data_def Let_def)
qed

lemma top_block_header:
  fixes cur sz al csize :: u32
  assumes req: "request_ok sz al" and seg: "unat cur + 8 + unat csize < 2 ^ 32" and fits: "unat sz \<le> unat cur + 8 + unat csize"
  defines "e \<equiv> cur + 8 + csize"
  defines "d \<equiv> (e - sz) AND NOT (al - 1)" and "D \<equiv> block_data (unat sz) (unat al) (unat cur, unat csize)"
  assumes D: "4 \<le> D"
  shows "unat (d - 4) = D - 4" "unat (e - (d - 4)) = unat cur + 8 + unat csize - (D - 4)"
proof -
  note top = top_block_data [OF req seg fits, folded e_def, folded d_def D_def]
  show h: "unat (d - 4) = D - 4" using D by (simp add: unat_sub_no_wrap top(2))
  have "unat (d - 4) \<le> unat e" using h top(3,4) by simp
  then show "unat (e - (d - 4)) = unat cur + 8 + unat csize - (D - 4)" by (simp add: unat_sub_no_wrap h top(4))
qed

lemma top_block_below_zero:
  fixes cur sz al csize :: u32
  assumes req: "request_ok sz al" and seg: "unat cur + 8 + unat csize < 2 ^ 32" and fits: "unat sz \<le> unat cur + 8 + unat csize"
  defines "e \<equiv> cur + 8 + csize"
  defines "d \<equiv> (e - sz) AND NOT (al - 1)" and "D \<equiv> block_data (unat sz) (unat al) (unat cur, unat csize)"
  assumes D: "D < 4"
  shows "unat csize < unat (e - (d - 4))"
proof -
  note top = top_block_data [OF req seg fits, folded e_def, folded d_def D_def]
  have "unat (e - sz) < unat d + unat al" unfolding d_def by (rule align_down_bounds) (use req in \<open>simp add: request_ok_def\<close>)
  moreover have "unat sz + unat al + 4 \<le> 2 ^ 32" using req by (simp add: request_ok_def)
  ultimately have "unat cur + 8 + unat csize + 4 - D < 2 ^ 32" using top(1,2) D fits seg by linarith
  moreover have d4: "unat (4 - d) = 4 - D" using D by (simp add: unat_sub_no_wrap top(2))
  ultimately have "unat (e + (4 - d)) = unat cur + 8 + unat csize + (4 - D)"
    using unat_add_no_wrap [of e "4 - d"] top(4) D by (simp only: d4) simp
  moreover have "e - (d - 4) = e + (4 - d)" by simp
  ultimately have "unat (e - (d - 4)) = unat cur + 8 + unat csize + (4 - D)" by (simp only:)
  with D show ?thesis by linarith
qed

lemma top_block_too_large:
  fixes cur sz al csize :: u32
  assumes req: "request_ok sz al" and seg: "unat cur + 8 + unat csize < 2 ^ 32" and big: "unat cur + 8 + unat csize < unat sz"
  defines "e \<equiv> cur + 8 + csize"
  defines "d \<equiv> (e - sz) AND NOT (al - 1)"
  shows "unat csize < unat (e - (d - 4))"
proof -
  let ?top = "unat cur + 8 + unat csize"
  from req have p2: "is_pow2 al" and bound: "unat sz + unat al + 4 \<le> 2 ^ 32" by (simp_all add: request_ok_def)
  have e: "unat e = ?top" using seg by (simp add: e_def unat_add_no_wrap)
  then have es: "unat (e - sz) = 2 ^ 32 + ?top - unat sz" using big by (simp add: unat_sub_if')
  note ad = align_down_bounds [OF p2, of "e - sz", folded d_def]
  have lo: "?top + 5 \<le> unat d" and hi: "unat d \<le> 2 ^ 32 + ?top - unat sz" using ad es bound big by linarith+
  then have h: "unat (d - 4) = unat d - 4" by (simp add: unat_sub_no_wrap)
  have "unat (e - (d - 4)) = 2 ^ 32 + ?top - (unat d - 4)" using lo by (simp add: unat_sub_if' e h)
  with hi lo big show ?thesis by linarith
qed

lemma step_arith:
  fixes cur sz al csize :: u32
  assumes req: "request_ok sz al" and seg: "unat cur + 8 + unat csize < 2 ^ 32"
  defines "e \<equiv> cur + 8 + csize"
  defines "d \<equiv> (e - sz) AND NOT (al - 1)"
  defines "D \<equiv> block_data (unat sz) (unat al) (unat cur, unat csize)"
  shows "(d - 4 \<ge> cur + 8 \<and> e - (d - 4) \<le> csize) \<longleftrightarrow>
           block_fits (unat sz) (unat al) (unat cur, unat csize)" (is ?fits)
    and "block_fits (unat sz) (unat al) (unat cur, unat csize) \<Longrightarrow>
           unat d = D \<and> unat (d - 4) = D - 4 \<and> unat (e - (d - 4)) = unat cur + 8 + unat csize - (D - 4)"
      (is "_ \<Longrightarrow> ?vals")
proof -
  have c8: "unat (cur + 8) = unat cur + 8" using seg by (simp add: unat_add_no_wrap)
  show ?fits
  proof (cases "unat sz \<le> unat cur + 8 + unat csize")
    case sz: True
    show ?thesis
    proof (cases "4 \<le> D")
      case True
      then show ?thesis
        using top_block_header [OF req seg sz, folded e_def, folded d_def D_def] top_block_data(3) [OF req seg sz, folded D_def] sz
        unfolding block_fits_def D_def [symmetric] word_le_nat_alt c8 by (simp add: D_def [symmetric]) linarith
    next
      case False
      then show ?thesis
        using top_block_below_zero [OF req seg sz, folded e_def, folded d_def D_def]
        by (simp add: block_fits_def D_def [symmetric] word_le_nat_alt)
    qed
  next
    case False
    then show ?thesis
      using top_block_too_large [OF req seg, folded e_def, folded d_def] by (simp add: block_fits_def word_le_nat_alt)
  qed
  show ?vals if "block_fits (unat sz) (unat al) (unat cur, unat csize)"
  proof -
    from that have sz: "unat sz \<le> unat cur + 8 + unat csize" and D: "4 \<le> D" by (simp_all add: block_fits_def D_def)
    show ?thesis
      using top_block_data(2) [OF req seg sz, folded e_def, folded d_def D_def]
        top_block_header [OF req seg sz, folded e_def, folded d_def D_def, OF D] by simp
  qed
qed

text \<open>Cutting a block off the top of a segment: the effect on the free list.\<close>

lemma block_data_bounds:
  assumes "block_fits sz al (a, n)"
  shows "a + 12 \<le> block_data sz al (a, n)" "block_data sz al (a, n) + sz \<le> a + 8 + n"
  using assms by (auto simp: block_fits_def block_data_def Let_def)

lemma path_set_next:
  assumes "path m p (xs @ [(b, k)]) q" and "unat w = b" and "b + 8 \<le> 2 ^ 32" and "misses (b + 4) xs"
  shows "path (store32 (w + 4) v m) p (xs @ [(b, k)]) v"
proof -
  from assms(1) obtain r where r: "path m p xs r" "r \<noteq> 0" "unat r = b" "unat (seg_size m r) = k"
    by (auto simp: path_append)
  with assms(2) have "r = w" by (metis word_unat_eq_iff)
  with r assms show ?thesis
    using apart4I [of w "w + 4"]
    by (auto simp: path_append path_store32 seg_size_def seg_next_def unat_plus4 intro!: exI [of _ w])
qed

text \<open>
  The state of the list while a block is cut off the segment \<open>(a, n)\<close> at \<open>cur\<close>, and
  what writing the header of the block leaves alone.
\<close>

definition cutting :: "'z mem_scheme \<Rightarrow> seg list \<Rightarrow> nat \<Rightarrow> nat \<Rightarrow> seg list \<Rightarrow> ptr \<Rightarrow> ptr \<Rightarrow> ptr \<Rightarrow> u32 \<Rightarrow> nat \<Rightarrow> bool" where
  "cutting s pre a n post prev cur h full D \<longleftrightarrow> path (ram s) (first_free s) pre cur \<and> path (ram s) cur ((a, n) # post) 0
     \<and> segs_ok 1 (pre @ (a, n) # post) \<and> prev = (if pre = [] then 0 else of_nat (fst (last pre)))
     \<and> unat h = D - 4 \<and> a + 12 \<le> D \<and> D \<le> a + 8 + n \<and> unat full = a + 8 + n - (D - 4)"

lemma cutting_facts:
  assumes c: "cutting s pre a n post prev cur h full D"
  shows "cur \<noteq> 0" "unat cur = a" "a + 8 + n < 2 ^ 32"
    and "(b, k) \<in> set pre \<Longrightarrow> b + 8 + k \<le> a" and "(b, k) \<in> set post \<Longrightarrow> a + 8 + n \<le> b \<and> b + 8 + k < 2 ^ 32"
    and "apart4 cur h" "apart4 (cur + 4) h" "apart4 h cur"
proof -
  from c have ok: "segs_ok 1 (pre @ (a, n) # post)" and cur: "unat cur = a" and h: "unat h = D - 4" "a + 12 \<le> D" "D \<le> a + 8 + n"
    by (auto simp: cutting_def)
  show "cur \<noteq> 0" "unat cur = a" using c by (auto simp: cutting_def)
  show top: "a + 8 + n < 2 ^ 32" using segs_ok_above [OF ok, of a n] by simp
  show "b + 8 + k \<le> a" if "(b, k) \<in> set pre" using segs_ok_before [OF ok that] .
  show "a + 8 + n \<le> b \<and> b + 8 + k < 2 ^ 32" if "(b, k) \<in> set post"
    using segs_ok_after [OF ok that] segs_ok_above [OF ok, of b k] that by simp
  show "apart4 cur h" "apart4 (cur + 4) h" "apart4 h cur"
    using header_apart [of h cur] cur h top apart4_sym by auto
qed

lemma cutting_header:
  assumes c: "cutting s pre a n post prev cur h full D"
  defines "m \<equiv> store32 h full (ram s)"
  shows "seg_size m cur = seg_size (ram s) cur" "seg_next m cur = seg_next (ram s) cur"
    "path m (first_free s) pre cur" "path m (seg_next (ram s) cur) post 0"
    "unat (seg_size (ram s) cur - full) = D - (a + 12)" "seg_size (ram s) cur - full = 0 \<longleftrightarrow> D = a + 12"
proof -
  note f = cutting_facts [OF c]
  from c have p: "path (ram s) (first_free s) pre cur" "path (ram s) (seg_next (ram s) cur) post 0" "unat (seg_size (ram s) cur) = n"
    and h: "unat h = D - 4" "a + 12 \<le> D" "D \<le> a + 8 + n" and full: "unat full = a + 8 + n - (D - 4)" by (auto simp: cutting_def)
  have miss: "misses (unat h) pre" "misses (unat h) post"
    using f(4,5) h f(3) by (fastforce simp: misses_def)+
  show "seg_size m cur = seg_size (ram s) cur" "seg_next m cur = seg_next (ram s) cur"
    "path m (first_free s) pre cur" "path m (seg_next (ram s) cur) post 0"
    using f(6,7) miss p by (simp_all add: m_def seg_size_def seg_next_def path_store32)
  show r: "unat (seg_size (ram s) cur - full) = D - (a + 12)" using p(3) full h by (simp add: unat_sub_no_wrap)
  show "seg_size (ram s) cur - full = 0 \<longleftrightarrow> D = a + 12" using r h by (auto simp: unat_eq_0 [symmetric])
qed

text \<open>The segment keeps a part; or it is used up, and its predecessor or the head of the list skips it.\<close>

lemma take_block_part:
  assumes c: "cutting s pre a n post prev cur h full D" and D: "D \<noteq> a + 12"
  shows "free_list (take_block prev cur h full s) (pre @ shrink D (a, n) @ post)
     \<and> load32 (ram (take_block prev cur h full s)) h = full"
proof -
  note f = cutting_facts [OF c] and m = cutting_header [OF c]
  have miss: "misses (unat cur) pre" "misses (unat cur) post"
    using f(4,5) f(2,3) by (fastforce simp: misses_def)+
  have "path (store32 cur (seg_size (ram s) cur - full) (store32 h full (ram s))) (first_free s) (pre @ (a, D - (a + 12)) # post) 0"
    using m miss f(1-3,6-8) apart4I [of cur "cur + 4"]
    by (auto simp: path_append path_store32 seg_size_def seg_next_def unat_plus4 simp del: path.simps(2))
      (auto simp: path_store32 seg_size_def seg_next_def unat_plus4 intro!: exI [of _ cur])
  with D m f(6-8) show ?thesis
    by (simp add: take_block_def set_size_def free_list_def shrink_def Let_def)
qed

lemma take_block_inner:
  assumes c: "cutting s pre a n post prev cur h full D" and D: "D = a + 12" and pre: "pre = pre' @ [(b, k)]"
  shows "free_list (take_block prev cur h full s) (pre @ shrink D (a, n) @ post)
     \<and> load32 (ram (take_block prev cur h full s)) h = full"
proof -
  note f = cutting_facts [OF c] and m = cutting_header [OF c]
  from c have ok: "segs_ok 1 (pre @ (a, n) # post)" and prev: "prev = of_nat b" and h: "unat h = D - 4" "D \<le> a + 8 + n"
    using pre by (auto simp: cutting_def)
  have w: "unat prev = b" "b + 8 + k \<le> a" using prev f(3) f(4) [of b k] pre by (simp_all add: unat_of_nat)
  have "1 \<le> b" using segs_ok_above [OF ok, of b k] pre by simp
  then have nz: "prev \<noteq> 0" using w by auto
  have "path (store32 (prev + 4) (seg_next (ram s) cur) (store32 h full (ram s))) (first_free s) pre (seg_next (ram s) cur)"
    unfolding pre
  proof (rule path_set_next)
    show "path (store32 h full (ram s)) (first_free s) (pre' @ [(b, k)]) cur" using m(3) pre by simp
    show "misses (b + 4) pre'"
      using ok w f(3) segs_ok_before [of 1 pre' b k "(a, n) # post"] by (fastforce simp: misses_def pre)
  qed (use w f(3) in simp_all)
  moreover have "misses (unat (prev + 4)) post" using f(5) w f(3) by (fastforce simp: misses_def unat_plus4)
  moreover have "apart4 h (prev + 4)" using apart4I [of "prev + 4" h] w h f(3) D by (simp add: unat_plus4)
  ultimately show ?thesis
    using D m w nz by (auto simp: take_block_def set_size_def set_next_def free_list_def shrink_def Let_def path_append path_store32)
qed

lemma take_block_path:
  assumes c: "cutting s pre a n post prev cur h full D"
  shows "free_list (take_block prev cur h full s) (pre @ shrink D (a, n) @ post)
     \<and> load32 (ram (take_block prev cur h full s)) h = full"
proof (cases "D = a + 12")
  case True
  show ?thesis
  proof (cases "pre = []")
    case empty: True
    then have "prev = 0" using c by (simp add: cutting_def)
    with True empty cutting_header [OF c] show ?thesis
      by (simp add: take_block_def set_size_def free_list_def shrink_def Let_def)
  next
    case False
    then obtain pre' b k where "pre = pre' @ [(b, k)]" by (metis rev_exhaust surj_pair)
    with take_block_inner [OF c True] show ?thesis by blast
  qed
qed (rule take_block_part [OF c])

lemma unat_eq_of_nat: "unat (x :: ptr) = n \<Longrightarrow> x = of_nat n"
  by auto

text \<open>The allocator touches nothing but memory and the head of the free list.\<close>

definition same_but_heap :: "'z mem_scheme \<Rightarrow> 'z mem_scheme \<Rightarrow> bool" where
  "same_but_heap s t \<longleftrightarrow> t = s\<lparr>ram := ram t, first_free := first_free t\<rparr>"

lemma same_but_heap_refl [simp]: "same_but_heap s s"
  by (simp add: same_but_heap_def)

lemma same_but_heap_trans: "same_but_heap s t \<Longrightarrow> same_but_heap t u \<Longrightarrow> same_but_heap s u"
  by (cases s; cases t; cases u) (simp add: same_but_heap_def)

lemma set_size_frame [frame]: "same_but_heap s (set_size p v s)"
  by (cases s) (simp add: same_but_heap_def set_size_def)

lemma set_next_frame [frame]: "same_but_heap s (set_next p v s)"
  by (cases s) (simp add: same_but_heap_def set_next_def)

lemma take_block_frame [frame]: "same_but_heap s (take_block prev cur h full s)"
  by (cases s) (simp add: same_but_heap_def take_block_def set_size_def set_next_def Let_def)

lemma allocate_loop_refines:
  assumes "request_ok sz al"
    and "path (ram s) (first_free s) pre cur" and "path (ram s) cur suf 0"
    and "segs_ok 1 (pre @ suf)" and "prev = (if pre = [] then 0 else of_nat (fst (last pre)))"
  shows "case first_fit (unat sz) (unat al) suf of
      None \<Rightarrow> allocate_loop sz al prev cur s = Some (0, s)
    | Some (d, full, suf') \<Rightarrow> \<exists>t. allocate_loop sz al prev cur s = Some (of_nat d, t)
        \<and> free_list t (pre @ suf') \<and> load32 (ram t) (of_nat d - 4) = of_nat full \<and> same_but_heap s t"
  using assms(2-5)
proof (induction suf arbitrary: pre cur prev)
  case Nil
  have "allocate_loop sz al p 0 s = Some (0, s)" for p by (subst allocate_loop.simps) simp
  with Nil show ?case by simp
next
  case (Cons sg suf)
  obtain a n where sg: "sg = (a, n)" by fastforce
  from Cons.prems(2) sg have cur: "cur \<noteq> 0" "unat cur = a" "unat (seg_size (ram s) cur) = n"
    and nxt: "path (ram s) (seg_next (ram s) cur) suf 0" by auto
  have top: "a + 8 + n < 2 ^ 32" using segs_ok_above [OF Cons.prems(3), of a n] sg by simp
  let ?e = "cur + 8 + seg_size (ram s) cur"
  let ?d = "(?e - sz) AND NOT (al - 1)"
  let ?D = "block_data (unat sz) (unat al) (a, n)"
  note arith = step_arith [OF assms(1), of cur "seg_size (ram s) cur", unfolded cur, OF top]
  show ?case
  proof (cases "block_fits (unat sz) (unat al) (a, n)")
    case True
    note vals = arith(2) [OF True]
    note bounds = block_data_bounds [OF True]
    let ?t = "take_block prev cur (?d - 4) (?e - (?d - 4)) s"
    have loop: "allocate_loop sz al prev cur s = Some (?d, ?t)"
      using cur True arith(1) by (simp add: allocate_loop.simps [of sz al prev cur s] Let_def)
    have "free_list ?t (pre @ shrink ?D (a, n) @ suf) \<and> load32 (ram ?t) (?d - 4) = ?e - (?d - 4)"
      using Cons.prems sg vals bounds by (intro take_block_path [where D = ?D]) (auto simp: cutting_def)
    moreover have "?d = of_nat ?D" using vals by (intro unat_eq_of_nat) simp
    moreover have "?e - (?d - 4) = of_nat (a + 8 + n - (?D - 4))" using vals by (intro unat_eq_of_nat) simp
    ultimately show ?thesis
      using True loop take_block_frame [of s prev cur "?d - 4" "?e - (?d - 4)"]
      by (simp add: sg Let_def)
  next
    case False
    have loop: "allocate_loop sz al prev cur s = allocate_loop sz al cur (seg_next (ram s) cur) s"
      using cur False arith(1) by (auto simp: allocate_loop.simps [of sz al prev cur s] Let_def)
    have "path (ram s) (first_free s) (pre @ [(a, n)]) (seg_next (ram s) cur)"
      using Cons.prems(1) cur by (auto simp: path_append)
    moreover have "cur = (if pre @ [(a, n)] = [] then 0 else of_nat (fst (last (pre @ [(a, n)]))))"
      using unat_eq_of_nat [OF cur(2)] by simp
    ultimately show ?thesis
      using Cons.IH [OF _ nxt, of "pre @ [(a, n)]" cur] Cons.prems(3) False loop sg
      by (auto split: option.splits)
  qed
qed

lemma allocate_refines:
  assumes "request_ok sz al" and "sz \<noteq> 0" and "free_list s segs" and "segs_ok 1 segs"
  shows "case first_fit (unat sz) (unat al) segs of
      None \<Rightarrow> allocate sz al s = Some (0, s)
    | Some (d, full, segs') \<Rightarrow> \<exists>t. allocate sz al s = Some (of_nat d, t)
        \<and> free_list t segs' \<and> load32 (ram t) (of_nat d - 4) = of_nat full \<and> same_but_heap s t"
  using allocate_loop_refines [OF assms(1), of s "[]" "first_free s" segs 0] assms(2-4)
  by (auto simp: allocate_def free_list_def split: option.splits)

text \<open>What first fit guarantees about the block it returns.\<close>

lemma shrink_ok:
  "segs_ok lo ((a, n) # segs) \<Longrightarrow> a + 12 \<le> d \<Longrightarrow> d \<le> a + 8 + n \<Longrightarrow> segs_ok lo (shrink d (a, n) @ segs)"
  by (auto simp: shrink_def intro: segs_ok_mono)

lemma first_fit_block:
  assumes "first_fit sz al segs = Some (d, full, segs')" and "segs_ok lo segs" and "0 < al"
  shows "segs_ok lo segs' \<and> al dvd d \<and> lo + 12 \<le> d \<and> d < 2 ^ 32 \<and> sz + 4 \<le> full
     \<and> {d - 4..<d - 4 + full} \<subseteq> seg_bytes segs \<and> {d - 4..<d - 4 + full} \<inter> seg_bytes segs' = {}
     \<and> seg_bytes segs' \<subseteq> seg_bytes segs"
  using assms
proof (induction sz al segs arbitrary: d full segs' lo rule: first_fit.induct)
  case (2 sz al a n segs)
  show ?case
  proof (cases "block_fits sz al (a, n)")
    case True
    from "2.prems" True have d: "d = block_data sz al (a, n)" "full = a + 8 + n - (d - 4)"
      "segs' = shrink d (a, n) @ segs" by (auto simp: Let_def)
    note bounds = block_data_bounds [OF True, folded d(1)]
    have "al dvd d" unfolding d(1) block_data_def Let_def prod.case by (rule dvd_minus_mod)
    moreover have "x \<notin> seg_bytes segs" if "x < a + 8 + n" for x
      using segs_ok_bytes [of "a + 8 + n" segs x] "2.prems"(2) that by auto
    ultimately show ?thesis
      using "2.prems"(2) bounds shrink_ok [of lo a n segs d] d(2,3)
      by (auto simp: shrink_def split: if_splits)
  next
    case False
    with "2.prems"(1) obtain r where r: "first_fit sz al segs = Some (d, full, r)" "segs' = (a, n) # r"
      by auto
    from "2.prems"(2) have ok: "segs_ok (a + 8 + n) segs" "lo \<le> a" "a + 8 + n < 2 ^ 32" by auto
    note IH = "2.IH" [OF False r(1) ok(1) "2.prems"(3)]
    moreover have "x \<notin> {a..<a + 8 + n}" if "x \<in> seg_bytes segs" for x
      using segs_ok_bytes [OF ok(1) that] by auto
    ultimately show ?thesis using ok r(2) by fastforce
  qed
qed simp

section \<open>Freeing\<close>

text \<open>
  What \<^verbatim>\<open>deallocate\<close> does to the list of segments: the block at header \<open>h\<close>
  becomes a segment of size \<open>k\<close>, goes in at its place in the address order,
  and is joined with the segment after it and the segment before it where one
  ends exactly where the other begins.
\<close>

definition join_next :: "seg \<Rightarrow> seg list \<Rightarrow> seg \<times> seg list" where
  "join_next sg post = (case (sg, post) of
     ((h, k), (b, m) # r) \<Rightarrow> if b = h + 8 + k then ((h, k + 8 + m), r) else ((h, k), post)
   | (_, []) \<Rightarrow> (sg, []))"

definition join_prev :: "seg list \<Rightarrow> seg \<Rightarrow> seg list" where
  "join_prev pre sg = (if pre = [] then [sg]
     else case (last pre, sg) of ((a, n), (h, k)) \<Rightarrow>
       if h = a + 8 + n then butlast pre @ [(a, n + 8 + k)] else pre @ [(h, k)])"

definition insert_free :: "seg \<Rightarrow> seg list \<Rightarrow> seg list" where
  "insert_free sg segs =
     (let pre = takeWhile (\<lambda>(a, n). a < fst sg) segs;
          (sg', post) = join_next sg (dropWhile (\<lambda>(a, n). a < fst sg) segs)
      in join_prev pre sg' @ post)"

text \<open>
  What freeing needs of the list: headers in address order that do not overlap
  (the segments themselves may), and sizes that do not wrap.
\<close>

fun heads_ok :: "nat \<Rightarrow> seg list \<Rightarrow> bool" where
  "heads_ok lo [] = True"
| "heads_ok lo ((a, n) # segs) = (lo \<le> a \<and> a + 8 + n < 2 ^ 32 \<and> heads_ok (a + 8) segs)"

lemma heads_ok_mono: "heads_ok lo segs \<Longrightarrow> lo' \<le> lo \<Longrightarrow> heads_ok lo' segs"
  by (cases segs) auto

lemma segs_ok_heads: "segs_ok lo segs \<Longrightarrow> heads_ok lo segs"
  by (induction lo segs rule: segs_ok.induct) (auto intro: heads_ok_mono)

lemma heads_ok_above: "heads_ok lo segs \<Longrightarrow> (b, k) \<in> set segs \<Longrightarrow> lo \<le> b \<and> b + 8 + k < 2 ^ 32"
proof (induction lo segs rule: heads_ok.induct)
  case (2 lo a n segs)
  then show ?case by fastforce
qed simp

lemma heads_ok_append:
  "heads_ok lo (xs @ ys) \<longleftrightarrow> heads_ok lo xs \<and> heads_ok (if xs = [] then lo else fst (last xs) + 8) ys"
  by (induction lo xs rule: heads_ok.induct) auto

lemma heads_ok_before:
  assumes "heads_ok lo (xs @ (a, n) # ys)" and "(b, k) \<in> set xs"
  shows "b + 8 \<le> a"
  using assms
proof (induction xs arbitrary: lo)
  case (Cons x xs)
  obtain c l where x: "x = (c, l)" by fastforce
  show ?case
  proof (cases "(b, k) = x")
    case True
    with Cons.prems(1) x have "heads_ok (b + 8) (xs @ (a, n) # ys)" by simp
    from heads_ok_above [OF this, of a n] show ?thesis by simp
  next
    case False
    with Cons x show ?thesis by auto
  qed
qed simp

text \<open>The walk stops between the segments below the block and those above it.\<close>

lemma free_list_walk_split:
  assumes "path m p segs 0"
  shows "\<exists>cur. free_list_walk m f prev p =
      Some (if takeWhile (\<lambda>(a, n). a < unat f) segs = [] then prev
            else of_nat (fst (last (takeWhile (\<lambda>(a, n). a < unat f) segs))), cur)
    \<and> path m p (takeWhile (\<lambda>(a, n). a < unat f) segs) cur
    \<and> path m cur (dropWhile (\<lambda>(a, n). a < unat f) segs) 0"
  using assms
proof (induction segs arbitrary: p prev)
  case Nil
  then show ?case by (subst free_list_walk.simps) simp
next
  case (Cons sg segs)
  obtain a n where sg: "sg = (a, n)" by fastforce
  from Cons.prems sg have p: "p \<noteq> 0" "unat p = a" "path m (seg_next m p) segs 0" by auto
  show ?case
  proof (cases "a < unat f")
    case True
    with p have "free_list_walk m f prev p = free_list_walk m f p (seg_next m p)"
      by (subst free_list_walk.simps) (simp add: word_less_nat_alt)
    with Cons.IH [OF p(3), of p] True sg Cons.prems unat_eq_of_nat [OF p(2)] show ?thesis
      by (auto split: if_splits)
  next
    case False
    with p have "free_list_walk m f prev p = Some (prev, p)"
      by (subst free_list_walk.simps) (simp add: word_less_nat_alt)
    with False sg Cons.prems show ?thesis by auto
  qed
qed

lemma path_set_size:
  assumes "path m p (xs @ [(b, k)]) q" and "unat w = b" and "b + 8 \<le> 2 ^ 32" and "misses b xs"
  shows "path (store32 w v m) p (xs @ [(b, unat v)]) q"
proof -
  from assms(1) obtain r where r: "path m p xs r" "r \<noteq> 0" "unat r = b" "seg_next m r = q"
    by (auto simp: path_append)
  with assms(2) have "r = w" by (metis word_unat_eq_iff)
  with r assms show ?thesis
    using apart4I [of w "w + 4"]
    by (auto simp: path_append path_store32 seg_size_def seg_next_def unat_plus4 intro!: exI [of _ w])
qed

text \<open>A header misses the headers of its neighbours.\<close>

lemma heads_ok_misses:
  assumes "heads_ok 1 (xs @ (a, n) # ys)"
  shows "misses a xs" "misses (a + 4) xs" "misses a ys" "misses (a + 4) ys" "a + 8 \<le> 2 ^ 32" "1 \<le> a"
proof -
  have top: "1 \<le> a \<and> a + 8 + n < 2 ^ 32" using heads_ok_above [OF assms, of a n] by simp
  have below: "b + 8 \<le> a" if "(b, k) \<in> set xs" for b k
    using heads_ok_before [OF assms that] .
  have above: "a + 8 \<le> b \<and> b + 8 + k < 2 ^ 32" if "(b, k) \<in> set ys" for b k
    using assms heads_ok_above [of "a + 8" ys b k] that by (auto simp: heads_ok_append)
  show "misses a xs" "misses (a + 4) xs" "misses a ys" "misses (a + 4) ys"
    using below above top by (fastforce simp: misses_def)+
  show "a + 8 \<le> 2 ^ 32" "1 \<le> a" using top by simp_all
qed

lemma absorb_free_list:
  assumes fl: "free_list s (xs @ (a, n) # (b, k) # ys)" and ok: "heads_ok 1 (xs @ (a, n) # (b, k) # ys)"
    and p: "unat p = a" and q: "unat q = b"
  shows "free_list (absorb p q s) (xs @ (if b = a + 8 + n then [(a, n + 8 + k)] else [(a, n), (b, k)]) @ ys)"
proof -
  note ma = heads_ok_misses [OF ok]
  have mb: "b + 8 + k < 2 ^ 32" "a + 8 + n < 2 ^ 32" "a + 8 \<le> b"
    using heads_ok_above [OF ok, of b k] heads_ok_above [OF ok, of a n]
      heads_ok_before [of 1 "xs @ [(a, n)]" b k ys a n] ok by simp_all
  from fl have "\<exists>r1 r2. path (ram s) (first_free s) xs r1 \<and> r1 \<noteq> 0 \<and> unat r1 = a
      \<and> unat (seg_size (ram s) r1) = n \<and> seg_next (ram s) r1 = r2 \<and> r2 \<noteq> 0 \<and> unat r2 = b
      \<and> unat (seg_size (ram s) r2) = k \<and> path (ram s) (seg_next (ram s) r2) ys 0"
    by (auto simp: free_list_def path_append)
  then have pr: "path (ram s) (first_free s) (xs @ [(a, n)]) q" "unat (seg_size (ram s) p) = n"
    "unat (seg_size (ram s) q) = k" "path (ram s) (seg_next (ram s) q) ys 0"
    using p q by (auto simp: path_append) (metis word_unat_eq_iff)+
  have adj: "segments_adjacent p q s \<longleftrightarrow> b = a + 8 + n"
  proof -
    have "unat (p + 8 + seg_size (ram s) p) = a + 8 + n"
      using mb p pr(2) by (simp add: unat_add_no_wrap)
    then show ?thesis using q by (metis segments_adjacent_def word_unat_eq_iff)
  qed
  show ?thesis
  proof (cases "b = a + 8 + n")
    case True
    let ?w = "seg_size (ram s) p + 8 + seg_size (ram s) q"
    have w: "unat ?w = n + 8 + k" using mb True pr by (simp add: unat_add_no_wrap)
    have "apart4 (q + 4) p"
      using header_apart(2) [of p q] mb p q by simp
    then have nq: "seg_next (store32 p ?w (ram s)) q = seg_next (ram s) q"
      by (simp add: seg_next_def)
    have "path (store32 p ?w (ram s)) (first_free s) (xs @ [(a, n + 8 + k)]) q"
      using path_set_size [OF pr(1) p ma(5,1), of ?w] w by simp
    from path_set_next [OF this p ma(5,2), of "seg_next (ram s) q"]
    have "free_list (absorb p q s) (xs @ (a, n + 8 + k) # ys)"
      using True adj nq pr(4) ma(3,4) p
      by (auto simp: absorb_def set_size_def set_next_def Let_def free_list_def path_append
          path_store32 unat_plus4 simp del: path.simps(2))
        (auto simp: path_store32 unat_plus4)
    with True show ?thesis by simp
  next
    case False
    with adj fl show ?thesis by (simp add: absorb_def)
  qed
qed

lemma absorb_frame [frame]: "same_but_heap s (absorb p q s)"
  by (cases s) (simp add: same_but_heap_def absorb_def set_size_def set_next_def Let_def)

text \<open>Where the freed block goes, and that the new list is well formed.\<close>

abbreviation below :: "nat \<Rightarrow> seg list \<Rightarrow> seg list" where
  "below h \<equiv> takeWhile (\<lambda>(a, n). a < h)"

abbreviation above :: "nat \<Rightarrow> seg list \<Rightarrow> seg list" where
  "above h \<equiv> dropWhile (\<lambda>(a, n). a < h)"

definition header_free :: "nat \<Rightarrow> seg list \<Rightarrow> bool" where
  "header_free h segs \<longleftrightarrow> (\<forall>(b, k) \<in> set segs. b + 8 \<le> h \<or> h + 8 \<le> b)"

lemma heads_ok_insert:
  assumes "heads_ok lo segs" and "header_free h segs" and "lo \<le> h" and "h + 8 + k < 2 ^ 32"
  shows "heads_ok lo (below h segs @ (h, k) # above h segs)"
  using assms
proof (induction lo segs rule: heads_ok.induct)
  case (2 lo a n segs)
  then show ?case
    by (cases "a < h") (auto simp: header_free_def)
qed simp

lemma link_free_list:
  assumes fl: "free_list s segs" and ok: "heads_ok 1 segs" and hf: "header_free (unat h) segs"
    and h: "1 \<le> unat h" "unat h + 8 + unat k < 2 ^ 32"
  defines "s1 \<equiv> set_next h 0 (set_size h k s)"
  shows "\<exists>prev cur. free_list_walk (ram s1) h 0 (first_free s1) = Some (prev, cur)
    \<and> prev = (if below (unat h) segs = [] then 0 else of_nat (fst (last (below (unat h) segs))))
    \<and> cur = (if above (unat h) segs = [] then 0 else of_nat (fst (hd (above (unat h) segs))))
    \<and> free_list (let s = set_next h cur s1 in if prev = 0 then s\<lparr>first_free := h\<rparr> else set_next prev h s)
        (below (unat h) segs @ (unat h, unat k) # above (unat h) segs)"
proof -
  let ?pre = "below (unat h) segs" and ?post = "above (unat h) segs"
  note ok' = heads_ok_insert [OF ok hf h]
  note ms = heads_ok_misses [OF ok']
  have segs: "segs = ?pre @ ?post" by simp
  have ap: "apart4 h (h + 4)" "apart4 (h + 4) h" using apart4I [of h "h + 4"] ms(5) by (simp_all add: unat_plus4)
  have h4: "unat (h + 4) = unat h + 4" using ms(5) by (simp add: unat_plus4)
  have "misses (unat h) segs" "misses (unat (h + 4)) segs"
    using ms(1-4) unfolding h4 by (subst segs, simp del: takeWhile_dropWhile_id)+
  with fl have fl1: "path (ram s1) (first_free s1) segs 0"
    by (simp add: s1_def set_next_def set_size_def free_list_def path_store32)
  from free_list_walk_split [OF this, of h 0] obtain cur where
    walk: "free_list_walk (ram s1) h 0 (first_free s1) =
      Some (if ?pre = [] then 0 else of_nat (fst (last ?pre)), cur)"
    and pre: "path (ram s1) (first_free s1) ?pre cur" and post: "path (ram s1) cur ?post 0" by blast
  have cur: "cur = (if ?post = [] then 0 else of_nat (fst (hd ?post)))"
    using post by (cases ?post) auto
  have sz: "seg_size (ram s1) h = k"
    using ap by (simp add: s1_def set_next_def set_size_def seg_size_def)
  let ?m = "store32 (h + 4) cur (ram s1)"
  have m: "path ?m (first_free s1) ?pre cur" "path ?m h ((unat h, unat k) # ?post) 0"
    using pre post ms h4 sz ap h by (auto simp: path_store32 seg_size_def seg_next_def)
  show ?thesis
  proof (cases "?pre = []")
    case True
    with walk cur m show ?thesis
      by (intro exI conjI) (auto simp: set_next_def free_list_def Let_def)
  next
    case False
    then obtain pre' b n where p: "?pre = pre' @ [(b, n)]" by (metis rev_exhaust surj_pair)
    have ok2: "heads_ok 1 (pre' @ (b, n) # (unat h, unat k) # ?post)" using ok' unfolding p by simp
    note mp = heads_ok_misses [OF ok2]
    let ?w = "of_nat b :: ptr"
    have w: "unat ?w = b" using mp(5) by (simp add: unat_of_nat)
    then have "?w \<noteq> 0" using mp(6) by auto
    have w4: "unat (?w + 4) = b + 4" using mp(5) w by (simp add: unat_plus4)
    have "path (store32 (?w + 4) h ?m) (first_free s1) ?pre h"
      using path_set_next [OF m(1) [unfolded p] w mp(5,2)] unfolding p .
    moreover have "path (store32 (?w + 4) h ?m) h ((unat h, unat k) # ?post) 0"
      by (subst path_store32) (use m(2) mp(4) w4 in simp_all)
    ultimately have "path (store32 (?w + 4) h ?m) (first_free s1) (?pre @ (unat h, unat k) # ?post) 0"
      by (auto simp: path_append simp del: path.simps(2))
    with walk cur \<open>?w \<noteq> 0\<close> show ?thesis
      by (intro exI [of _ ?w] exI [of _ cur] conjI) (simp_all add: p set_next_def free_list_def Let_def)
  qed
qed

lemma same_but_heap_upd: "same_but_heap s t \<Longrightarrow> same_but_heap s (t\<lparr>first_free := p\<rparr>)"
  by (cases s; cases t) (simp add: same_but_heap_def)

lemma same_but_heap_ops:
  assumes "same_but_heap s t"
  shows "same_but_heap s (set_size p v t)" "same_but_heap s (set_next p v t)" "same_but_heap s (absorb p q t)"
  using assms by (auto intro: same_but_heap_trans set_size_frame set_next_frame absorb_frame)

text \<open>The two coalescing steps are \<^const>\<open>join_next\<close> and \<^const>\<open>join_prev\<close>.\<close>

lemma absorb_next:
  assumes fl: "free_list s (pre @ (h, k) # post)" and ok: "heads_ok 1 (pre @ (h, k) # post)"
    and h: "unat hp = h" and cur: "cur = (if post = [] then 0 else of_nat (fst (hd post)))"
    and j: "join_next (h, k) post = ((h, k'), post')"
  shows "free_list (if cur \<noteq> 0 then absorb hp cur s else s) (pre @ (h, k') # post')
    \<and> heads_ok 1 (pre @ (h, k') # post')"
proof (cases post)
  case Nil
  with assms show ?thesis by (simp add: join_next_def)
next
  case (Cons bm r)
  obtain b m where bm: "bm = (b, m)" by fastforce
  have b: "1 \<le> b \<and> b + 8 + m < 2 ^ 32" using heads_ok_above [OF ok, of b m] Cons bm by simp
  then have cur': "unat cur = b" using cur Cons bm by (simp add: unat_of_nat)
  with b have "cur \<noteq> 0" by auto
  with absorb_free_list [of s pre h k b m r hp cur] fl ok h cur' j Cons bm show ?thesis
    by (auto simp: join_next_def heads_ok_append split: if_splits intro: heads_ok_mono)
qed

lemma absorb_prev:
  assumes fl: "free_list s (pre @ (h, k) # post)" and ok: "heads_ok 1 (pre @ (h, k) # post)"
    and h: "unat hp = h" and prev: "prev = (if pre = [] then 0 else of_nat (fst (last pre)))"
  shows "free_list (if prev \<noteq> 0 then absorb prev hp s else s) (join_prev pre (h, k) @ post)"
proof (cases pre rule: rev_cases)
  case Nil
  with assms show ?thesis by (simp add: join_prev_def)
next
  case (snoc xs an)
  obtain a n where an: "an = (a, n)" by fastforce
  have a: "1 \<le> a \<and> a + 8 + n < 2 ^ 32" using heads_ok_above [OF ok, of a n] snoc an by simp
  then have prev': "unat prev = a" using prev snoc an by (simp add: unat_of_nat)
  with a have "prev \<noteq> 0" by auto
  with absorb_free_list [of s xs a n h k post prev hp] fl ok h prev' snoc an show ?thesis
    by (auto simp: join_prev_def split: if_splits)
qed

lemma join_next_head: "fst (fst (join_next (h, k) post)) = h"
  by (cases post) (auto simp: join_next_def)

lemma deallocate_refines:
  assumes fl: "free_list s segs" and ok: "heads_ok 1 segs" and hf: "header_free h segs"
    and p: "unat p = h + 4" and h: "1 \<le> h" "h + 8 + k < 2 ^ 32"
    and size: "unat (load32 (ram s) (p - 4)) = k + 4"
  shows "\<exists>t. deallocate p s = Some t \<and> free_list t (insert_free (h, k) segs) \<and> same_but_heap s t"
proof -
  let ?h = "p - 4" and ?k = "load32 (ram s) (p - 4) - 4"
  let ?pre = "below h segs" and ?post = "above h segs"
  have h': "unat ?h = h" and k': "unat ?k = k" using p size by (simp_all add: unat_sub_no_wrap)
  define s1 where "s1 = set_next ?h 0 (set_size ?h ?k s)"
  from link_free_list [OF fl ok, of ?h ?k] hf h obtain prev cur where
    walk: "free_list_walk (ram s1) ?h 0 (first_free s1) = Some (prev, cur)"
    and prev: "prev = (if ?pre = [] then 0 else of_nat (fst (last ?pre)))"
    and cur: "cur = (if ?post = [] then 0 else of_nat (fst (hd ?post)))"
    and fl3: "free_list (let s = set_next ?h cur s1 in if prev = 0 then s\<lparr>first_free := ?h\<rparr> else set_next prev ?h s)
        (?pre @ (h, k) # ?post)"
    unfolding s1_def h' k' by blast
  define s3 where "s3 = (let s = set_next ?h cur s1 in if prev = 0 then s\<lparr>first_free := ?h\<rparr> else set_next prev ?h s)"
  define s4 where "s4 = (if cur \<noteq> 0 then absorb ?h cur s3 else s3)"
  define s5 where "s5 = (if prev \<noteq> 0 then absorb prev ?h s4 else s4)"
  have "p \<noteq> 0" using p by auto
  then have run: "deallocate p s = Some s5"
    using walk by (simp add: deallocate_def s5_def s4_def s3_def s1_def Let_def)
  note ok3 = heads_ok_insert [OF ok hf h]
  obtain k4 post4 where j: "join_next (h, k) ?post = ((h, k4), post4)"
    by (metis join_next_head prod.collapse)
  have "free_list s4 (?pre @ (h, k4) # post4) \<and> heads_ok 1 (?pre @ (h, k4) # post4)"
    using fl3 ok3 cur j absorb_next [of s3 ?pre h k ?post ?h cur] h' by (simp add: s4_def s3_def)
  then have "free_list s5 (join_prev ?pre (h, k4) @ post4)"
    using prev absorb_prev [of s4 ?pre h k4 post4 ?h prev] h' by (simp add: s5_def)
  then have "free_list s5 (insert_free (h, k) segs)" using j by (simp add: insert_free_def)
  moreover have "same_but_heap s s5"
    unfolding s5_def s4_def s3_def s1_def Let_def
    by (simp add: same_but_heap_upd same_but_heap_ops)
  ultimately show ?thesis using run by blast
qed

section \<open>The debug printer\<close>

lemma same_but_console_heap:
  "same_but_console s t \<Longrightarrow> ram (t :: 'z mem_scheme) = ram s \<and> first_free t = first_free s"
  by (cases s; cases t) (simp add: same_but_console_def)

definition seg_text :: "ram \<Rightarrow> ptr \<Rightarrow> string" where
  "seg_text m p = hex_string p @ '': '' @ hex_string (p + 8 + seg_size m p)
     @ '', FreeSegment { size: '' @ dec (unat (seg_size m p)) @ '', next_segment: ''
     @ (if seg_next m p \<noteq> 0 then hex_string (seg_next m p) else ''0x0'') @ '' }'' @ [CHR 0x5C, CHR ''n'']"

fun list_text :: "ram \<Rightarrow> seg list \<Rightarrow> string" where
  "list_text m [] = []"
| "list_text m ((a, n) # segs) = seg_text m (of_nat a) @ list_text m segs"

lemma print_free_segment_prints:
  "prints_from s (print_free_segment p) (seg_text (ram s) p)"
  unfolding print_free_segment_def [abs_def] seg_text_def
  by (intro prints_from_rules) (auto dest!: same_but_console_heap)

lemma print_free_segments_prints:
  "path (ram s) p segs 0 \<Longrightarrow> prints_from s (print_free_segments p) (list_text (ram s) segs)"
proof (induction segs arbitrary: p s)
  case Nil
  have "prints_from s Some []" by (rule prints_from_Some)
  with Nil show ?case by (simp add: print_free_segments.simps [abs_def])
next
  case (Cons sg segs)
  obtain a n where sg: "sg = (a, n)" by fastforce
  with Cons.prems have p: "p \<noteq> 0" "p = of_nat a" "path (ram s) (seg_next (ram s) p) segs 0" by auto
  have rest: "prints_from t (\<lambda>s. print_free_segments (seg_next (ram s) p) s) (list_text (ram s) segs)"
    if "same_but_console s t" for t
  proof (rule prints_from_cong)
    from that have t: "ram t = ram s" by (simp add: same_but_console_heap)
    show "print_free_segments (seg_next (ram t) p) t = print_free_segments (seg_next (ram s) p) t"
      by (simp add: t)
    show "prints_from t (print_free_segments (seg_next (ram s) p)) (list_text (ram s) segs)"
      using Cons.IH [of t "seg_next (ram s) p"] p t by simp
  qed
  have "prints_from s (\<lambda>s. Option.bind (print_free_segment p s) (\<lambda>s. print_free_segments (seg_next (ram s) p) s))
      (seg_text (ram s) p @ list_text (ram s) segs)"
    by (rule prints_from_seq [OF print_free_segment_prints rest])
  with p sg show ?case by (simp add: print_free_segments.simps [abs_def])
qed

section \<open>The allocator as an interface\<close>

text \<open>
  What a client may rely on: from a state whose free list is well formed a
  request returns; the block it gets, header included, comes out of the free
  bytes and is not among them any more. The laws say nothing of \<^verbatim>\<open>free\<close>, which
  does not keep the list well formed (see below).
\<close>

locale block_source =
  fixes alloc :: "u32 \<Rightarrow> 's \<Rightarrow> (ptr \<times> 's) option"
    and heap_ok :: "'s \<Rightarrow> bool"
    and free_bytes :: "'s \<Rightarrow> nat set"
    and extent :: "ptr \<Rightarrow> u32 \<Rightarrow> nat set"
    and served :: "u32 \<Rightarrow> bool"
  assumes alloc_returns: "heap_ok s \<Longrightarrow> served sz \<Longrightarrow> \<exists>p t. alloc sz s = Some (p, t)"
    and alloc_keeps_ok: "heap_ok s \<Longrightarrow> served sz \<Longrightarrow> alloc sz s = Some (p, t) \<Longrightarrow> heap_ok t"
    and alloc_shrinks: "heap_ok s \<Longrightarrow> served sz \<Longrightarrow> alloc sz s = Some (p, t) \<Longrightarrow> free_bytes t \<subseteq> free_bytes s"
    and alloc_takes: "heap_ok s \<Longrightarrow> served sz \<Longrightarrow> alloc sz s = Some (p, t) \<Longrightarrow> p \<noteq> 0
      \<Longrightarrow> extent p sz \<subseteq> free_bytes s - free_bytes t"

text \<open>A run of requests, and the blocks it gets (a refused request gets none).\<close>

primrec alloc_all ::
    "(u32 \<Rightarrow> 's \<Rightarrow> (ptr \<times> 's) option) \<Rightarrow> u32 list \<Rightarrow> 's \<Rightarrow> ((ptr \<times> u32) list \<times> 's) option" where
  "alloc_all al [] s = Some ([], s)"
| "alloc_all al (sz # szs) s =
     do { (p, s) \<leftarrow> al sz s; (bs, s) \<leftarrow> alloc_all al szs s;
          Some (if p = 0 then bs else (p, sz) # bs, s) }"

fun pairwise_disjoint :: "'a set list \<Rightarrow> bool" where
  "pairwise_disjoint [] = True"
| "pairwise_disjoint (x # xs) = ((\<forall>y \<in> set xs. x \<inter> y = {}) \<and> pairwise_disjoint xs)"

context block_source
begin

lemma alloc_all_disjoint:
  assumes "heap_ok s" and "\<forall>sz \<in> set szs. served sz"
  shows "\<exists>bs t. alloc_all alloc szs s = Some (bs, t) \<and> heap_ok t
    \<and> free_bytes t \<subseteq> free_bytes s \<and> length bs \<le> length szs
    \<and> (\<forall>(p, sz) \<in> set bs. extent p sz \<subseteq> free_bytes s - free_bytes t)
    \<and> pairwise_disjoint (map (\<lambda>(p, sz). extent p sz) bs)"
  using assms
proof (induction szs arbitrary: s)
  case (Cons sz szs)
  then have srv: "served sz" by simp
  from alloc_returns [OF Cons.prems(1) srv] obtain p t where t: "alloc sz s = Some (p, t)" by blast
  note laws = alloc_keeps_ok [OF Cons.prems(1) srv t] alloc_shrinks [OF Cons.prems(1) srv t]
    alloc_takes [OF Cons.prems(1) srv t]
  from Cons.IH [OF laws(1)] Cons.prems(2) obtain bs u where u: "alloc_all alloc szs t = Some (bs, u)"
    "heap_ok u" "free_bytes u \<subseteq> free_bytes t" "length bs \<le> length szs"
    "\<forall>(p, sz) \<in> set bs. extent p sz \<subseteq> free_bytes t - free_bytes u"
    "pairwise_disjoint (map (\<lambda>(p, sz). extent p sz) bs)" by auto
  have run: "alloc_all alloc (sz # szs) s = Some (if p = 0 then bs else (p, sz) # bs, u)"
    using t u(1) by simp
  have disj: "extent p sz \<inter> y = {}" if "p \<noteq> 0" "y \<in> (\<lambda>(p, sz). extent p sz) ` set bs" for y
    using laws(3) that u(5) by fast
  have inside: "extent q z \<subseteq> free_bytes s - free_bytes u" if "(q, z) \<in> set bs" for q z
    using u(5) that laws(2) by fast
  have "\<forall>(q, z) \<in> set (if p = 0 then bs else (p, sz) # bs). extent q z \<subseteq> free_bytes s - free_bytes u"
    using inside laws(3) u(3) by (cases "p = 0") auto
  moreover have "pairwise_disjoint (map (\<lambda>(p, sz). extent p sz) (if p = 0 then bs else (p, sz) # bs))"
    using disj u(6) by (cases "p = 0") auto
  moreover have "length (if p = 0 then bs else (p, sz) # bs) \<le> length (sz # szs)"
    using u(4) by simp
  ultimately show ?case using run u(2,3) laws(2) by blast
qed simp

end

text \<open>The interface on \<^const>\<open>malloc\<close>.\<close>

definition heap_ok :: "'z mem_scheme \<Rightarrow> bool" where
  "heap_ok s \<longleftrightarrow> (\<exists>segs. free_list s segs \<and> segs_ok 1 segs)"

definition free_bytes :: "'z mem_scheme \<Rightarrow> nat set" where
  "free_bytes s = {x. \<exists>segs. free_list s segs \<and> x \<in> seg_bytes segs}"

text \<open>A block of \<open>sz\<close> bytes at \<open>p\<close> is its four-byte header and its data.\<close>

definition block_extent :: "ptr \<Rightarrow> u32 \<Rightarrow> nat set" where
  "block_extent p sz = {unat p - 4..<unat p + unat sz}"

definition malloc_served :: "u32 \<Rightarrow> bool" where
  "malloc_served sz \<longleftrightarrow> unat sz + 12 \<le> 2 ^ 32"

lemma path_unique: "path m p xs 0 \<Longrightarrow> path m p ys 0 \<Longrightarrow> xs = ys"
proof (induction xs arbitrary: p ys)
  case Nil
  then show ?case by (cases ys) auto
next
  case (Cons x xs)
  then show ?case by (cases x; cases ys) auto
qed

lemma free_bytes_eq: "free_list s segs \<Longrightarrow> free_bytes s = seg_bytes segs"
  unfolding free_bytes_def free_list_def using path_unique by blast

lemma is_pow2_8: "is_pow2 8"
proof -
  have "(8 :: u32) = 2 ^ 3" by simp
  then show ?thesis unfolding is_pow2_def by (intro exI [of _ 3] conjI) simp_all
qed

lemma allocate_laws:
  assumes "request_ok sz al" and "heap_ok s" and "sz \<noteq> 0"
  shows "\<exists>p t. allocate sz al s = Some (p, t) \<and> heap_ok t \<and> free_bytes t \<subseteq> free_bytes s \<and> same_but_heap s t
     \<and> (p = 0 \<longrightarrow> t = s \<and> (\<exists>segs. free_list s segs \<and> first_fit (unat sz) (unat al) segs = None))
     \<and> (p \<noteq> 0 \<longrightarrow> unat al dvd unat p \<and> 4 < unat p \<and> unat p + unat sz \<le> 2 ^ 32
           \<and> block_extent p sz \<subseteq> free_bytes s - free_bytes t)"
proof -
  from assms(2) obtain segs where fl: "free_list s segs" and ok: "segs_ok 1 segs"
    by (auto simp: heap_ok_def)
  have al: "0 < unat al" using assms(1) is_pow2_unat by (fastforce simp: request_ok_def)
  note ref = allocate_refines [OF assms(1,3) fl ok]
  show ?thesis
  proof (cases "first_fit (unat sz) (unat al) segs")
    case None
    with ref fl ok show ?thesis by (auto simp: heap_ok_def)
  next
    case (Some r)
    then obtain d full segs' where r: "first_fit (unat sz) (unat al) segs = Some (d, full, segs')"
      by (metis prod_cases3)
    note blk = first_fit_block [OF r ok al]
    from ref r obtain t where t: "allocate sz al s = Some (of_nat d, t)" "free_list t segs'" "same_but_heap s t"
      by auto
    have d: "unat (of_nat d :: ptr) = d" using blk by (simp add: unat_of_nat)
    then have "(of_nat d :: ptr) \<noteq> 0" using blk by auto
    have "{d - 4..<d + unat sz} \<subseteq> {d - 4..<d - 4 + full}" using blk by auto
    then have "{d - 4..<d + unat sz} \<subseteq> seg_bytes segs - seg_bytes segs'" using blk by blast
    moreover have "d + unat sz \<le> 2 ^ 32"
    proof -
      have "d - 4 + full - 1 \<in> {d - 4..<d - 4 + full}" using blk by auto
      then have "d - 4 + full - 1 < 2 ^ 32" using blk segs_ok_bytes [OF ok] by blast
      with blk show ?thesis by linarith
    qed
    ultimately show ?thesis
      using t blk d \<open>of_nat d \<noteq> 0\<close> free_bytes_eq [OF fl] free_bytes_eq [OF t(2)]
      by (intro exI [of _ "of_nat d"] exI [of _ t]) (auto simp: heap_ok_def block_extent_def)
  qed
qed

lemma malloc_laws:
  assumes "malloc_served sz" and "heap_ok s"
  shows "\<exists>p t. malloc sz s = Some (p, t) \<and> heap_ok t \<and> free_bytes t \<subseteq> free_bytes s \<and> same_but_heap s t
     \<and> (p \<noteq> 0 \<longrightarrow> 8 dvd unat p \<and> block_extent p sz \<subseteq> free_bytes s - free_bytes t)"
proof (cases "sz = 0")
  case True
  with assms show ?thesis by (simp add: malloc_def allocate_def)
next
  case False
  have "request_ok sz 8" using assms(1) is_pow2_8 by (simp add: request_ok_def malloc_served_def)
  from allocate_laws [OF this assms(2) False] show ?thesis by (auto simp: malloc_def)
qed

interpretation heap: block_source malloc heap_ok free_bytes block_extent malloc_served
proof
  fix s :: "'z mem_scheme" and sz p t
  assume a: "heap_ok s" "malloc_served sz"
  note laws = malloc_laws [OF a(2,1)]
  show "\<exists>p t. malloc sz s = Some (p, t)" using laws by blast
  show "heap_ok t" "free_bytes t \<subseteq> free_bytes s" if "malloc sz s = Some (p, t)" using laws that by auto
  show "block_extent p sz \<subseteq> free_bytes s - free_bytes t" if "malloc sz s = Some (p, t)" "p \<noteq> 0"
    using laws that by auto
qed

section \<open>A concrete heap\<close>

definition mem_boot :: "device_fn \<Rightarrow> mem" where
  "mem_boot d = terminal.extend (terminal_boot d) (mem.fields (\<lambda>_. 0) 0)"

text \<open>One free segment of 256 bytes at address 4096.\<close>

definition small_heap :: "device_fn \<Rightarrow> mem" where
  "small_heap d = (mem_boot d)\<lparr>ram := store32 0x1000 0x100 (\<lambda>_. 0), first_free := 0x1000\<rparr>"

lemma small_heap_list: "free_list (small_heap d) [(0x1000, 0x100)]"
  by (simp add: small_heap_def free_list_def seg_size_def seg_next_def store32_def load32_def)

lemma small_heap_ok: "heap_ok (small_heap d)"
  unfolding heap_ok_def by (rule exI [of _ "[(0x1000, 0x100)]"]) (simp add: small_heap_list)

lemma small_heap_bytes: "free_bytes (small_heap d) = {0x1000..<0x1108}"
  by (simp add: free_bytes_eq [OF small_heap_list])

section \<open>Properties of the allocator\<close>

text \<open>
  C7 (allocation is safe). From a well-formed free list, for a power-of-two
  alignment and a size whose rounding does not wrap, \<^verbatim>\<open>allocate\<close> returns, keeps the
  list well formed and touches only the heap. When it finds room the block is
  aligned, does not wrap, and its bytes with the header were free and are no
  longer; it returns \<^verbatim>\<open>NULL\<close> only when first fit finds no segment, and then
  changes nothing.
\<close>

theorem allocate_block_safe:
  assumes "request_ok sz al" and "heap_ok s" and "sz \<noteq> 0"
  shows "\<exists>p t. allocate sz al s = Some (p, t) \<and> heap_ok t \<and> free_bytes t \<subseteq> free_bytes s \<and> same_but_heap s t
     \<and> (p = 0 \<longrightarrow> t = s \<and> (\<exists>segs. free_list s segs \<and> first_fit (unat sz) (unat al) segs = None))
     \<and> (p \<noteq> 0 \<longrightarrow> unat al dvd unat p \<and> 4 < unat p \<and> unat p + unat sz \<le> 2 ^ 32
           \<and> block_extent p sz \<subseteq> free_bytes s - free_bytes t)"
  using assms by (rule allocate_laws)

theorem allocate_block_safe_witness:
  "\<exists>p t. allocate 8 8 (small_heap uart_ready) = Some (p, t) \<and> p \<noteq> 0
     \<and> block_extent p 8 \<subseteq> {0x1000..<0x1108} - free_bytes t"
proof -
  have "first_fit (unat (8 :: u32)) (unat (8 :: u32)) [(0x1000, 0x100)] \<noteq> None"
    by (simp add: block_fits_def block_data_def Let_def)
  moreover have "segs = [(0x1000, 0x100)]" if "free_list (small_heap uart_ready) segs" for segs
    using path_unique that small_heap_list unfolding free_list_def by blast
  ultimately show ?thesis
    using allocate_block_safe [of 8 8 "small_heap uart_ready"] small_heap_ok [of uart_ready] is_pow2_8
    unfolding small_heap_bytes request_ok_def by fastforce
qed



text \<open>
  C9 (freeing inserts and coalesces). \<^verbatim>\<open>deallocate\<close> of a block whose header does
  not overlap a header of the free list returns, and turns the block into a
  segment of its recorded size less 4, in address order, joined with the
  neighbours it touches.
\<close>

theorem free_inserts_segment:
  assumes "free_list s segs" and "heads_ok 1 segs" and "header_free h segs"
    and "unat p = h + 4" and "1 \<le> h" and "h + 8 + k < 2 ^ 32"
    and "unat (load32 (ram s) (p - 4)) = k + 4"
  shows "\<exists>t. free p s = Some t \<and> free_list t (insert_free (h, k) segs) \<and> same_but_heap s t"
  using deallocate_refines [OF assms] by (simp add: free_def)

theorem free_inserts_segment_witness:
  "\<exists>t. free 0x2004 ((small_heap uart_ready)\<lparr>ram := store32 0x2000 0x14 (store32 0x1000 0x100 (\<lambda>_. 0))\<rparr>) = Some t
     \<and> free_list t [(0x1000, 0x100), (0x2000, 0x10)]"
  using free_inserts_segment [where s = "(small_heap uart_ready)\<lparr>ram := store32 0x2000 0x14 (store32 0x1000 0x100 (\<lambda>_. 0))\<rparr>"
      and segs = "[(0x1000, 0x100)]" and h = "0x2000" and p = "0x2004" and k = "0x10"]
  by (auto simp: small_heap_def free_list_def seg_size_def seg_next_def store32_def load32_def header_free_def
      insert_free_def join_next_def join_prev_def)

text \<open>
  A block comes back four bytes larger. Freeing the block just allocated
  from the only segment gives back a segment four bytes longer than before: the
  freed size leaves out the 4-byte used header, while the free header laid over
  it takes 8. The list then claims four bytes beyond the end of the heap.
\<close>

theorem malloc_free_grows:
  assumes fl: "free_list s [(a, n)]" and ok: "1 \<le> a" "a + 12 + n < 2 ^ 32" and sz: "malloc_served sz" "sz \<noteq> 0"
    and run: "malloc sz s = Some (p, t)" "p \<noteq> 0" and room: "unat p \<noteq> a + 12"
  shows "\<exists>u. free p t = Some u \<and> free_list u [(a, n + 4)]"
proof -
  have req: "request_ok sz 8" using sz(1) is_pow2_8 by (simp add: request_ok_def malloc_served_def)
  from allocate_refines [OF req sz(2) fl] ok run have "block_fits (unat sz) 8 (a, n)"
    by (auto simp: malloc_def Let_def split: if_splits)
  let ?d = "block_data (unat sz) 8 (a, n)"
  from allocate_refines [OF req sz(2) fl] ok run \<open>block_fits _ _ _\<close> have p: "p = of_nat ?d"
    and t: "free_list t (shrink ?d (a, n))" "load32 (ram t) (p - 4) = of_nat (a + 8 + n - (?d - 4))"
    by (auto simp: malloc_def Let_def simp del: of_nat_diff of_nat_add)
  note b = block_data_bounds [OF \<open>block_fits _ _ _\<close>]
  have up: "unat p = ?d" using b ok by (simp add: p unat_of_nat)
  have "unat (load32 (ram t) (p - 4)) = (a + 8 + n - ?d) + 4"
    using b ok by (simp add: t(2) unat_of_nat del: of_nat_diff of_nat_add)
  moreover have "shrink ?d (a, n) = [(a, ?d - (a + 12))]" using room up by (simp add: shrink_def)
  ultimately have "\<exists>u. deallocate p t = Some u
      \<and> free_list u (insert_free (?d - 4, a + 8 + n - ?d) [(a, ?d - (a + 12))]) \<and> same_but_heap t u"
    using t(1) b ok up by (intro deallocate_refines) (auto simp: header_free_def)
  moreover have "insert_free (?d - 4, a + 8 + n - ?d) [(a, ?d - (a + 12))] = [(a, n + 4)]"
    using b by (auto simp: insert_free_def join_next_def join_prev_def)
  ultimately show ?thesis by (auto simp: free_def)
qed

theorem malloc_free_grows_witness:
  "\<exists>p t u. malloc 8 (small_heap uart_ready) = Some (p, t) \<and> free p t = Some u \<and> free_list u [(0x1000, 0x104)]"
proof -
  have fits: "block_fits 8 8 (0x1000, 0x100)" "block_data 8 8 (0x1000, 0x100) = 0x1100"
    by (simp_all add: block_fits_def block_data_def Let_def)
  have "request_ok 8 8" using is_pow2_8 by (simp add: request_ok_def)
  from allocate_refines [OF this _ small_heap_list] fits
  obtain t where run: "malloc 8 (small_heap uart_ready) = Some (0x1100, t)"
    by (auto simp: malloc_def Let_def)
  with malloc_free_grows [OF small_heap_list, of 8 uart_ready "0x1100" t] show ?thesis
    by (auto simp: malloc_served_def)
qed

section \<open>Setting up the heap\<close>

text \<open>
  The boot loader's memory map as a list of entries (base, length, type), and
  the region the search settles on: the first of the largest available ones of
  at least \<^const>\<open>HEAP_SIZE\<close> bytes.
\<close>

fun mmap :: "ram \<Rightarrow> ptr \<Rightarrow> ptr \<Rightarrow> (u32 \<times> u32 \<times> u32) list \<Rightarrow> bool" where
  "mmap m cur limit [] \<longleftrightarrow> \<not> cur < limit"
| "mmap m cur limit ((base, len, type) # es) \<longleftrightarrow>
     cur < limit \<and> load32 m (cur + 4) = base \<and> load32 m (cur + 12) = len \<and> load32 m (cur + 20) = type
     \<and> mmap m (cur + (load32 m cur + 4)) limit es"

fun best_region :: "(u32 \<times> u32 \<times> u32) list \<Rightarrow> u32 \<times> u32 \<Rightarrow> u32 \<times> u32" where
  "best_region [] r = r"
| "best_region ((base, len, type) # es) r =
     best_region es (if type = 1 \<and> len > snd r \<and> len \<ge> HEAP_SIZE then (base, len) else r)"

lemma mmap_search_best:
  "mmap m cur limit es \<Longrightarrow> mmap_search m cur limit ra rs = Some (best_region es (ra, rs))"
proof (induction es arbitrary: cur ra rs)
  case Nil
  then show ?case by (subst mmap_search.simps) simp
next
  case (Cons e es)
  then show ?case
    by (cases e) (auto simp: mmap_search.simps [of m cur limit ra rs])
qed

lemma best_region_largest:
  assumes "best_region es r = (b, l)"
  shows "(b, l) = r \<or> (b, l, 1) \<in> set es \<and> HEAP_SIZE \<le> l"
    and "snd r \<le> l"
    and "(b', l', 1) \<in> set es \<Longrightarrow> HEAP_SIZE \<le> l' \<Longrightarrow> l' \<le> l"
  using assms
proof (induction es r rule: best_region.induct)
  case (2 base len type es r)
  { case 1 with "2.IH"(1) show ?case by (auto split: if_splits)
  next
    case 2 with "2.IH"(2) show ?case by (auto split: if_splits)
  next
    case 3
    with "2.IH"(2,3) show ?case by (auto split: if_splits)
  }
qed auto

lemma unat_align_up8:
  assumes "unat (r :: u32) + 7 < 2 ^ 32"
  shows "unat ((r + 7) AND NOT 7) = (unat r + 7) div 8 * 8"
proof -
  have "unat (r + 7) = unat r + 7" using assms by (simp add: unat_add_no_wrap)
  with unat_align_down [OF is_pow2_8, of "r + 7"] show ?thesis
    by (simp add: minus_mod_eq_div_mult)
qed

lemma init_allocator_run:
  fixes s :: "'z mem_scheme"
  assumes flag: "load32 (ram s) mb AND push_bit 6 1 \<noteq> 0"
    and map: "mmap (ram s) (load32 (ram s) (mb + 48))
        (load32 (ram s) (mb + 48) + load32 (ram s) (mb + 44)) es"
    and best: "best_region es (0, 0) = (b, l)" "l \<noteq> 0"
    and R: "R = (if kernel_end > esp then kernel_end else esp)"
    and inside: "b \<le> R" "unat R + 15 \<le> unat b + unat l" "unat b + unat l < 2 ^ 32" and pos: "0 < unat R"
  shows "\<exists>h t. init_allocator kernel_end esp mb s = Some t
     \<and> unat R \<le> h \<and> h < unat R + 8 \<and> 8 dvd h
     \<and> free_list t [(h, unat b + unat l - (h + 8))] \<and> heap_ok t
     \<and> free_bytes t = {h..<unat b + unat l} \<and> same_but_heap s t"
proof -
  let ?h = "(R + 7) AND NOT 7"
  let ?n = "l - (?h - b) - 8"
  let ?t = "(set_next ?h 0 (set_size ?h ?n s))\<lparr>first_free := ?h\<rparr>"
  have h: "unat ?h = (unat R + 7) div 8 * 8" using inside by (intro unat_align_up8) linarith
  then have hb: "unat R \<le> unat ?h" "unat ?h < unat R + 8" "8 dvd unat ?h" by simp_all
  have hn: "unat b \<le> unat ?h" "unat ?h + 8 \<le> unat b + unat l"
    using hb inside by (simp_all add: word_le_nat_alt)
  have hb': "unat (?h - b) = unat ?h - unat b" using hn by (simp add: unat_sub_no_wrap)
  have "unat (l - (?h - b)) = unat l - (unat ?h - unat b)" using hn hb' by (subst unat_sub_no_wrap) linarith+
  then have n: "unat ?n = unat b + unat l - (unat ?h + 8)" using hn by (subst unat_sub_no_wrap) simp_all
  have "R < b + l" using inside by (simp add: word_less_nat_alt unat_add_no_wrap)
  then have run: "init_allocator kernel_end esp mb s = Some ?t"
    using flag mmap_search_best [OF map] best inside(1) R
    by (simp add: init_allocator_def Let_def cong: if_cong)
  have h0: "?h \<noteq> 0" using hb pos by auto
  have "apart4 ?h (?h + 4)" using hn inside apart4I [of ?h "?h + 4"] by (simp add: unat_plus4)
  then have fl: "free_list ?t [(unat ?h, unat b + unat l - (unat ?h + 8))]"
    using h0 n by (simp add: free_list_def set_next_def set_size_def seg_size_def seg_next_def)
  moreover have "segs_ok 1 [(unat ?h, unat b + unat l - (unat ?h + 8))]" using hb hn pos inside by simp
  ultimately have "heap_ok ?t" unfolding heap_ok_def by blast
  moreover have "free_bytes ?t = {unat ?h..<unat b + unat l}" using free_bytes_eq [OF fl] hn by simp
  moreover have "same_but_heap s ?t" by (simp add: same_but_heap_upd same_but_heap_ops)
  ultimately show ?thesis using run hb fl by blast
qed

text \<open>
  C25 (the initial heap). When the boot loader provides a memory map and the
  end of the kernel and its stack lies in the region the search settles on,
  with room for a header, \<^verbatim>\<open>init_allocator\<close> returns and the free list is one
  segment that starts, 8-aligned, right above the reserved memory and ends
  exactly where the region ends; the region is an available one of at least
  2 MiB and no available region is longer.
\<close>

theorem init_allocator_heap:
  fixes s :: "'z mem_scheme"
  assumes flag: "load32 (ram s) mb AND push_bit 6 1 \<noteq> 0"
    and map: "mmap (ram s) (load32 (ram s) (mb + 48))
        (load32 (ram s) (mb + 48) + load32 (ram s) (mb + 44)) es"
    and best: "best_region es (0, 0) = (b, l)" "l \<noteq> 0"
    and R: "R = (if kernel_end > esp then kernel_end else esp)"
    and inside: "b \<le> R" "unat R + 15 \<le> unat b + unat l" "unat b + unat l < 2 ^ 32" and pos: "0 < unat R"
  shows "(\<exists>h t. init_allocator kernel_end esp mb s = Some t
     \<and> unat R \<le> h \<and> h < unat R + 8 \<and> 8 dvd h
     \<and> free_list t [(h, unat b + unat l - (h + 8))] \<and> heap_ok t
     \<and> free_bytes t = {h..<unat b + unat l} \<and> same_but_heap s t)
    \<and> (b, l, 1) \<in> set es \<and> HEAP_SIZE \<le> l
    \<and> (\<forall>b' l'. (b', l', 1) \<in> set es \<longrightarrow> l' \<le> l)"
proof (intro conjI)
  note big = best_region_largest [OF best(1)]
  show in_map: "(b, l, 1) \<in> set es" "HEAP_SIZE \<le> l" using big(1) best(2) by auto
  show "\<forall>b' l'. (b', l', 1) \<in> set es \<longrightarrow> l' \<le> l"
  proof (intro allI impI)
    fix b' l' assume "(b', l', 1) \<in> set es"
    with big(3) in_map(2) show "l' \<le> l" by (cases "HEAP_SIZE \<le> l'") auto
  qed
qed (rule init_allocator_run [OF assms])

text \<open>A map with one available region of 3 MiB at 1 MiB.\<close>

definition example_ram :: ram where
  "example_ram = fold (\<lambda>(a, v). store32 a v)
     [(0x500, 0x40), (0x52C, 24), (0x530, 0x600), (0x600, 20), (0x604, 0x100000), (0x60C, 0x300000), (0x614, 1)]
     (\<lambda>_. 0)"

lemma example_map:
  "load32 example_ram 0x500 AND push_bit 6 1 \<noteq> 0"
  "mmap example_ram (load32 example_ram (0x500 + 48)) (load32 example_ram (0x500 + 48)
     + load32 example_ram (0x500 + 44)) [(0x100000, 0x300000, 1)]"
  by code_simp+

theorem init_allocator_heap_witness:
  "\<exists>t. init_allocator 0x120000 0x118000 0x500 ((mem_boot uart_ready)\<lparr>ram := example_ram\<rparr>) = Some t
     \<and> heap_ok t \<and> free_bytes t \<subseteq> {0x120000..<0x400000}"
proof -
  have "\<exists>h t. init_allocator 0x120000 0x118000 0x500 ((mem_boot uart_ready)\<lparr>ram := example_ram\<rparr>) = Some t
     \<and> 0x120000 \<le> h \<and> heap_ok t \<and> free_bytes t = {h..<0x400000}"
    using init_allocator_heap [where s = "(mem_boot uart_ready)\<lparr>ram := example_ram\<rparr>" and mb = "0x500"
        and es = "[(0x100000, 0x300000, 1)]" and b = "0x100000" and l = "0x300000" and R = "0x120000"
        and kernel_end = "0x120000" and esp = "0x118000"] example_map
    by auto
  then show ?thesis by fastforce
qed

text \<open>
  The debug printer. For a free list of any length the printer returns,
  changes only the console, and prints one entry per segment in list order
  (each followed by a backslash and an \<^verbatim>\<open>n\<close>, not by a line feed).
\<close>

theorem debug_print_free_list_prints:
  fixes s :: "'z mem_scheme"
  assumes "free_list s segs" and "uart_drains (device s)"
  shows "\<exists>t. debug_print_free_list s = Some t \<and> same_but_console s t
     \<and> sent t = sent s @ map of_char (crlf (if segs = [] then ''Free list is empty'' @ [CHR 0x5C, CHR ''n'']
                                       else list_text (ram s) segs))"
proof -
  have "first_free s = 0 \<longleftrightarrow> segs = []" using assms(1) by (cases segs) (auto simp: free_list_def)
  moreover have "prints_from s (print_free_segments (first_free s)) (list_text (ram s) segs)"
    using assms(1) by (intro print_free_segments_prints) (simp add: free_list_def)
  moreover have "prints_from s (output_string (''Free list is empty'' @ [CHR 0x5C, CHR ''n'']))
      (''Free list is empty'' @ [CHR 0x5C, CHR ''n''])"
    by (rule prints_from_literal) simp
  ultimately show ?thesis
    using assms(2) unfolding prints_from_def debug_print_free_list_def by (cases "segs = []") auto
qed

theorem debug_print_free_list_prints_witness:
  "\<exists>t. debug_print_free_list (small_heap uart_ready) = Some t \<and> sent t = sent (small_heap uart_ready) @ map of_char
     (''0x00001000: 0x00001108, FreeSegment { size: 256, next_segment: 0x0 }'' @ [CHR 0x5C, CHR ''n''])"
proof -
  have "crlf (list_text (ram (small_heap uart_ready)) [(0x1000, 0x100)])
      = ''0x00001000: 0x00001108, FreeSegment { size: 256, next_segment: 0x0 }'' @ [CHR 0x5C, CHR ''n'']"
    by code_simp
  moreover have "uart_drains (device (small_heap uart_ready))"
    by (simp add: small_heap_def mem_boot_def mem.defs terminal.defs terminal_boot_def ports_boot_def ports.defs)
  ultimately show ?thesis using debug_print_free_list_prints [OF small_heap_list [of uart_ready]] by auto
qed

text \<open>
  A request near 4 GiB succeeds. The sum that finds the block's place
  wraps: on a heap whose first segment ends on an 8-byte boundary a request for
  the largest representable size gets the address one past the segment's end.
\<close>

theorem malloc_huge_succeeds:
  assumes fl: "free_list s ((a, n) # segs)" and "1 \<le> a" and "a + 9 + n < 2 ^ 32" and "4 \<le> n" and "8 dvd a + n"
  shows "\<exists>t. malloc 0xFFFFFFFF s = Some (of_nat (a + 8 + n), t)"
proof -
  let ?c = "first_free s"
  let ?e = "?c + 8 + seg_size (ram s) ?c"
  have c: "?c \<noteq> 0" "unat ?c = a" "unat (seg_size (ram s) ?c) = n" using fl by (auto simp: free_list_def)
  have e: "unat ?e = a + 8 + n" "unat (?c + 8) = a + 8" using c assms by (simp_all add: unat_add_no_wrap)
  have e1: "?e - 0xFFFFFFFF = ?e + 1" by simp
  have "unat (?e + 1) = a + 8 + n + 1" using unat_add_no_wrap [of ?e 1] e(1) assms(3) by simp
  moreover have "(a + 8 + n + 1) mod 8 = 1" using assms(5) by presburger
  ultimately have "unat ((?e - 0xFFFFFFFF) AND NOT (8 - 1)) = a + 8 + n"
    unfolding e1 using unat_align_down [OF is_pow2_8, of "?e + 1"] by simp
  then have d: "(?e - 0xFFFFFFFF) AND NOT (8 - 1) = ?e" using e(1) by (metis word_unat_eq_iff)
  have "unat (?e - 4) = a + 4 + n" using unat_sub_no_wrap [of 4 ?e] e(1) by simp
  then have "?c + 8 \<le> ?e - 4" "?e - (?e - 4) \<le> seg_size (ram s) ?c"
    unfolding word_le_nat_alt using e c assms by simp_all
  with d c(1) have "\<exists>t. allocate_loop 0xFFFFFFFF 8 0 ?c s = Some (?e, t)"
    by (subst allocate_loop.simps) (simp add: Let_def)
  moreover have "?e = of_nat (a + 8 + n)" using e(1) by (rule unat_eq_of_nat)
  ultimately show ?thesis by (simp add: malloc_def allocate_def)
qed

theorem malloc_huge_succeeds_witness:
  "\<exists>t. malloc 0xFFFFFFFF (small_heap uart_ready) = Some (0x1108, t)"
  using malloc_huge_succeeds [OF small_heap_list, of uart_ready] by simp

declare allocate_loop.simps [code] free_list_walk.simps [code]


end
