(* ===== verification/Libc.thy ===== *)
theory Libc
  imports Memory
begin

text \<open>
  The C library the kernel carries (\<^verbatim>\<open>src/libc.c\<close>): \<^verbatim>\<open>memset\<close> and
  \<^verbatim>\<open>memcpy\<close> on byte memory, with addresses that wrap at \<open>2 ^ 32\<close>, and
  \<^verbatim>\<open>panic\<close>.
\<close>

section \<open>Operations\<close>

definition memset :: "ptr \<Rightarrow> u32 \<Rightarrow> u32 \<Rightarrow> 'z mem_scheme \<Rightarrow> 'z mem_scheme" where
  "memset p value num s =
     for_up 0 (unat num) (\<lambda>i s. s\<lparr>ram := (ram s)(p + of_nat i := ucast value)\<rparr>) s"

definition memcpy :: "ptr \<Rightarrow> ptr \<Rightarrow> u32 \<Rightarrow> 'z mem_scheme \<Rightarrow> 'z mem_scheme" where
  "memcpy dest src num s =
     for_up 0 (unat num) (\<lambda>i s. s\<lparr>ram := (ram s)(dest + of_nat i := ram s (src + of_nat i))\<rparr>) s"

definition panic :: "string \<Rightarrow> 'z terminal_scheme \<Rightarrow> 'z terminal_scheme" where
  "panic message s =
     (let s = clear_terminal s;
          s = write_string ''KERNEL PANIC: '' s;
          s = write_string message s;
          s = write_string (LF # ''System halted.'') s;
          s = cli s
      in halt_forever s)"

section \<open>Byte ranges\<close>

text \<open>The addresses \<open>p\<close> to \<open>p + n - 1\<close>, wrapping: those less than \<open>n\<close> above \<open>p\<close>.\<close>

definition in_range :: "ptr \<Rightarrow> nat \<Rightarrow> ptr \<Rightarrow> bool" where
  "in_range p n x \<longleftrightarrow> unat (x - p) < n"

lemma in_range_Suc:
  assumes "n < 2 ^ 32"
  shows "in_range p (Suc n) x \<longleftrightarrow> in_range p n x \<or> x = p + of_nat n"
proof -
  have "x = p + of_nat n \<longleftrightarrow> unat (x - p) = n"
  proof
    assume "x = p + of_nat n"
    with assms show "unat (x - p) = n" by (simp add: unat_of_nat)
  next
    assume "unat (x - p) = n"
    from unat_eq_of_nat [OF this] show "x = p + of_nat n" by (simp add: algebra_simps)
  qed
  then show ?thesis by (auto simp: in_range_def less_Suc_eq)
qed

lemma not_in_range_0 [simp]: "\<not> in_range p 0 x"
  by (simp add: in_range_def)

text \<open>
  A fill loop whose byte at \<open>x\<close> does not depend on what the loop has written
  so far writes its whole range.
\<close>

lemma fill_loop:
  fixes num :: u32
  assumes indep: "\<And>i m. i < unat num \<Longrightarrow> (\<And>x. \<not> in_range p i x \<Longrightarrow> m x = ram s x) \<Longrightarrow> g i m = f (p + of_nat i)"
  shows "for_up 0 (unat num) (\<lambda>i s. s\<lparr>ram := (ram s)(p + of_nat i := g i (ram s))\<rparr>) s
    = s\<lparr>ram := (\<lambda>x. if in_range p (unat num) x then f x else ram s x)\<rparr>"
proof -
  let ?step = "\<lambda>i s. s\<lparr>ram := (ram s)(p + of_nat i := g i (ram s))\<rparr>"
  define P where "P i t \<longleftrightarrow> t = s\<lparr>ram := (\<lambda>x. if in_range p i x then f x else ram s x)\<rparr>" for i t
  have "P (unat num) (for_up 0 (unat num) ?step s)"
  proof (rule for_up_invariant)
    show "P 0 s" by (simp add: P_def)
    fix i t assume i: "i < unat num" and "P i t"
    then have t: "t = s\<lparr>ram := (\<lambda>x. if in_range p i x then f x else ram s x)\<rparr>" by (simp add: P_def)
    have "g i (ram t) = f (p + of_nat i)" using i by (intro indep) (simp_all add: t)
    moreover have "i < 2 ^ 32" using i unat_u32_less [of num] by linarith
    ultimately show "P (Suc i) (?step i t)" unfolding P_def by (auto simp: t in_range_Suc fun_eq_iff)
  qed simp
  then show ?thesis by (simp add: P_def)
qed

section \<open>Properties\<close>

text \<open>
  Memset. Exactly the \<open>num\<close> bytes from \<open>p\<close> on become the low byte of the
  value; every other byte and the rest of the state are unchanged.
\<close>

theorem memset_fills:
  "memset p value num s = s\<lparr>ram := (\<lambda>x. if in_range p (unat num) x then ucast value else ram s x)\<rparr>"
  unfolding memset_def using fill_loop [where g = "\<lambda>_ _. ucast value" and f = "\<lambda>_. ucast value" and p = p and num = num and s = s]
  by simp

text \<open>
  Memcpy. When the destination does not start inside the source (it may
  end inside it, or be the source) the bytes at the destination become those
  the source had before the call, and nothing else changes.
\<close>

theorem memcpy_copies:
  assumes "dest = src \<or> \<not> in_range src (unat num) dest"
  shows "memcpy dest src num s
    = s\<lparr>ram := (\<lambda>x. if in_range dest (unat num) x then ram s (src + (x - dest)) else ram s x)\<rparr>"
proof -
  have indep: "m (src + of_nat i) = ram s (src + (dest + of_nat i - dest))"
    if i: "i < unat num" and m: "\<And>x. \<not> in_range dest i x \<Longrightarrow> m x = ram s x" for i and m :: ram
  proof -
    have "i < 2 ^ 32" using i unat_u32_less [of num] by linarith
    then have ui: "unat (of_nat i :: u32) = i" by (simp add: unat_of_nat)
    have "\<not> in_range dest i (src + of_nat i)"
    proof
      assume r: "in_range dest i (src + of_nat i)"
      let ?k = "src + of_nat i - dest"
      have "dest - src = of_nat i - ?k" by simp
      moreover have "unat (of_nat i - ?k) = i - unat ?k"
        using r ui unat_sub_no_wrap [of ?k "of_nat i"] by (simp add: in_range_def)
      ultimately have "unat (dest - src) = i - unat ?k" by metis
      with r i have "in_range src (unat num) dest" "dest \<noteq> src" by (auto simp: in_range_def)
      with assms show False by blast
    qed
    with m show ?thesis by simp
  qed
  show ?thesis unfolding memcpy_def
    by (rule fill_loop [where g = "\<lambda>i m. m (src + of_nat i)" and f = "\<lambda>x. ram s (src + (x - dest))"
        and p = dest and num = num and s = s]) (use indep in blast)
qed

theorem memcpy_copies_witness:
  "ram (memcpy 0x2000 0x1000 4 (small_heap uart_ready)) 0x2001 = 1"
proof -
  have "(0x2000 :: ptr) = 0x1000 \<or> \<not> in_range 0x1000 (unat (4 :: u32)) 0x2000"
    by (simp add: in_range_def)
  from memcpy_copies [OF this, of "small_heap uart_ready"] show ?thesis
    by (simp add: in_range_def small_heap_def store32_def)
qed

text \<open>
  Panic. The screen shows the panic message and nothing else, interrupts
  are off and the machine has halted; the serial line gets nothing.
\<close>

theorem panic_halts:
  "shows_page (page_write (terminal_color s) (''KERNEL PANIC: '' @ cstr message @ LF # ''System halted.'')
       (blank_page (terminal_color s))) (panic message s)
   \<and> halted (panic message s) \<and> \<not> if_flag (panic message s) \<and> trace (panic message s) = trace s"
proof -
  let ?s1 = "write_string ''KERNEL PANIC: '' (clear_terminal s)"
  let ?s2 = "write_string message ?s1"
  let ?s3 = "write_string (LF # ''System halted.'') ?s2"
  have color: "terminal_color (write_string str t) = terminal_color t" for str and t :: "'a terminal_scheme"
    by (rule same_but_console_color) (rule write_string_frame)
  have clear: "terminal_color (clear_terminal s) = terminal_color s" "trace (clear_terminal s) = trace s"
    by (simp_all add: clear_terminal_eq)
  note p1 = shows_page_write_string [OF shows_page_clear [of s], of "''KERNEL PANIC: ''"]
  note p2 = shows_page_write_string [OF p1, of message]
  have "shows_page (page_write (terminal_color s) (LF # ''System halted.'') (page_write (terminal_color s)
      (cstr message) (page_write (terminal_color s) ''KERNEL PANIC: '' (blank_page (terminal_color s))))) ?s3"
    using shows_page_write_string [OF p2, of "LF # ''System halted.''"] by (simp add: color clear del: write_string.simps)
  moreover have "panic message s = ?s3\<lparr>if_flag := False, halted := True\<rparr>"
    by (simp add: panic_def cli_def halt_forever_def del: write_string.simps)
  ultimately show ?thesis
    by (simp add: page_write_def write_string_frame clear shows_page_def scrolled_off_def del: write_string.simps)
qed
end
