(* ===== verification/Logger.thy ===== *)
theory Logger
  imports Libc
begin

text \<open>
  The logger (\<^verbatim>\<open>src/logger.c\<close>): a ring buffer of 64 entries filled by the
  logging functions under an interrupt guard and emptied onto the console by
  \<^verbatim>\<open>logger_service\<close>, and the small formatter for \<^verbatim>\<open>%s\<close>, \<^verbatim>\<open>%d\<close> and \<^verbatim>\<open>%x\<close>. The ring
  buffer is shown to be a bounded queue that drops its oldest entry, as an
  interpretation of the interface \<^verbatim>\<open>bounded_fifo\<close>; the formatter is shown to
  be truncation of the text the format stands for.
\<close>

section \<open>Data\<close>

datatype LogLevel = LOG_LEVEL_DEBUG | LOG_LEVEL_INFO | LOG_LEVEL_WARNING | LOG_LEVEL_ERROR

primrec level_number :: "LogLevel \<Rightarrow> nat" where
  "level_number LOG_LEVEL_DEBUG = 0"
| "level_number LOG_LEVEL_INFO = 1"
| "level_number LOG_LEVEL_WARNING = 2"
| "level_number LOG_LEVEL_ERROR = 3"

text \<open>The C code compares levels as the integers of the enumeration.\<close>

lemma level_number_inj: "level_number a = level_number b \<Longrightarrow> a = b"
  by (cases a; cases b) simp_all

instantiation LogLevel :: linorder
begin

definition less_eq_LogLevel :: "LogLevel \<Rightarrow> LogLevel \<Rightarrow> bool" where
  "less_eq_LogLevel a b \<longleftrightarrow> level_number a \<le> level_number b"

definition less_LogLevel :: "LogLevel \<Rightarrow> LogLevel \<Rightarrow> bool" where
  "less_LogLevel a b \<longleftrightarrow> level_number a < level_number b"

instance
  by standard (auto simp: less_eq_LogLevel_def less_LogLevel_def intro: level_number_inj)

end

text \<open>
  The character arrays of an entry are the strings they hold, the terminator
  left out: at most 255 characters of message and 63 of module name.
\<close>

record LogEntry =
  level :: LogLevel
  message :: string
  log_module :: string

record LogBuffer =
  buffer :: "LogEntry list"
  head :: u32
  tail :: u32
  count :: u32

record logger = mem +
  interrupt_guard_counter :: u32
  g_log_buffer :: LogBuffer
  default_level :: LogLevel

abbreviation LOG_BUFFER_SIZE :: u32 where
  "LOG_BUFFER_SIZE \<equiv> 64"

section \<open>The ring buffer\<close>

definition logger_buffer_is_full :: "'z logger_scheme \<Rightarrow> bool" where
  "logger_buffer_is_full s \<longleftrightarrow> count (g_log_buffer s) \<ge> LOG_BUFFER_SIZE"

definition logger_buffer_is_empty :: "'z logger_scheme \<Rightarrow> bool" where
  "logger_buffer_is_empty s \<longleftrightarrow> count (g_log_buffer s) = 0"

definition logger_buffer_push :: "LogEntry \<Rightarrow> 'z logger_scheme \<Rightarrow> 'z logger_scheme" where
  "logger_buffer_push entry s =
     (let b = g_log_buffer s;
          b = (if logger_buffer_is_full s
               then b\<lparr>head := (head b + 1) mod LOG_BUFFER_SIZE, count := count b - 1\<rparr>
               else b);
          b = b\<lparr>buffer := (buffer b)[unat (tail b) := entry]\<rparr>;
          b = b\<lparr>tail := (tail b + 1) mod LOG_BUFFER_SIZE, count := count b + 1\<rparr>
      in s\<lparr>g_log_buffer := b\<rparr>)"

definition logger_buffer_pop :: "'z logger_scheme \<Rightarrow> LogEntry option \<times> 'z logger_scheme" where
  "logger_buffer_pop s =
     (if logger_buffer_is_empty s then (None, s)
      else let b = g_log_buffer s;
               entry = buffer b ! unat (head b);
               b = b\<lparr>head := (head b + 1) mod LOG_BUFFER_SIZE, count := count b - 1\<rparr>
           in (Some entry, s\<lparr>g_log_buffer := b\<rparr>))"

section \<open>The interrupt guard\<close>

definition interrupt_guard_acquire :: "'z logger_scheme \<Rightarrow> 'z logger_scheme" where
  "interrupt_guard_acquire s =
     (let s = cli s in s\<lparr>interrupt_guard_counter := interrupt_guard_counter s + 1\<rparr>)"

definition interrupt_guard_release :: "'z logger_scheme \<Rightarrow> 'z logger_scheme" where
  "interrupt_guard_release s =
     (let new_count = interrupt_guard_counter s - 1;
          s = s\<lparr>interrupt_guard_counter := new_count\<rparr>
      in if new_count = 0 then sti s else s)"

section \<open>Levels\<close>

definition logger_init :: "'z logger_scheme \<Rightarrow> 'z logger_scheme option" where
  "logger_init s =
     (let s = s\<lparr>g_log_buffer := (g_log_buffer s)\<lparr>head := 0, tail := 0, count := 0\<rparr>,
                default_level := LOG_LEVEL_INFO\<rparr>
      in output_string (''Logger initialized!'' @ [LF]) s)"

definition logger_get_module_level :: "string \<Rightarrow> 'z logger_scheme \<Rightarrow> LogLevel" where
  "logger_get_module_level module_name s = default_level s"

definition logger_set_module_level :: "string \<Rightarrow> LogLevel \<Rightarrow> 'z logger_scheme \<Rightarrow> 'z logger_scheme" where
  "logger_set_module_level module_name lvl s = s\<lparr>default_level := lvl\<rparr>"

primrec log_level_to_string :: "LogLevel \<Rightarrow> string" where
  "log_level_to_string LOG_LEVEL_DEBUG = ''DEBUG''"
| "log_level_to_string LOG_LEVEL_INFO = ''INFO''"
| "log_level_to_string LOG_LEVEL_WARNING = ''WARNING''"
| "log_level_to_string LOG_LEVEL_ERROR = ''ERROR''"

section \<open>Formatting\<close>

text \<open>
  A variable argument is a string pointer, possibly \<^verbatim>\<open>NULL\<close>, or an integer.
  Reading an argument that is not there, or of the other kind, is undefined in
  C: the result is then \<^const>\<open>None\<close>.
\<close>

datatype va_arg = ArgStr "string option" | ArgInt u32

text \<open>
  \<^verbatim>\<open>dst\<close> and \<^verbatim>\<open>written\<close> are the text written so far and its length; \<open>limit\<close> is
  \<^verbatim>\<open>buffer_size - 1\<close>.
\<close>

fun copy_bounded :: "nat \<Rightarrow> string \<Rightarrow> string \<Rightarrow> string" where
  "copy_bounded limit [] dst = dst"
| "copy_bounded limit (c # str) dst =
     (if c \<noteq> NUL \<and> length dst < limit then copy_bounded limit str (dst @ [c]) else dst)"

definition put_bounded :: "nat \<Rightarrow> char \<Rightarrow> string \<Rightarrow> string" where
  "put_bounded limit c dst = (if length dst < limit then dst @ [c] else dst)"

definition nibble_char :: "u32 \<Rightarrow> char" where
  "nibble_char digit =
     (if digit < 10 then char_of (48 + unat digit) else char_of (97 + (unat digit - 10)))"

function hex_temp :: "u32 \<Rightarrow> string \<Rightarrow> string" where
  "hex_temp n temp =
     (if n > 0 then hex_temp (drop_bit 4 n) (temp @ [nibble_char (n AND 0xF)]) else temp)"
  by pat_completeness auto

termination
proof (relation "measure (\<lambda>(n, _). unat n)")
  fix n :: u32 and temp :: string
  assume "n > 0"
  then have "unat n div 16 < unat n" by (simp add: word_less_nat_alt)
  then show "((drop_bit 4 n, temp @ [nibble_char (n AND 0xF)]), (n, temp)) \<in> measure (\<lambda>(n, _). unat n)"
    by (simp add: drop_bit_eq_div unat_div)
qed simp

declare hex_temp.simps [simp del]

definition put_hex_bounded :: "nat \<Rightarrow> u32 \<Rightarrow> string \<Rightarrow> string" where
  "put_hex_bounded limit num dst =
     (if num = 0 then put_bounded limit (CHR ''0'') dst
      else fold (put_bounded limit) (rev (hex_temp num [])) dst)"

fun format_loop :: "nat \<Rightarrow> string \<Rightarrow> va_arg list \<Rightarrow> string \<Rightarrow> string option" where
  "format_loop limit [] args dst = Some dst"
| "format_loop limit [c] args dst =
     (if c \<noteq> NUL \<and> length dst < limit then Some (dst @ [c]) else Some dst)"
| "format_loop limit (c # d # src) args dst =
     (if c \<noteq> NUL \<and> length dst < limit then
        if c = CHR ''%'' \<and> d \<noteq> NUL then
          if d = CHR ''s'' then
            (case args of ArgStr p # args' \<Rightarrow>
               format_loop limit src args' (case p of None \<Rightarrow> dst | Some str \<Rightarrow> copy_bounded limit str dst)
             | _ \<Rightarrow> None)
          else if d = CHR ''d'' then
            (case args of ArgInt num # args' \<Rightarrow>
               format_loop limit src args' (copy_bounded limit (int_to_string num) dst)
             | _ \<Rightarrow> None)
          else if d = CHR ''x'' then
            (case args of ArgInt num # args' \<Rightarrow>
               format_loop limit src args' (put_hex_bounded limit num dst)
             | _ \<Rightarrow> None)
          else format_loop limit src args (put_bounded limit d dst)
        else format_loop limit (d # src) args (dst @ [c])
      else Some dst)"

definition simple_format_string :: "u32 \<Rightarrow> string \<Rightarrow> va_arg list \<Rightarrow> string option" where
  "simple_format_string buffer_size format args =
     format_loop (unat (buffer_size - 1)) format args []"

section \<open>Logging\<close>

text \<open>The body the five logging functions share.\<close>

definition log_record ::
    "LogLevel \<Rightarrow> string \<Rightarrow> string \<Rightarrow> va_arg list \<Rightarrow> 'z logger_scheme \<Rightarrow> 'z logger_scheme option" where
  "log_record lvl module_name format args s =
     (let s = interrupt_guard_acquire s in
      do { text \<leftarrow> simple_format_string 256 format args;
           let s = logger_buffer_push
                     \<lparr>level = lvl, message = text, log_module = copy_bounded 63 module_name []\<rparr> s;
           Some (interrupt_guard_release s) })"

definition logger_log ::
    "LogLevel \<Rightarrow> string \<Rightarrow> string \<Rightarrow> va_arg list \<Rightarrow> 'z logger_scheme \<Rightarrow> 'z logger_scheme option" where
  "logger_log lvl module_name format args s =
     (let module_level = logger_get_module_level module_name s in
      if lvl < module_level then Some s else log_record lvl module_name format args s)"

definition logger_debug ::
    "string \<Rightarrow> string \<Rightarrow> va_arg list \<Rightarrow> 'z logger_scheme \<Rightarrow> 'z logger_scheme option" where
  "logger_debug module_name format args s =
     (if LOG_LEVEL_DEBUG \<ge> logger_get_module_level module_name s
      then log_record LOG_LEVEL_DEBUG module_name format args s else Some s)"

definition logger_info ::
    "string \<Rightarrow> string \<Rightarrow> va_arg list \<Rightarrow> 'z logger_scheme \<Rightarrow> 'z logger_scheme option" where
  "logger_info module_name format args s =
     (if LOG_LEVEL_INFO \<ge> logger_get_module_level module_name s
      then log_record LOG_LEVEL_INFO module_name format args s else Some s)"

definition logger_warning ::
    "string \<Rightarrow> string \<Rightarrow> va_arg list \<Rightarrow> 'z logger_scheme \<Rightarrow> 'z logger_scheme option" where
  "logger_warning module_name format args s =
     (if LOG_LEVEL_WARNING \<ge> logger_get_module_level module_name s
      then log_record LOG_LEVEL_WARNING module_name format args s else Some s)"

definition logger_error ::
    "string \<Rightarrow> string \<Rightarrow> va_arg list \<Rightarrow> 'z logger_scheme \<Rightarrow> 'z logger_scheme option" where
  "logger_error module_name format args s =
     (if LOG_LEVEL_ERROR \<ge> logger_get_module_level module_name s
      then log_record LOG_LEVEL_ERROR module_name format args s else Some s)"

definition print_entry :: "LogEntry \<Rightarrow> 'z logger_scheme \<Rightarrow> 'z logger_scheme option" where
  "print_entry entry s =
     do { s \<leftarrow> output_string ''['' s;
          s \<leftarrow> output_string (log_level_to_string (level entry)) s;
          s \<leftarrow> output_string ''] '' s;
          s \<leftarrow> output_string (log_module entry) s;
          s \<leftarrow> output_string '': '' s;
          s \<leftarrow> output_string (message entry) s;
          output_string [LF] s }"

partial_function (option) logger_service :: "'z logger_scheme \<Rightarrow> 'z logger_scheme option" where
  "logger_service s =
     (case logger_buffer_pop s of
        (None, s) \<Rightarrow> Some s
      | (Some entry, s) \<Rightarrow> Option.bind (print_entry entry s) logger_service)"

section \<open>The queue interface\<close>

text \<open>
  A bounded queue that drops its oldest element when it is full. \<open>contents\<close> is
  the queue, oldest first.
\<close>

locale bounded_fifo =
  fixes push :: "'e \<Rightarrow> 's \<Rightarrow> 's" and pop :: "'s \<Rightarrow> 'e option \<times> 's"
    and contents :: "'s \<Rightarrow> 'e list" and ok :: "'s \<Rightarrow> bool" and cap :: nat
  assumes cap_pos: "0 < cap"
    and push_ok: "ok s \<Longrightarrow> ok (push e s)"
    and push_contents: "ok s \<Longrightarrow> contents (push e s)
          = (if length (contents s) < cap then contents s else tl (contents s)) @ [e]"
    and pop_ok: "ok s \<Longrightarrow> ok (snd (pop s))"
    and pop_empty: "ok s \<Longrightarrow> contents s = [] \<Longrightarrow> pop s = (None, s)"
    and pop_first: "ok s \<Longrightarrow> contents s = e # es \<Longrightarrow> fst (pop s) = Some e \<and> contents (snd (pop s)) = es"
    and bounded: "ok s \<Longrightarrow> length (contents s) \<le> cap"

fun pop_all :: "('s \<Rightarrow> 'e option \<times> 's) \<Rightarrow> nat \<Rightarrow> 's \<Rightarrow> 'e list \<times> 's" where
  "pop_all pop 0 s = ([], s)"
| "pop_all pop (Suc n) s = (case pop s of (None, t) \<Rightarrow> ([], t)
     | (Some e, t) \<Rightarrow> (case pop_all pop n t of (es, u) \<Rightarrow> (e # es, u)))"

context bounded_fifo
begin

text \<open>After any number of pushes the queue holds the latest \<open>cap\<close> elements.\<close>

lemma pushes_ok: "ok s \<Longrightarrow> ok (fold push es s)"
  by (induction es arbitrary: s) (simp_all add: push_ok)

lemma pushes_contents:
  "ok s \<Longrightarrow> contents (fold push es s) = drop (length (contents s) + length es - cap) (contents s @ es)"
proof (induction es arbitrary: s)
  case Nil
  with bounded [OF Nil] show ?case by simp
next
  case (Cons e es)
  let ?c = "contents s"
  have "contents (fold push es (push e s))
      = drop (length (contents (push e s)) + length es - cap) (contents (push e s) @ es)"
    by (rule Cons.IH) (rule push_ok [OF Cons.prems])
  also have "\<dots> = drop (length ?c + Suc (length es) - cap) (?c @ e # es)"
  proof (cases "length ?c < cap")
    case True
    then show ?thesis by (simp add: push_contents [OF Cons.prems])
  next
    case False
    with bounded [OF Cons.prems] have len: "length ?c = cap" by simp
    with cap_pos obtain x xs where "?c = x # xs" by (cases ?c) auto
    with len False show ?thesis by (simp add: push_contents [OF Cons.prems])
  qed
  finally show ?case by simp
qed

text \<open>Popping yields the queue in order.\<close>

lemma pop_all_contents:
  "ok s \<Longrightarrow> length (contents s) \<le> n \<Longrightarrow>
     fst (pop_all pop n s) = contents s \<and> contents (snd (pop_all pop n s)) = [] \<and> ok (snd (pop_all pop n s))"
proof (induction n arbitrary: s)
  case (Suc n)
  show ?case
  proof (cases "contents s")
    case Nil
    with pop_empty Suc.prems show ?thesis by simp
  next
    case (Cons e es)
    from pop_first [OF Suc.prems(1) Cons] obtain t where t: "pop s = (Some e, t)" "contents t = es"
      by (metis prod.collapse)
    with pop_ok [OF Suc.prems(1)] Suc.IH [of t] Suc.prems Cons show ?thesis
      by (auto split: prod.splits)
  qed
qed simp

end

section \<open>The ring buffer is a bounded queue\<close>

definition log_ok :: "'z logger_scheme \<Rightarrow> bool" where
  "log_ok s \<longleftrightarrow> (let b = g_log_buffer s in
     length (buffer b) = 64 \<and> unat (head b) < 64 \<and> unat (tail b) < 64 \<and> unat (count b) \<le> 64
     \<and> unat (tail b) = (unat (head b) + unat (count b)) mod 64)"

definition log_queue :: "'z logger_scheme \<Rightarrow> LogEntry list" where
  "log_queue s = (let b = g_log_buffer s in
     map (\<lambda>i. buffer b ! ((unat (head b) + i) mod 64)) [0..<unat (count b)])"

lemma length_log_queue [simp]: "length (log_queue s) = unat (count (g_log_buffer s))"
  by (simp add: log_queue_def Let_def)

lemma unat_inc_mod: "unat (x :: u32) < 64 \<Longrightarrow> unat ((x + 1) mod 64) = Suc (unat x) mod 64"
  by (simp add: unat_mod unat_add_no_wrap)

lemma ring_shift: "c \<noteq> 0 \<Longrightarrow> (Suc h mod 64 + (c - Suc 0)) mod 64 = (h + c) mod (64 :: nat)"
  by (simp only: mod_add_left_eq) simp

lemma ring_distinct:
  assumes "i < c" and "c < 64"
  shows "(h + i) mod 64 \<noteq> (h + c) mod (64 :: nat)"
proof
  assume "(h + i) mod 64 = (h + c) mod 64"
  then have "64 dvd h + c - (h + i)" using assms(1) by (metis mod_eq_dvd_iff_nat nat_add_left_cancel_le less_imp_le)
  with assms show False by (auto dest: dvd_imp_le)
qed

lemma full_iff: "log_ok s \<Longrightarrow> logger_buffer_is_full s \<longleftrightarrow> unat (count (g_log_buffer s)) = 64"
  by (auto simp: log_ok_def Let_def logger_buffer_is_full_def word_le_nat_alt)

lemma empty_iff: "logger_buffer_is_empty s \<longleftrightarrow> log_queue s = []"
  by (auto simp: logger_buffer_is_empty_def log_queue_def Let_def unat_eq_0)

text \<open>Dropping the oldest entry, as a full push and a pop do.\<close>

definition drop_oldest :: "LogBuffer \<Rightarrow> LogBuffer" where
  "drop_oldest b = b\<lparr>head := (head b + 1) mod LOG_BUFFER_SIZE, count := count b - 1\<rparr>"

lemma drop_oldest_ok:
  assumes "log_ok s" and "log_queue s \<noteq> []"
  shows "log_ok (s\<lparr>g_log_buffer := drop_oldest (g_log_buffer s)\<rparr>)"
    and "log_queue (s\<lparr>g_log_buffer := drop_oldest (g_log_buffer s)\<rparr>) = tl (log_queue s)"
proof -
  let ?b = "g_log_buffer s"
  have c: "unat (count ?b) \<noteq> 0" using assms(2) by (simp add: log_queue_def Let_def)
  then have cm: "unat (count ?b - 1) = unat (count ?b) - 1" by (simp add: unat_sub_no_wrap)
  have ok: "unat (head ?b) < 64" "unat (tail ?b) < 64" "unat (count ?b) \<le> 64" "length (buffer ?b) = 64"
    "unat (tail ?b) = (unat (head ?b) + unat (count ?b)) mod 64"
    using assms(1) by (simp_all add: log_ok_def Let_def)
  have "(Suc (unat (head ?b)) mod 64 + (unat (count ?b) - 1)) mod 64 = unat (tail ?b)"
    using c ok(5) ring_shift by simp
  then show "log_ok (s\<lparr>g_log_buffer := drop_oldest ?b\<rparr>)"
    using ok c by (simp add: log_ok_def Let_def drop_oldest_def unat_inc_mod cm)
  have split: "[0..<unat (count ?b)] = 0 # map Suc [0..<unat (count ?b) - 1]"
    using c by (simp add: map_Suc_upt upt_conv_Cons)
  show "log_queue (s\<lparr>g_log_buffer := drop_oldest ?b\<rparr>) = tl (log_queue s)"
    using ok unfolding log_queue_def Let_def split
    by (simp add: drop_oldest_def unat_inc_mod cm mod_simps)
qed

definition append_entry :: "LogEntry \<Rightarrow> LogBuffer \<Rightarrow> LogBuffer" where
  "append_entry e b = b\<lparr>buffer := (buffer b)[unat (tail b) := e],
     tail := (tail b + 1) mod LOG_BUFFER_SIZE, count := count b + 1\<rparr>"

lemma append_entry_ok:
  assumes "log_ok s" and "unat (count (g_log_buffer s)) < 64"
  shows "log_ok (s\<lparr>g_log_buffer := append_entry e (g_log_buffer s)\<rparr>)"
    and "log_queue (s\<lparr>g_log_buffer := append_entry e (g_log_buffer s)\<rparr>) = log_queue s @ [e]"
proof -
  let ?b = "g_log_buffer s"
  have cp: "unat (count ?b + 1) = Suc (unat (count ?b))" using assms(2) by (simp add: unat_add_no_wrap)
  have ok: "unat (head ?b) < 64" "unat (tail ?b) < 64" "unat (count ?b) \<le> 64" "length (buffer ?b) = 64"
    "unat (tail ?b) = (unat (head ?b) + unat (count ?b)) mod 64"
    using assms(1) by (simp_all add: log_ok_def Let_def)
  show "log_ok (s\<lparr>g_log_buffer := append_entry e ?b\<rparr>)"
    using ok assms(2) by (simp add: log_ok_def Let_def append_entry_def unat_inc_mod cp mod_simps)
  have "(unat (head ?b) + i) mod 64 \<noteq> unat (tail ?b)" if "i < unat (count ?b)" for i
    using ring_distinct [OF that assms(2)] ok(5) by simp
  then show "log_queue (s\<lparr>g_log_buffer := append_entry e ?b\<rparr>) = log_queue s @ [e]"
    using ok by (auto simp: log_queue_def Let_def append_entry_def cp nth_list_update) blast
qed

lemma push_eq:
  "logger_buffer_push e s = s\<lparr>g_log_buffer := append_entry e
     (if logger_buffer_is_full s then drop_oldest (g_log_buffer s) else g_log_buffer s)\<rparr>"
  by (simp add: logger_buffer_push_def Let_def append_entry_def drop_oldest_def)

lemma pop_eq:
  "logger_buffer_pop s = (if log_queue s = [] then (None, s)
     else (Some (buffer (g_log_buffer s) ! unat (head (g_log_buffer s))),
           s\<lparr>g_log_buffer := drop_oldest (g_log_buffer s)\<rparr>))"
  by (simp add: logger_buffer_pop_def Let_def drop_oldest_def empty_iff)

lemma push_ok_contents:
  assumes "log_ok s"
  shows "log_ok (logger_buffer_push e s)"
    and "log_queue (logger_buffer_push e s)
      = (if length (log_queue s) < 64 then log_queue s else tl (log_queue s)) @ [e]"
proof -
  let ?d = "s\<lparr>g_log_buffer := drop_oldest (g_log_buffer s)\<rparr>"
  let ?c = "unat (count (g_log_buffer s))"
  have full: "logger_buffer_is_full s \<longleftrightarrow> ?c = 64" by (rule full_iff [OF assms])
  have le: "?c \<le> 64" using assms by (simp add: log_ok_def Let_def)
  show "log_ok (logger_buffer_push e s)" "log_queue (logger_buffer_push e s)
      = (if length (log_queue s) < 64 then log_queue s else tl (log_queue s)) @ [e]"
  proof (atomize (full), cases "?c = 64")
    case True
    then have ne: "log_queue s \<noteq> []" by (auto simp flip: length_0_conv)
    note d = drop_oldest_ok [OF assms ne]
    have "unat (count (g_log_buffer ?d)) = length (tl (log_queue s))"
      using d(2) length_log_queue [of ?d] by metis
    then have "unat (count (g_log_buffer ?d)) < 64" using True by simp
    with append_entry_ok [OF d(1), of e] d(2) full True
    show "log_ok (logger_buffer_push e s) \<and> log_queue (logger_buffer_push e s)
      = (if length (log_queue s) < 64 then log_queue s else tl (log_queue s)) @ [e]"
      by (simp add: push_eq)
  next
    case False
    with le append_entry_ok [OF assms, of e] full
    show "log_ok (logger_buffer_push e s) \<and> log_queue (logger_buffer_push e s)
      = (if length (log_queue s) < 64 then log_queue s else tl (log_queue s)) @ [e]"
      by (simp add: push_eq)
  qed
qed

interpretation log: bounded_fifo logger_buffer_push logger_buffer_pop log_queue log_ok 64
proof
  fix s :: "'z logger_scheme" and e es
  show "(0 :: nat) < 64" by simp
  assume ok: "log_ok s"
  show "log_ok (logger_buffer_push e s)" "log_queue (logger_buffer_push e s)
      = (if length (log_queue s) < 64 then log_queue s else tl (log_queue s)) @ [e]"
    using push_ok_contents [OF ok] .
  show "log_ok (snd (logger_buffer_pop s))" using ok drop_oldest_ok(1) [OF ok] by (simp add: pop_eq)
  show "logger_buffer_pop s = (None, s)" if "log_queue s = []" using that by (simp add: pop_eq)
  show "fst (logger_buffer_pop s) = Some e \<and> log_queue (snd (logger_buffer_pop s)) = es"
    if "log_queue s = e # es"
  proof -
    from that have "hd (log_queue s) = e" "unat (count (g_log_buffer s)) \<noteq> 0"
      by (simp, metis length_log_queue length_0_conv list.distinct(1))
    moreover have "unat (head (g_log_buffer s)) < 64" using ok by (simp add: log_ok_def Let_def)
    ultimately have "buffer (g_log_buffer s) ! unat (head (g_log_buffer s)) = e"
      by (simp add: log_queue_def Let_def hd_map upt_conv_Cons)
    with that drop_oldest_ok(2) [OF ok] show ?thesis by (simp add: pop_eq)
  qed
  show "length (log_queue s) \<le> 64" using ok by (simp add: log_ok_def Let_def)
qed

section \<open>What the formatter means\<close>

text \<open>Lower-case hexadecimal numerals without leading zeros.\<close>

definition lhex_digit :: "nat \<Rightarrow> char" where
  "lhex_digit d = (if d < 10 then char_of (48 + d) else char_of (97 + (d - 10)))"

fun lhex :: "nat \<Rightarrow> string" where
  "lhex n = (if n < 16 then [lhex_digit n] else lhex (n div 16) @ [lhex_digit (n mod 16)])"

declare lhex.simps [simp del]

text \<open>The text a format stands for, without a bound on its length.\<close>

fun format_ref :: "string \<Rightarrow> va_arg list \<Rightarrow> string option" where
  "format_ref [] args = Some []"
| "format_ref [c] args = Some (if c = NUL then [] else [c])"
| "format_ref (c # d # src) args =
     (if c = NUL then Some []
      else if c = CHR ''%'' \<and> d \<noteq> NUL then
        if d = CHR ''s'' then
          (case args of ArgStr p # args' \<Rightarrow>
             map_option ((@) (case p of None \<Rightarrow> [] | Some str \<Rightarrow> cstr str)) (format_ref src args')
           | _ \<Rightarrow> None)
        else if d = CHR ''d'' then
          (case args of ArgInt num # args' \<Rightarrow> map_option ((@) (cstr (int_to_string num))) (format_ref src args')
           | _ \<Rightarrow> None)
        else if d = CHR ''x'' then
          (case args of ArgInt num # args' \<Rightarrow> map_option ((@) (lhex (unat num))) (format_ref src args')
           | _ \<Rightarrow> None)
        else map_option ((#) d) (format_ref src args)
      else map_option ((#) c) (format_ref (d # src) args))"

lemma copy_bounded_eq: "copy_bounded limit str dst = dst @ take (limit - length dst) (cstr str)"
proof (induction limit str dst rule: copy_bounded.induct)
  case (2 limit c str dst)
  then show ?case by (auto simp: Suc_diff_Suc take_Cons')
qed simp

lemma fold_put_bounded: "fold (put_bounded limit) cs dst = dst @ take (limit - length dst) cs"
  by (induction cs arbitrary: dst) (auto simp: put_bounded_def take_Cons' Suc_diff_Suc)

lemma nibble_char_eq: "nibble_char (n AND 0xF) = lhex_digit (unat n mod 16)"
  by (auto simp: nibble_char_def lhex_digit_def word_less_nat_alt unat_low_nibble)

lemma hex_temp_eq: "n \<noteq> 0 \<Longrightarrow> hex_temp n temp = temp @ rev (lhex (unat n))"
proof (induction n temp rule: hex_temp.induct)
  case (1 n temp)
  have d: "unat (drop_bit 4 n) = unat n div 16" by (simp add: drop_bit_eq_div unat_div)
  have pos: "0 < n" using "1.prems" by (simp add: word_gt_0)
  show ?case
  proof (cases "unat n < 16")
    case True
    then have "drop_bit 4 n = 0" using d by (simp add: unat_eq_0 [symmetric])
    with True pos show ?thesis
      by (simp add: hex_temp.simps [of n] hex_temp.simps [of 0] lhex.simps [of "unat n"] nibble_char_eq)
  next
    case False
    then have "drop_bit 4 n \<noteq> 0" using d by (auto simp: unat_eq_0 [symmetric])
    with "1.IH" [OF pos] False pos show ?thesis
      by (simp add: hex_temp.simps [of n] lhex.simps [of "unat n"] nibble_char_eq d)
  qed
qed

lemma char_of_48: "char_of (48 :: nat) = CHR ''0''"
  by code_simp

lemma put_hex_bounded_eq: "put_hex_bounded limit num dst = dst @ take (limit - length dst) (lhex (unat num))"
proof (cases "num = 0")
  case True
  then show ?thesis
    by (simp add: put_hex_bounded_def put_bounded_def lhex.simps [of 0] lhex_digit_def take_Cons' char_of_48)
next
  case False
  then show ?thesis by (simp add: put_hex_bounded_def hex_temp_eq fold_put_bounded)
qed

text \<open>A bounded append is a step towards the truncated text.\<close>

lemma bounded_append:
  assumes "length dst \<le> limit"
  shows "length (dst @ take (limit - length dst) x) \<le> limit"
    and "take limit ((dst @ take (limit - length dst) x) @ z) = take limit (dst @ x @ z)"
  using assms by (auto simp: min_def)

lemma format_loop_eq:
  "format_ref src args = Some full \<Longrightarrow> length dst \<le> limit
     \<Longrightarrow> format_loop limit src args dst = Some (take limit (dst @ full))"
proof (induction limit src args dst arbitrary: full rule: format_loop.induct)
  case (3 limit c d src args dst)
  show ?case
  proof (cases "c \<noteq> NUL \<and> length dst < limit")
    case True
    show ?thesis
    proof (cases "c = CHR ''%'' \<and> d \<noteq> NUL")
      case False
      with 3 True show ?thesis by auto
    next
      case spec: True
      consider "d = CHR ''s''" | "d = CHR ''d''" | "d = CHR ''x''"
        | "d \<noteq> CHR ''s'' \<and> d \<noteq> CHR ''d'' \<and> d \<noteq> CHR ''x''" by blast
      then show ?thesis
      proof cases
        case 1
        with "3.prems"(1) True spec obtain q args' z where a: "args = ArgStr q # args'"
          "format_ref src args' = Some z" "full = (case q of None \<Rightarrow> [] | Some str \<Rightarrow> cstr str) @ z"
          by (auto split: list.splits va_arg.splits)
        have "(case q of None \<Rightarrow> dst | Some str \<Rightarrow> copy_bounded limit str dst)
            = dst @ take (limit - length dst) (case q of None \<Rightarrow> [] | Some str \<Rightarrow> cstr str)"
          by (cases q) (simp_all add: copy_bounded_eq)
        with 1 "3.IH"(1) [OF True spec 1 a(1) refl a(2)] True spec a bounded_append [OF "3.prems"(2)]
        show ?thesis by (simp del: append_assoc take_append length_append)
      next
        case 2
        with "3.prems"(1) True spec obtain num args' z where a: "args = ArgInt num # args'"
          "format_ref src args' = Some z" "full = cstr (int_to_string num) @ z"
          by (auto split: list.splits va_arg.splits)
        with 2 "3.IH"(2) [OF True spec _ 2 a(1) refl a(2)] True spec bounded_append [OF "3.prems"(2)]
        show ?thesis by (simp del: append_assoc take_append length_append add: copy_bounded_eq)
      next
        case 3
        with "3.prems"(1) True spec obtain num args' z where a: "args = ArgInt num # args'"
          "format_ref src args' = Some z" "full = lhex (unat num) @ z"
          by (auto split: list.splits va_arg.splits)
        with 3 "3.IH"(3) [OF True spec _ _ 3 a(1) refl a(2)] True spec bounded_append [OF "3.prems"(2)]
        show ?thesis by (simp del: append_assoc take_append length_append add: put_hex_bounded_eq)
      next
        case 4
        with "3.IH"(4) "3.prems" True spec show ?thesis by (auto simp: put_bounded_def)
      qed
    qed
  next
    case False
    with "3.prems" show ?thesis by auto
  qed
qed (auto simp: take_Cons')

section \<open>Logging and the guard\<close>

text \<open>Logging changes the interrupt flag, the guard counter and the ring buffer only.\<close>

definition same_but_log :: "'z logger_scheme \<Rightarrow> 'z logger_scheme \<Rightarrow> bool" where
  "same_but_log s t \<longleftrightarrow> t = s\<lparr>if_flag := if_flag t,
     interrupt_guard_counter := interrupt_guard_counter t, g_log_buffer := g_log_buffer t\<rparr>"

lemma same_but_log_refl [simp]: "same_but_log s s"
  by (simp add: same_but_log_def)

lemma same_but_log_trans: "same_but_log s t \<Longrightarrow> same_but_log t u \<Longrightarrow> same_but_log s u"
  by (cases s; cases t; cases u) (simp add: same_but_log_def)

lemma same_but_log_level: "same_but_log s t \<Longrightarrow> default_level t = default_level s \<and> device t = device s \<and> trace t = trace s"
  by (cases s; cases t) (simp add: same_but_log_def)

lemma guarded_push:
  fixes s :: "'z logger_scheme" and e
  defines "t \<equiv> interrupt_guard_release (logger_buffer_push e (interrupt_guard_acquire s))"
  shows "same_but_log s t" and "interrupt_guard_counter t = interrupt_guard_counter s"
    and "if_flag t \<longleftrightarrow> interrupt_guard_counter s = 0"
    and "log_ok s \<Longrightarrow> log_ok t"
    and "log_ok s \<Longrightarrow> log_queue t = log_queue (logger_buffer_push e s)"
proof -
  let ?a = "interrupt_guard_acquire s"
  have b: "g_log_buffer t = g_log_buffer (logger_buffer_push e s)"
    by (simp add: t_def interrupt_guard_release_def interrupt_guard_acquire_def logger_buffer_push_def
        logger_buffer_is_full_def cli_def sti_def Let_def)
  show "same_but_log s t"
    by (cases s) (simp add: same_but_log_def t_def interrupt_guard_release_def interrupt_guard_acquire_def
        logger_buffer_push_def cli_def sti_def Let_def)
  show "interrupt_guard_counter t = interrupt_guard_counter s" "if_flag t \<longleftrightarrow> interrupt_guard_counter s = 0"
    by (simp_all add: t_def interrupt_guard_release_def interrupt_guard_acquire_def
        logger_buffer_push_def cli_def sti_def Let_def)
  show "log_ok s \<Longrightarrow> log_ok t" using push_ok_contents(1) [of s e] b by (simp add: log_ok_def)
  show "log_queue t = log_queue (logger_buffer_push e s)" if "log_ok s" using b by (simp add: log_queue_def)
qed

text \<open>The entry a logging call makes.\<close>

definition log_entry :: "LogLevel \<Rightarrow> string \<Rightarrow> string \<Rightarrow> LogEntry" where
  "log_entry lvl module_name full =
     \<lparr>level = lvl, message = take 255 full, log_module = take 63 (cstr module_name)\<rparr>"

lemma log_record_eq:
  assumes "format_ref format args = Some full"
  shows "log_record lvl m format args s = Some (interrupt_guard_release
     (logger_buffer_push (log_entry lvl m full) (interrupt_guard_acquire s)))"
proof -
  have "unat (256 - 1 :: u32) = 255" by simp
  then have "simple_format_string 256 format args = Some (take 255 full)"
    using format_loop_eq [OF assms, of "[]" 255] by (simp add: simple_format_string_def)
  then show ?thesis by (simp add: log_record_def log_entry_def copy_bounded_eq Let_def)
qed

text \<open>The four fixed-level functions are \<^const>\<open>logger_log\<close> at their level.\<close>

lemma logger_at_level:
  "logger_debug m f a s = logger_log LOG_LEVEL_DEBUG m f a s"
  "logger_info m f a s = logger_log LOG_LEVEL_INFO m f a s"
  "logger_warning m f a s = logger_log LOG_LEVEL_WARNING m f a s"
  "logger_error m f a s = logger_log LOG_LEVEL_ERROR m f a s"
  by (auto simp: logger_debug_def logger_info_def logger_warning_def logger_error_def logger_log_def
      Let_def not_less)

lemma logger_log_laws:
  assumes "log_ok s" and "format_ref format args = Some full"
  shows "\<exists>t. logger_log lvl m format args s = Some t \<and> log_ok t \<and> same_but_log s t
     \<and> interrupt_guard_counter t = interrupt_guard_counter s
     \<and> (lvl < default_level s \<longrightarrow> t = s)
     \<and> (default_level s \<le> lvl \<longrightarrow> log_queue t = log_queue (logger_buffer_push (log_entry lvl m full) s)
           \<and> (if_flag t \<longleftrightarrow> interrupt_guard_counter s = 0))"
  using guarded_push [where s = s and e = "log_entry lvl m full"] assms
  by (auto simp: logger_log_def logger_get_module_level_def Let_def log_record_eq [OF assms(2)] not_less)

section \<open>Printing the log\<close>

definition entry_text :: "LogEntry \<Rightarrow> string" where
  "entry_text e = ''['' @ log_level_to_string (level e) @ ''] '' @ cstr (log_module e) @ '': ''
     @ cstr (message e) @ [LF]"

lemma NUL_notin_level [simp]: "NUL \<notin> set (log_level_to_string lvl)"
  by (cases lvl) simp_all

lemma print_entry_prints: "prints (print_entry e) (entry_text e)"
  unfolding print_entry_def [abs_def] entry_text_def
  by (intro prints_seq prints_output_string prints_literal) simp_all

lemma same_but_console_log:
  "same_but_console s t \<Longrightarrow> g_log_buffer (t :: 'z logger_scheme) = g_log_buffer s"
  by (cases s; cases t) (simp add: same_but_console_def)

text \<open>Servicing the log empties the ring buffer onto the console.\<close>

definition same_but_log_console :: "'z logger_scheme \<Rightarrow> 'z logger_scheme \<Rightarrow> bool" where
  "same_but_log_console s t \<longleftrightarrow> same_but_console (s\<lparr>g_log_buffer := g_log_buffer t\<rparr>) t"

lemma same_but_log_console_step:
  "same_but_console (s\<lparr>g_log_buffer := b\<rparr>) t \<Longrightarrow> same_but_log_console t u \<Longrightarrow> same_but_log_console s u"
  by (cases s; cases t; cases u) (simp add: same_but_log_console_def same_but_console_def)

lemma logger_service_run:
  "log_ok s \<Longrightarrow> log_queue s = es \<Longrightarrow> uart_drains (device s) \<Longrightarrow>
     \<exists>t. logger_service s = Some t \<and> sent t = sent s @ map of_char (crlf (concat (map entry_text es)))
       \<and> log_queue t = [] \<and> log_ok t \<and> same_but_log_console s t \<and> buffer (g_log_buffer t) = buffer (g_log_buffer s)"
proof (induction es arbitrary: s)
  case Nil
  from log.pop_empty [OF Nil(1,2)] have "logger_service s = Some s"
    by (subst logger_service.simps) simp
  with Nil show ?case by (simp add: same_but_log_console_def)
next
  case (Cons e es)
  let ?s = "s\<lparr>g_log_buffer := drop_oldest (g_log_buffer s)\<rparr>"
  from log.pop_first [OF Cons.prems(1,2)] Cons.prems(2) have pop: "logger_buffer_pop s = (Some e, ?s)"
    and q: "log_queue ?s = es" by (auto simp: pop_eq)
  have ok: "log_ok ?s" using log.pop_ok [OF Cons.prems(1)] pop by simp
  have "uart_drains (device ?s)" using Cons.prems(3) by simp
  from printsD [OF print_entry_prints this, of e] obtain t where t: "print_entry e ?s = Some t"
    "sent t = sent ?s @ map of_char (crlf (entry_text e))" "same_but_console ?s t" "uart_drains (device t)"
    by metis
  have b: "g_log_buffer t = g_log_buffer ?s" using t(3) by (rule same_but_console_log)
  then have "log_ok t" "log_queue t = es" using ok q by (simp_all add: log_ok_def log_queue_def)
  from Cons.IH [OF this t(4)] obtain u where u: "logger_service t = Some u"
    "sent u = sent t @ map of_char (crlf (concat (map entry_text es)))"
    "log_queue u = []" "log_ok u" "same_but_log_console t u" "buffer (g_log_buffer u) = buffer (g_log_buffer t)" by blast
  have "logger_service s = Some u"
    using pop t(1) u(1) by (subst logger_service.simps) simp
  moreover have "sent ?s = sent s" by (simp add: sent_def)
  ultimately show ?case
    using t u b same_but_log_console_step [OF t(3) u(5)] by (auto simp: crlf_append drop_oldest_def)
qed

section \<open>The arrays of the entries\<close>

definition entry_fits :: "LogEntry \<Rightarrow> bool" where
  "entry_fits e \<longleftrightarrow> length (message e) < 256 \<and> length (log_module e) < 64"

definition slots_fit :: "LogBuffer \<Rightarrow> bool" where
  "slots_fit b \<longleftrightarrow> (\<forall>e \<in> set (buffer b). entry_fits e)"

definition log_typed :: "'z logger_scheme \<Rightarrow> bool" where
  "log_typed s \<longleftrightarrow> log_ok s \<and> slots_fit (g_log_buffer s)"

lemma log_entry_fits: "entry_fits (log_entry lvl m full)"
  by (auto simp: entry_fits_def log_entry_def min_def)

lemma push_fits: "slots_fit (g_log_buffer s) \<Longrightarrow> entry_fits e \<Longrightarrow> slots_fit (g_log_buffer (logger_buffer_push e s))"
  using set_update_subset_insert by (fastforce simp: slots_fit_def push_eq append_entry_def drop_oldest_def)

lemma log_typed_guarded:
  "log_typed s \<Longrightarrow> entry_fits e \<Longrightarrow> log_typed (interrupt_guard_release (logger_buffer_push e (interrupt_guard_acquire s)))"
  using guarded_push(4) [of s e] push_fits [of "interrupt_guard_acquire s" e]
  by (simp add: log_typed_def interrupt_guard_release_def interrupt_guard_acquire_def cli_def sti_def Let_def)

lemma log_typed_cong: "g_log_buffer s = g_log_buffer t \<Longrightarrow> log_typed s = log_typed t"
  by (simp add: log_typed_def log_ok_def)

section \<open>Properties\<close>

definition empty_log :: "LogBuffer" where
  "empty_log = \<lparr>buffer = replicate 64 \<lparr>level = LOG_LEVEL_DEBUG, message = [], log_module = []\<rparr>,
     head = 0, tail = 0, count = 0\<rparr>"

definition logger_boot :: "device_fn \<Rightarrow> logger" where
  "logger_boot d = mem.extend (mem_boot d)
     \<lparr>interrupt_guard_counter = 0, g_log_buffer = empty_log, default_level = LOG_LEVEL_INFO\<rparr>"

lemma logger_boot_simps [simp]:
  "device (logger_boot d) = d" "trace (logger_boot d) = []" "if_flag (logger_boot d) = False"
  "interrupt_guard_counter (logger_boot d) = 0"
  "g_log_buffer (logger_boot d) = empty_log" "default_level (logger_boot d) = LOG_LEVEL_INFO"
  by (simp_all add: logger_boot_def mem_boot_def terminal_boot_def ports_boot_def
      ports.defs terminal.defs mem.defs logger.defs)

lemma logger_boot_ok [simp]: "log_ok (logger_boot d)" "log_queue (logger_boot d) = []"
  by (simp_all add: log_ok_def log_queue_def empty_log_def)

text \<open>
  C13 (the ring buffer is a bounded queue). Pushing any entries in turn leaves
  the latest 64 of what was queued and pushed, in order, and popping them all
  yields exactly those and leaves the buffer empty.
\<close>

theorem log_buffer_fifo:
  assumes "log_ok s"
  shows "let q = drop (length (log_queue s) + length es - 64) (log_queue s @ es);
             t = fold logger_buffer_push es s
         in log_ok t \<and> log_queue t = q \<and> length q \<le> 64
            \<and> fst (pop_all logger_buffer_pop 64 t) = q
            \<and> log_queue (snd (pop_all logger_buffer_pop 64 t)) = []"
proof -
  let ?t = "fold logger_buffer_push es s"
  have ok: "log_ok ?t" by (rule log.pushes_ok [OF assms])
  show ?thesis
    using ok log.pushes_contents [OF assms, of es] log.bounded [OF ok] log.pop_all_contents [OF ok, of 64]
    by (simp add: Let_def)
qed

theorem log_buffer_fifo_witness:
  "log_queue (fold logger_buffer_push [log_entry LOG_LEVEL_INFO ''a'' ''b''] (logger_boot uart_ready))
     = [log_entry LOG_LEVEL_INFO ''a'' ''b'']"
  using log_buffer_fifo [OF logger_boot_ok(1) [of uart_ready], of "[log_entry LOG_LEVEL_INFO ''a'' ''b'']"]
  by (simp add: Let_def)

text \<open>
  C19 (formatting). Where every conversion of the format has its argument the
  formatter writes the text the format stands for, cut to one less than the
  buffer size: it never writes past the buffer, terminator included.
\<close>

theorem simple_format_string_truncates:
  assumes "format_ref format args = Some full" and "0 < buffer_size"
  shows "simple_format_string buffer_size format args = Some (take (unat buffer_size - 1) full)
     \<and> length (take (unat buffer_size - 1) full) + 1 \<le> unat buffer_size"
proof -
  have pos: "0 < unat buffer_size" using assms(2) by (simp add: word_less_nat_alt)
  then have "unat (buffer_size - 1) = unat buffer_size - 1" by (simp add: unat_sub_no_wrap)
  with format_loop_eq [OF assms(1), of "[]" "unat buffer_size - 1"] pos show ?thesis
    by (simp add: simple_format_string_def)
qed

theorem simple_format_string_truncates_witness:
  "simple_format_string 16 ''%s=%d (0x%x)%%'' [ArgStr (Some ''ticks''), ArgInt 0xFFFFFFF6, ArgInt 0xBEEF]
     = Some ''ticks=-10 (0xbe''"
proof -
  have "format_ref ''%s=%d (0x%x)%%'' [ArgStr (Some ''ticks''), ArgInt 0xFFFFFFF6, ArgInt 0xBEEF]
      = Some ''ticks=-10 (0xbeef)%''"
  proof -
    have "lhex_digit 11 = CHR ''b''" "lhex_digit 14 = CHR ''e''" "lhex_digit 15 = CHR ''f''" by code_simp+
    then have "lhex (unat (0xBEEF :: u32)) = ''beef''" by (simp add: lhex.simps)
    moreover have "int_to_string 0xFFFFFFF6 = ''-10''" by code_simp
    ultimately show ?thesis by simp
  qed
  from simple_format_string_truncates [OF this, of 16] show ?thesis by simp
qed

text \<open>
  C29 (logging). A call below the module's level changes nothing; any other
  call queues one entry with the level, the message cut to 255 characters and
  the module name cut to 63, dropping the oldest entry of a full buffer. The
  guard counter is as before, and nothing but the log and the interrupt flag
  changes.
\<close>

theorem logger_log_queues:
  assumes "log_ok s" and "format_ref format args = Some full"
  shows "\<exists>t. logger_log lvl m format args s = Some t \<and> log_ok t \<and> same_but_log s t
     \<and> interrupt_guard_counter t = interrupt_guard_counter s
     \<and> log_queue t = (if lvl < default_level s then log_queue s
          else drop (length (log_queue s) + 1 - 64) (log_queue s @
            [\<lparr>level = lvl, message = take 255 full, log_module = take 63 (cstr m)\<rparr>]))
     \<and> (lvl < default_level s \<longrightarrow> t = s)"
proof -
  have "log_queue (logger_buffer_push e s) = drop (length (log_queue s) + 1 - 64) (log_queue s @ [e])" for e
    using log.pushes_contents [OF assms(1), of "[e]"] by simp
  with logger_log_laws [OF assms, of lvl m] show ?thesis
    by (cases "lvl < default_level s") (auto simp: log_entry_def not_less)
qed

theorem logger_log_queues_witness:
  "\<exists>t. logger_log LOG_LEVEL_ERROR ''rtc'' ''n=%d'' [ArgInt 7] (logger_boot uart_ready) = Some t
     \<and> log_queue t = [\<lparr>level = LOG_LEVEL_ERROR, message = ''n=7'', log_module = ''rtc''\<rparr>]"
proof -
  have f: "format_ref ''n=%d'' [ArgInt 7] = Some ''n=7''" by code_simp
  have lvl: "\<not> LOG_LEVEL_ERROR < LOG_LEVEL_INFO" by (simp add: less_LogLevel_def)
  from logger_log_queues [OF logger_boot_ok(1) [of uart_ready] f, of LOG_LEVEL_ERROR "''rtc''"] lvl
  obtain t where t: "logger_log LOG_LEVEL_ERROR ''rtc'' ''n=%d'' [ArgInt 7] (logger_boot uart_ready) = Some t"
    and q: "log_queue t = drop (length (log_queue (logger_boot uart_ready)) + 1 - 64) (log_queue (logger_boot uart_ready)
      @ [\<lparr>level = LOG_LEVEL_ERROR, message = take 255 ''n=7'', log_module = take 63 (cstr ''rtc'')\<rparr>])"
    unfolding logger_boot_simps by (simp only: if_False) blast
  from q have "log_queue t = [\<lparr>level = LOG_LEVEL_ERROR, message = ''n=7'', log_module = ''rtc''\<rparr>]" by simp
  with t show ?thesis by blast
qed

text \<open>
  Logging turns interrupts on. Outside a guarded section a logged message
  leaves the interrupt flag set, whatever it was before the call; inside one it
  leaves it clear.
\<close>

theorem logging_sets_interrupt_flag:
  assumes "log_ok s" and "format_ref format args = Some full" and "default_level s \<le> lvl"
  shows "\<exists>t. logger_log lvl m format args s = Some t \<and> (if_flag t \<longleftrightarrow> interrupt_guard_counter s = 0)"
  using logger_log_laws [OF assms(1,2), of lvl m] assms(3) by auto

theorem logging_sets_interrupt_flag_witness:
  "\<exists>t. \<not> if_flag (logger_boot uart_ready)
     \<and> logger_log LOG_LEVEL_INFO ''Kernel'' ''up'' [] (logger_boot uart_ready) = Some t \<and> if_flag t"
proof -
  have "format_ref ''up'' [] = Some ''up''" by code_simp
  from logging_sets_interrupt_flag [OF logger_boot_ok(1) [of uart_ready] this, of LOG_LEVEL_INFO] show ?thesis
    by auto
qed

text \<open>
  C28 (servicing the log). On a UART that drains, \<^verbatim>\<open>logger_service\<close> returns, has
  printed the queued entries oldest first, each as one line with its level,
  module and message, and leaves the buffer empty; only the console and the
  buffer change.
\<close>

theorem logger_service_drains:
  assumes "log_ok s" and "uart_drains (device s)"
  shows "\<exists>t. logger_service s = Some t
     \<and> sent t = sent s @ map of_char (crlf (concat (map (\<lambda>e. ''['' @ log_level_to_string (level e) @ ''] ''
           @ cstr (log_module e) @ '': '' @ cstr (message e) @ [LF]) (log_queue s))))
     \<and> log_queue t = [] \<and> log_ok t \<and> same_but_log_console s t"
  using logger_service_run [OF assms(1) refl assms(2)] unfolding entry_text_def by blast

theorem logger_service_drains_witness:
  "\<exists>t. logger_service (logger_buffer_push (log_entry LOG_LEVEL_INFO ''a'' ''b'') (logger_boot uart_ready)) = Some t
     \<and> sent t = map of_char (''[INFO] a: b'' @ [CR, LF])"
proof -
  let ?s = "logger_buffer_push (log_entry LOG_LEVEL_INFO ''a'' ''b'') (logger_boot uart_ready)"
  have "log_ok ?s" "log_queue ?s = [log_entry LOG_LEVEL_INFO ''a'' ''b'']"
    using push_ok_contents [OF logger_boot_ok(1) [of uart_ready]] by simp_all
  moreover have "uart_drains (device ?s)" "sent ?s = []"
    by (simp_all add: push_eq sent_def)
  ultimately show ?thesis using logger_service_drains [of ?s] by (auto simp: log_entry_def)
qed

text \<open>
  C22 (entries fit their arrays). Say the log is well typed when the ring indices
  are in range and every slot of the buffer holds a message of at most 255
  characters and a module name of at most 63, so that with its terminator each
  fits its array. Every operation of the logger keeps the log well typed:
  setting it up, logging at any level a message of any length, popping, changing
  the level and servicing.
\<close>

theorem logger_keeps_types:
  assumes "log_typed s" and "uart_drains (device s)" and "format_ref format args = Some full"
  shows "(\<exists>t. logger_init s = Some t \<and> log_typed t)
     \<and> (\<exists>t. logger_log lvl m format args s = Some t \<and> log_typed t)
     \<and> (\<exists>t. logger_service s = Some t \<and> log_typed t)
     \<and> log_typed (snd (logger_buffer_pop s)) \<and> log_typed (logger_set_module_level m lvl s)"
proof (intro conjI)
  have ok: "log_ok s" "slots_fit (g_log_buffer s)" using assms(1) by (simp_all add: log_typed_def)
  show "\<exists>t. logger_init s = Some t \<and> log_typed t"
  proof -
    let ?s = "s\<lparr>g_log_buffer := (g_log_buffer s)\<lparr>head := 0, tail := 0, count := 0\<rparr>, default_level := LOG_LEVEL_INFO\<rparr>"
    have typed: "log_typed ?s" and dev: "uart_drains (device ?s)"
      using ok assms(2) by (simp_all add: log_typed_def log_ok_def slots_fit_def Let_def)
    have "prints (output_string (''Logger initialized!'' @ [LF])) (''Logger initialized!'' @ [LF])" by (rule prints_literal) simp
    from printsD [OF this dev] obtain t where t: "output_string (''Logger initialized!'' @ [LF]) ?s = Some t" "same_but_console ?s t"
      by metis
    then show ?thesis using typed log_typed_cong [OF same_but_console_log [OF t(2)]] by (simp add: logger_init_def)
  qed
  show "\<exists>t. logger_log lvl m format args s = Some t \<and> log_typed t"
    using assms(1) log_record_eq [OF assms(3), of lvl m s] by (simp add: logger_log_def Let_def log_typed_guarded log_entry_fits)
  show "\<exists>t. logger_service s = Some t \<and> log_typed t"
    using logger_service_run [OF ok(1) refl assms(2)] ok(2) by (auto simp: log_typed_def slots_fit_def)
  show "log_typed (snd (logger_buffer_pop s))"
    using log.pop_ok [OF ok(1)] ok by (simp add: log_typed_def pop_eq slots_fit_def drop_oldest_def)
  show "log_typed (logger_set_module_level m lvl s)"
    using assms(1) log_typed_cong [of "logger_set_module_level m lvl s" s] by (simp add: logger_set_module_level_def)
qed

theorem logger_keeps_types_witness:
  "\<exists>t. logger_log LOG_LEVEL_ERROR ''rtc'' ''n=%d'' [ArgInt 7] (logger_boot uart_ready) = Some t \<and> log_typed t"
proof -
  have "log_typed (logger_boot uart_ready)" by (simp add: log_typed_def slots_fit_def entry_fits_def empty_log_def)
  moreover have "format_ref ''n=%d'' [ArgInt 7] = Some ''n=7''" by code_simp
  ultimately show ?thesis using logger_keeps_types [of "logger_boot uart_ready"] by simp
qed

end
