(* ===== verification/Gdt.thy ===== *)
theory Gdt
  imports Logger
begin

text \<open>
  The global descriptor table (\<^verbatim>\<open>src/gdt.c\<close>, with \<^verbatim>\<open>load_gdt_asm\<close> of
  \<^verbatim>\<open>src/gdt.s\<close>): descriptors as the packed structures of the source, and what
  the processor reads out of them.
\<close>

section \<open>Data and operations\<close>

record GDTEntry =
  limit_low :: u16
  base_low :: u16
  base_mid :: u8
  access_byte :: u8
  limit_high_flags :: u8
  base_high :: u8

record GDTPointer =
  gdtp_limit :: u16
  gdtp_base :: u32

record gdt_state = logger +
  gdt :: "nat \<Rightarrow> GDTEntry"
  gdt_ptr :: GDTPointer

abbreviation GDT_PRESENT :: u8 where "GDT_PRESENT \<equiv> 0x80"
abbreviation GDT_RING_3 :: u8 where "GDT_RING_3 \<equiv> 0x60"
abbreviation GDT_SEGMENT :: u8 where "GDT_SEGMENT \<equiv> 0x10"
abbreviation GDT_EXECUTABLE :: u8 where "GDT_EXECUTABLE \<equiv> 0x08"
abbreviation GDT_READABLE :: u8 where "GDT_READABLE \<equiv> 0x02"

text \<open>\<^verbatim>\<open>AccessByteBuilder\<close> is a structure with the one field \<^verbatim>\<open>flags\<close>.\<close>

record AccessByteBuilder =
  flags :: u8

definition create_access_byte :: "u8 \<Rightarrow> u8 \<Rightarrow> u8 \<Rightarrow> AccessByteBuilder" where
  "create_access_byte is_executable is_readable_writable dpl =
     (let f = GDT_PRESENT;
          f = f OR ucast (push_bit 5 (ucast dpl :: u32) AND ucast GDT_RING_3);
          f = f OR GDT_SEGMENT;
          f = (if is_executable \<noteq> 0 then f OR GDT_EXECUTABLE else f);
          f = (if is_readable_writable \<noteq> 0 then f OR GDT_READABLE else f)
      in \<lparr>flags = f\<rparr>)"

definition access_byte_build :: "AccessByteBuilder \<Rightarrow> u8" where
  "access_byte_build builder = flags builder"

definition create_descriptor :: "u32 \<Rightarrow> u32 \<Rightarrow> u8 \<Rightarrow> u8 \<Rightarrow> GDTEntry" where
  "create_descriptor base limit access fl =
     \<lparr>limit_low = ucast (limit AND 0xFFFF), base_low = ucast (base AND 0xFFFF),
      base_mid = ucast (drop_bit 16 base AND 0xFF), access_byte = access,
      limit_high_flags = ucast (drop_bit 16 limit AND 0x0F) OR (fl AND 0xF0),
      base_high = ucast (drop_bit 24 base AND 0xFF)\<rparr>"

definition null_descriptor :: GDTEntry where
  "null_descriptor = \<lparr>limit_low = 0, base_low = 0, base_mid = 0, access_byte = 0,
     limit_high_flags = 0, base_high = 0\<rparr>"

text \<open>\<^verbatim>\<open>lgdt\<close>; the segment registers are not part of the state.\<close>

definition load_gdt_asm :: "GDTPointer \<Rightarrow> 'z machine_scheme \<Rightarrow> 'z machine_scheme" where
  "load_gdt_asm p s = s\<lparr>gdtr := (gdtp_limit p, gdtp_base p)\<rparr>"

text \<open>\<open>gdt_addr\<close> is the address the linker gives the table.\<close>

definition gdt_init :: "ptr \<Rightarrow> 'z gdt_state_scheme \<Rightarrow> 'z gdt_state_scheme" where
  "gdt_init gdt_addr s =
     (let s = s\<lparr>gdt := (gdt s)(0 := null_descriptor)\<rparr>;
          code_access_byte = access_byte_build (create_access_byte 1 1 0);
          s = s\<lparr>gdt := (gdt s)(1 := create_descriptor 0 0xFFFFF code_access_byte 0xCF)\<rparr>;
          data_access_byte = access_byte_build (create_access_byte 0 1 0);
          s = s\<lparr>gdt := (gdt s)(2 := create_descriptor 0 0xFFFFF data_access_byte 0xCF)\<rparr>;
          s = s\<lparr>gdt_ptr := \<lparr>gdtp_limit = 3 * 8 - 1, gdtp_base = gdt_addr\<rparr>\<rparr>
      in load_gdt_asm (gdt_ptr s) s)"

definition print_gdt_info :: "ptr \<Rightarrow> 'z gdt_state_scheme \<Rightarrow> 'z gdt_state_scheme option" where
  "print_gdt_info gdt_addr s =
     do { let (current_limit, current_base) = gdtr s;
          s \<leftarrow> output_string (''GDT Info:'' @ [LF]) s;
          s \<leftarrow> output_string ''  Base: 0x'' s;
          s \<leftarrow> put_hex current_base s;
          s \<leftarrow> output_string [LF] s;
          s \<leftarrow> output_string ''  Limit: 0x'' s;
          s \<leftarrow> put_hex (ucast current_limit) s;
          s \<leftarrow> output_string [LF] s;
          s \<leftarrow> output_string ''  Null Descriptor: at 0x'' s;
          s \<leftarrow> put_hex gdt_addr s;
          s \<leftarrow> output_string [LF] s;
          s \<leftarrow> output_string ''  Code Descriptor: at 0x'' s;
          s \<leftarrow> put_hex (gdt_addr + 8) s;
          s \<leftarrow> output_string [LF] s;
          s \<leftarrow> output_string ''  Data Descriptor: at 0x'' s;
          s \<leftarrow> put_hex (gdt_addr + 16) s;
          output_string [LF] s }"

section \<open>What the processor reads\<close>

text \<open>The packed eight bytes of an entry as one little-endian number.\<close>

definition packed :: "GDTEntry \<Rightarrow> u64" where
  "packed e = ucast (limit_low e) OR push_bit 16 (ucast (base_low e)) OR push_bit 32 (ucast (base_mid e))
     OR push_bit 40 (ucast (access_byte e)) OR push_bit 48 (ucast (limit_high_flags e))
     OR push_bit 56 (ucast (base_high e))"

text \<open>The fields of a segment descriptor, by their bit positions in the manual.\<close>

definition desc_base :: "u64 \<Rightarrow> u32" where
  "desc_base d = ucast (take_bit 24 (drop_bit 16 d)) OR push_bit 24 (ucast (drop_bit 56 d))"

definition desc_limit :: "u64 \<Rightarrow> u32" where
  "desc_limit d = ucast (take_bit 16 d) OR push_bit 16 (ucast (take_bit 4 (drop_bit 48 d)))"

definition desc_access :: "u64 \<Rightarrow> u8" where
  "desc_access d = ucast (drop_bit 40 d)"

definition desc_flags :: "u64 \<Rightarrow> u8" where
  "desc_flags d = ucast (take_bit 4 (drop_bit 52 d))"

lemma low_masks:
  "(x :: u32) AND 0xFFFF = take_bit 16 x" "x AND 0xFF = take_bit 8 x" "x AND 0x0F = take_bit 4 x"
  by (simp_all add: take_bit_eq_mask mask_eq_decr_exp)

lemma high_nibble: "(x :: u8) AND 0xF0 = push_bit 4 (drop_bit 4 x)"
proof -
  have "(0xF0 :: u8) = NOT (mask 4)" by (simp add: mask_eq_decr_exp)
  then show ?thesis by (simp only: and_not_mask_eq_push_drop)
qed

text \<open>Each field of the packed entry, where the layout puts it.\<close>

lemma packed_fields:
  "ucast (packed e) = limit_low e" "ucast (drop_bit 16 (packed e)) = base_low e"
  "ucast (drop_bit 32 (packed e)) = base_mid e" "ucast (drop_bit 40 (packed e)) = access_byte e"
  "ucast (drop_bit 48 (packed e)) = limit_high_flags e" "ucast (drop_bit 56 (packed e)) = base_high e"
  by (rule bit_word_eqI, auto simp: packed_def bit_simps dest: bit_imp_le_length)+

lemma desc_fields:
  "desc_base d = ucast (ucast (drop_bit 16 d) :: u16) OR push_bit 16 (ucast (ucast (drop_bit 32 d) :: u8))
     OR push_bit 24 (ucast (ucast (drop_bit 56 d) :: u8))"
  "desc_limit d = ucast (ucast d :: u16) OR push_bit 16 (ucast (take_bit 4 (ucast (drop_bit 48 d) :: u8)))"
  "desc_flags d = drop_bit 4 (ucast (drop_bit 48 d) :: u8)"
  by (rule bit_word_eqI, auto simp: desc_base_def desc_limit_def desc_flags_def bit_simps)+

text \<open>
  Descriptor round trip. The processor reads back from the packed entry
  the base, the low 20 bits of the limit, the access byte and the high nibble of
  the flags that the entry was made from.
\<close>

theorem create_descriptor_roundtrip:
  "desc_base (packed (create_descriptor base limit access fl)) = base
   \<and> desc_limit (packed (create_descriptor base limit access fl)) = take_bit 20 limit
   \<and> desc_access (packed (create_descriptor base limit access fl)) = access
   \<and> desc_flags (packed (create_descriptor base limit access fl)) = drop_bit 4 fl"
proof (intro conjI)
  let ?e = "create_descriptor base limit access fl"
  show "desc_base (packed ?e) = base"
    unfolding desc_fields packed_fields
  proof (rule bit_word_eqI)
    fix n
    assume "n < LENGTH(32)"
    then show "bit (ucast (base_low ?e) OR push_bit 16 (ucast (base_mid ?e)) OR push_bit 24 (ucast (base_high ?e)) :: u32) n
        = bit base n"
      by (cases "n < 24") (auto simp: create_descriptor_def low_masks bit_simps)
  qed
  show "desc_limit (packed ?e) = take_bit 20 limit"
    unfolding desc_fields packed_fields
    by (rule bit_word_eqI) (auto simp: create_descriptor_def low_masks high_nibble bit_simps)
  show "desc_access (packed ?e) = access"
    by (simp add: desc_access_def packed_fields create_descriptor_def)
  show "desc_flags (packed ?e) = drop_bit 4 fl"
    unfolding desc_fields packed_fields
    by (rule bit_word_eqI)
      (auto simp: create_descriptor_def low_masks high_nibble bit_simps dest: bit_imp_le_length)
qed

text \<open>The meaning of an access byte: present, privilege, code or data, and access.\<close>

lemma create_access_byte_bits:
  "flags (create_access_byte x rw dpl) = 0x90 OR push_bit 5 (take_bit 2 dpl)
     OR (if x \<noteq> 0 then 0x08 else 0) OR (if rw \<noteq> 0 then 0x02 else 0)"
proof -
  have "(ucast (push_bit 5 (ucast dpl :: u32) AND 0x60) :: u8) = push_bit 5 (take_bit 2 dpl)"
  proof -
    have "(0x60 :: u32) = push_bit 5 (mask 2)" by (simp add: mask_eq_decr_exp)
    then have "push_bit 5 (ucast dpl :: u32) AND 0x60 = push_bit 5 (take_bit 2 (ucast dpl))"
      by (metis push_bit_and take_bit_eq_mask)
    moreover have "(ucast (push_bit 5 (take_bit 2 (ucast dpl :: u32))) :: u8) = push_bit 5 (take_bit 2 dpl)"
      by (rule bit_word_eqI) (auto simp: bit_simps)
    ultimately show ?thesis by simp
  qed
  moreover have "0x80 OR y OR 0x10 = 0x90 OR (y :: u8)" for y
    by (subst or.commute, subst or.assoc [symmetric]) simp
  ultimately show ?thesis by (simp add: create_access_byte_def Let_def or.assoc)
qed

text \<open>
  C39 (the flat segments). After \<^verbatim>\<open>gdt_init\<close> the processor's table register points at
  the table with a limit of exactly its three entries; entry 0 is null, and
  entries 1 and 2 are the ring-0 code and data segments that cover all 4 GiB:
  base 0, limit \<open>0xFFFFF\<close> in units of 4 KiB, 32-bit, present.
\<close>

theorem gdt_init_flat:
  "gdtr (gdt_init addr s) = (23, addr)
   \<and> packed (gdt (gdt_init addr s) 0) = 0
   \<and> packed (gdt (gdt_init addr s) 1) = 0x00CF9A000000FFFF
   \<and> packed (gdt (gdt_init addr s) 2) = 0x00CF92000000FFFF
   \<and> gdt_init addr s = s\<lparr>gdtr := (23, addr), gdt := gdt (gdt_init addr s), gdt_ptr := gdt_ptr (gdt_init addr s)\<rparr>"
proof (intro conjI)
  have code: "packed (create_descriptor 0 0xFFFFF (access_byte_build (create_access_byte 1 1 0)) 0xCF) = 0x00CF9A000000FFFF"
    by code_simp
  have data: "packed (create_descriptor 0 0xFFFFF (access_byte_build (create_access_byte 0 1 0)) 0xCF) = 0x00CF92000000FFFF"
    by code_simp
  show "gdtr (gdt_init addr s) = (23, addr)" "packed (gdt (gdt_init addr s) 0) = 0"
    by (simp_all add: gdt_init_def load_gdt_asm_def Let_def packed_def null_descriptor_def)
  show "packed (gdt (gdt_init addr s) 1) = 0x00CF9A000000FFFF" "packed (gdt (gdt_init addr s) 2) = 0x00CF92000000FFFF"
    using code data by (simp_all add: gdt_init_def load_gdt_asm_def Let_def)
  show "gdt_init addr s = s\<lparr>gdtr := (23, addr), gdt := gdt (gdt_init addr s), gdt_ptr := gdt_ptr (gdt_init addr s)\<rparr>"
    by (cases s) (simp add: gdt_init_def load_gdt_asm_def Let_def)
qed

text \<open>
  The information printer returns and changes the console only. The addresses
  come out with the prefix twice, \<^verbatim>\<open>0x0x\<close>: once from the literal and once from
  \<^const>\<open>put_hex\<close>.
\<close>

definition gdt_text :: "ptr \<Rightarrow> u16 \<times> u32 \<Rightarrow> string" where
  "gdt_text gdt_addr r = (case r of (l, b) \<Rightarrow>
     ''GDT Info:'' @ LF # ''  Base: 0x'' @ hex_string b @ LF # ''  Limit: 0x'' @ hex_string (ucast l)
     @ LF # ''  Null Descriptor: at 0x'' @ hex_string gdt_addr
     @ LF # ''  Code Descriptor: at 0x'' @ hex_string (gdt_addr + 8)
     @ LF # ''  Data Descriptor: at 0x'' @ hex_string (gdt_addr + 16) @ [LF])"

lemma print_gdt_info_prints: "prints_from s (print_gdt_info addr) (gdt_text addr (gdtr s))"
proof -
  obtain l b where r: "gdtr s = (l, b)" by fastforce
  let ?p = "\<lambda>s :: 'a gdt_state_scheme. do { s \<leftarrow> output_string (''GDT Info:'' @ [LF]) s; s \<leftarrow> output_string ''  Base: 0x'' s;
          s \<leftarrow> put_hex b s; s \<leftarrow> output_string [LF] s; s \<leftarrow> output_string ''  Limit: 0x'' s;
          s \<leftarrow> put_hex (ucast l) s; s \<leftarrow> output_string [LF] s; s \<leftarrow> output_string ''  Null Descriptor: at 0x'' s;
          s \<leftarrow> put_hex addr s; s \<leftarrow> output_string [LF] s; s \<leftarrow> output_string ''  Code Descriptor: at 0x'' s;
          s \<leftarrow> put_hex (addr + 8) s; s \<leftarrow> output_string [LF] s; s \<leftarrow> output_string ''  Data Descriptor: at 0x'' s;
          s \<leftarrow> put_hex (addr + 16) s; output_string [LF] s }"
  have "prints ?p ((''GDT Info:'' @ [LF]) @ ''  Base: 0x'' @ hex_string b @ [LF] @ ''  Limit: 0x'' @ hex_string (ucast l)
     @ [LF] @ ''  Null Descriptor: at 0x'' @ hex_string addr @ [LF] @ ''  Code Descriptor: at 0x'' @ hex_string (addr + 8)
     @ [LF] @ ''  Data Descriptor: at 0x'' @ hex_string (addr + 16) @ [LF])"
    by (intro prints_seq prints_put_hex prints_literal) simp_all
  then show ?thesis
    by (intro prints_from_cong [OF _ prints_fromI]) (simp_all add: print_gdt_info_def gdt_text_def r)
qed

end
