(* ===== verification/Idt.thy ===== *)
theory Idt
  imports Gdt
begin

text \<open>
  Interrupts (\<^verbatim>\<open>src/idt.c\<close>): the gates of the interrupt descriptor table, the
  registry of handlers, the two interrupt controllers and the dispatch of an
  interrupt. The registry is an interpretation of the interface
  \<^verbatim>\<open>handler_table\<close>, a map from vectors to handlers. The assembly stubs and
  \<^verbatim>\<open>idt_init.inc\<close> are generated when the kernel is built and are parameters.
\<close>

section \<open>Data\<close>

record IDTEntry =
  offset_low :: u16
  selector :: u16
  zero :: u8
  type_attr :: u8
  offset_high :: u16

record IDTPointer =
  idtp_limit :: u16
  idtp_base :: u32

abbreviation IDT_PRESENT :: u8 where "IDT_PRESENT \<equiv> 0x80"
abbreviation IDT_INTERRUPT :: u8 where "IDT_INTERRUPT \<equiv> 0x0E"

text \<open>
  A handler is a function pointer: its address, 0 for \<^verbatim>\<open>NULL\<close>. What the code at
  an address does is the parameter \<open>code\<close> of the operations that call one.
\<close>

type_synonym interrupt_handler_t = ptr

record idt_state = gdt_state +
  idt :: "nat \<Rightarrow> IDTEntry"
  idt_ptr :: IDTPointer
  interrupt_handlers :: "u8 \<Rightarrow> interrupt_handler_t"
  handlers_initialized :: bool
  master_pic_cmd :: port_ptr
  master_pic_data :: port_ptr
  slave_pic_cmd :: port_ptr
  slave_pic_data :: port_ptr

datatype IrqIdType = IRQ_INTERNAL | IRQ_PIC1 | IRQ_PIC2

record IrqId =
  irq_type :: IrqIdType
  irq_index :: u8

section \<open>Gates\<close>

definition create_idt_descriptor :: "u32 \<Rightarrow> u16 \<Rightarrow> u8 \<Rightarrow> IDTEntry" where
  "create_idt_descriptor offset sel attr =
     \<lparr>offset_low = ucast (offset AND 0xFFFF), selector = sel, zero = 0, type_attr = attr,
      offset_high = ucast (drop_bit 16 offset AND 0xFFFF)\<rparr>"

definition idt_set_handler :: "u8 \<Rightarrow> u32 \<Rightarrow> 'z idt_state_scheme \<Rightarrow> 'z idt_state_scheme" where
  "idt_set_handler vector handler_offset s =
     s\<lparr>idt := (idt s)(unat vector := create_idt_descriptor handler_offset 0x08 (IDT_PRESENT OR IDT_INTERRUPT))\<rparr>"

section \<open>The registry of handlers\<close>

definition init_interrupt_registry :: "'z idt_state_scheme \<Rightarrow> 'z idt_state_scheme" where
  "init_interrupt_registry s =
     (if \<not> handlers_initialized s
      then let s = for_up 0 256 (\<lambda>i s. s\<lparr>interrupt_handlers := (interrupt_handlers s)(of_nat i := 0)\<rparr>) s
           in s\<lparr>handlers_initialized := True\<rparr>
      else s)"

definition register_interrupt_handler ::
    "u8 \<Rightarrow> interrupt_handler_t \<Rightarrow> 'z idt_state_scheme \<Rightarrow> int \<times> 'z idt_state_scheme" where
  "register_interrupt_handler vector handler s =
     (let s = (if \<not> handlers_initialized s then init_interrupt_registry s else s) in
      if unat vector \<ge> 256 then (-1, s)
      else (0, s\<lparr>interrupt_handlers := (interrupt_handlers s)(vector := handler)\<rparr>))"

definition unregister_interrupt_handler ::
    "u8 \<Rightarrow> 'z idt_state_scheme \<Rightarrow> int \<times> 'z idt_state_scheme" where
  "unregister_interrupt_handler vector s =
     (let s = (if \<not> handlers_initialized s then init_interrupt_registry s else s) in
      if unat vector \<ge> 256 then (-1, s)
      else (0, s\<lparr>interrupt_handlers := (interrupt_handlers s)(vector := 0)\<rparr>))"

definition get_interrupt_handler ::
    "u8 \<Rightarrow> 'z idt_state_scheme \<Rightarrow> interrupt_handler_t \<times> 'z idt_state_scheme" where
  "get_interrupt_handler vector s =
     (let s = (if \<not> handlers_initialized s then init_interrupt_registry s else s) in
      if unat vector \<ge> 256 then (0, s) else (interrupt_handlers s vector, s))"

definition irq_id_to_vector :: "IrqId \<Rightarrow> u8" where
  "irq_id_to_vector irq_id = (case irq_type irq_id of
     IRQ_INTERNAL \<Rightarrow> irq_index irq_id
   | IRQ_PIC1 \<Rightarrow> 64 + irq_index irq_id
   | IRQ_PIC2 \<Rightarrow> 72 + irq_index irq_id)"

definition register_interrupt_handler_irq ::
    "IrqId \<Rightarrow> interrupt_handler_t \<Rightarrow> 'z idt_state_scheme \<Rightarrow> int \<times> 'z idt_state_scheme" where
  "register_interrupt_handler_irq irq_id handler s =
     (let vector = irq_id_to_vector irq_id in register_interrupt_handler vector handler s)"

definition unregister_interrupt_handler_irq :: "IrqId \<Rightarrow> 'z idt_state_scheme \<Rightarrow> int \<times> 'z idt_state_scheme" where
  "unregister_interrupt_handler_irq irq_id s =
     (let vector = irq_id_to_vector irq_id in unregister_interrupt_handler vector s)"

section \<open>The interrupt controllers\<close>

definition pic_init_ports :: "'z idt_state_scheme \<Rightarrow> 'z idt_state_scheme" where
  "pic_init_ports s =
     (let (h, s) = request_port 0x20 s; s = s\<lparr>master_pic_cmd := h\<rparr>;
          (h, s) = request_port 0x21 s; s = s\<lparr>master_pic_data := h\<rparr>;
          (h, s) = request_port 0xA0 s; s = s\<lparr>slave_pic_cmd := h\<rparr>;
          (h, s) = request_port 0xA1 s
      in s\<lparr>slave_pic_data := h\<rparr>)"

definition pic_send_eoi :: "u8 \<Rightarrow> 'z idt_state_scheme \<Rightarrow> 'z idt_state_scheme" where
  "pic_send_eoi int_num s =
     (if int_num \<ge> 0x48 \<and> int_num \<le> 0x4F then
        let s = (if slave_pic_cmd s \<noteq> None then write_port_b (slave_pic_cmd s) 0x20 s else s)
        in if master_pic_cmd s \<noteq> None then write_port_b (master_pic_cmd s) 0x20 s else s
      else if int_num \<ge> 0x40 \<and> int_num \<le> 0x47 then
        if master_pic_cmd s \<noteq> None then write_port_b (master_pic_cmd s) 0x20 s else s
      else s)"

definition pic_init :: "'z idt_state_scheme \<Rightarrow> 'z idt_state_scheme option" where
  "pic_init s =
     (if master_pic_data s \<noteq> None \<and> slave_pic_data s \<noteq> None
      then let s = write_port_b (master_pic_data s) 0xFF s;
               s = write_port_b (slave_pic_data s) 0xFF s
           in output_string (''PIC interrupts masked successfully!'' @ [LF]) s
      else output_string (''PIC initialization failed - couldn'' @ CHR 0x27 # ''t acquire ports!'' @ [LF]) s)"

text \<open>The part of \<^verbatim>\<open>pic_remap\<close> between its two messages.\<close>

definition pic_remap_sequence :: "'z idt_state_scheme \<Rightarrow> 'z idt_state_scheme" where
  "pic_remap_sequence s =
     (let (master_mask, s) = read_port_b (master_pic_data s) s;
          (slave_mask, s) = read_port_b (slave_pic_data s) s;
          s = write_port_b (master_pic_cmd s) 0x11 s;
          s = write_port_b (slave_pic_cmd s) 0x11 s;
          s = write_port_b (master_pic_data s) 0x40 s;
          s = write_port_b (slave_pic_data s) 0x48 s;
          s = write_port_b (master_pic_data s) 0x04 s;
          s = write_port_b (slave_pic_data s) 0x02 s;
          s = write_port_b (master_pic_data s) 0x01 s;
          s = write_port_b (slave_pic_data s) 0x01 s;
          s = write_port_b (master_pic_data s) master_mask s
      in write_port_b (slave_pic_data s) slave_mask s)"

definition pic_remap :: "'z idt_state_scheme \<Rightarrow> 'z idt_state_scheme option" where
  "pic_remap s =
     (if master_pic_cmd s \<noteq> None \<and> slave_pic_cmd s \<noteq> None
         \<and> master_pic_data s \<noteq> None \<and> slave_pic_data s \<noteq> None
      then do {
        s \<leftarrow> output_string (''PIC remapping: Before - Master vectors 0x20-0x27, Slave vectors 0x28-0x2F'' @ [LF]) s;
        let s = pic_remap_sequence s;
        output_string (''PIC remapped successfully! After - Master vectors 0x40-0x47, Slave vectors 0x48-0x4F'' @ [LF]) s }
      else output_string (''PIC remapping failed - couldn'' @ CHR 0x27 # ''t acquire ports!'' @ [LF]) s)"

text \<open>Clearing bit \<open>b\<close> of a mask: \<^verbatim>\<open>value &= ~(1 << b)\<close> on a byte.\<close>

definition clear_mask_bit :: "u8 \<Rightarrow> u8 \<Rightarrow> u8" where
  "clear_mask_bit b value = ucast (ucast value AND NOT (push_bit (unat b) (1 :: u32)))"

definition pic_unmask_irq :: "u8 \<Rightarrow> 'z idt_state_scheme \<Rightarrow> 'z idt_state_scheme" where
  "pic_unmask_irq irq s =
     (if irq < 8 then
        if master_pic_data s \<noteq> None then
          let (value, s) = read_port_b (master_pic_data s) s
          in write_port_b (master_pic_data s) (clear_mask_bit irq value) s
        else s
      else if irq \<ge> 8 \<and> irq < 16 then
        let s = (if master_pic_data s \<noteq> None then
                   let (value, s) = read_port_b (master_pic_data s) s
                   in write_port_b (master_pic_data s) (clear_mask_bit 2 value) s
                 else s)
        in if slave_pic_data s \<noteq> None then
             let (value, s) = read_port_b (slave_pic_data s) s
             in write_port_b (slave_pic_data s) (clear_mask_bit (irq - 8) value) s
           else s
      else s)"

section \<open>Handling interrupts\<close>

text \<open>
  \<open>code p s\<close> is the effect of calling the function at address \<open>p\<close>. The
  error-code variant also moves the stack pointer, which is not part of the
  state.
\<close>

definition generic_interrupt_handler_no_error_code ::
    "(ptr \<Rightarrow> 'z idt_state_scheme \<Rightarrow> 'z idt_state_scheme option) \<Rightarrow> u8 \<Rightarrow> 'z idt_state_scheme \<Rightarrow> 'z idt_state_scheme option" where
  "generic_interrupt_handler_no_error_code code vector s =
     do { s \<leftarrow> (if handlers_initialized s \<and> unat vector < 256 \<and> interrupt_handlers s vector \<noteq> 0
               then code (interrupt_handlers s vector) s else Some s);
          Some (pic_send_eoi vector s) }"

definition generic_interrupt_handler_error_code ::
    "(ptr \<Rightarrow> 'z idt_state_scheme \<Rightarrow> 'z idt_state_scheme option) \<Rightarrow> u8 \<Rightarrow> 'z idt_state_scheme \<Rightarrow> 'z idt_state_scheme option" where
  "generic_interrupt_handler_error_code code vector s =
     do { s \<leftarrow> (if handlers_initialized s \<and> unat vector < 256 \<and> interrupt_handlers s vector \<noteq> 0
               then code (interrupt_handlers s vector) s else Some s);
          Some (pic_send_eoi vector s) }"

text \<open>\<^verbatim>\<open>cli; hlt\<close>: with interrupts off the processor does not come back.\<close>

definition handle_divide_by_zero :: "'z idt_state_scheme \<Rightarrow> 'z idt_state_scheme option" where
  "handle_divide_by_zero s =
     do { s \<leftarrow> output_string (''Divide by zero exception occurred!'' @ [LF]) s;
          s \<leftarrow> output_string (''System halted due to divide by zero.'' @ [LF]) s;
          Some (halt_forever (cli s)) }"

definition handle_general_protection_fault :: "'z idt_state_scheme \<Rightarrow> 'z idt_state_scheme option" where
  "handle_general_protection_fault s =
     do { s \<leftarrow> output_string (''General Protection Fault occurred!'' @ [LF]) s;
          s \<leftarrow> output_string (''System halted due to GPF.'' @ [LF]) s;
          Some (halt_forever (cli s)) }"

definition handle_page_fault :: "'z idt_state_scheme \<Rightarrow> 'z idt_state_scheme option" where
  "handle_page_fault s =
     do { s \<leftarrow> output_string (''Page Fault occurred!'' @ [LF]) s;
          s \<leftarrow> output_string (''System halted due to page fault.'' @ [LF]) s;
          Some (halt_forever (cli s)) }"

section \<open>Loading the table\<close>

definition load_idt_asm :: "IDTPointer \<Rightarrow> 'z machine_scheme \<Rightarrow> 'z machine_scheme" where
  "load_idt_asm p s = s\<lparr>idtr := (idtp_limit p, idtp_base p)\<rparr>"

definition clear_idt_entry :: "nat \<Rightarrow> 'z idt_state_scheme \<Rightarrow> 'z idt_state_scheme" where
  "clear_idt_entry i s = s\<lparr>idt := (idt s)(i :=
     \<lparr>offset_low = 0, selector = 0, zero = 0, type_attr = 0, offset_high = 0\<rparr>)\<rparr>"

text \<open>
  \<^verbatim>\<open>idt_init.inc\<close> is generated when the kernel is built: the parameter
  \<open>idt_init_inc\<close> stands for it. \<open>idt_addr\<close> is the address of the table.
\<close>

definition idt_init ::
    "('z idt_state_scheme \<Rightarrow> 'z idt_state_scheme) \<Rightarrow> ptr \<Rightarrow> 'z idt_state_scheme \<Rightarrow> 'z idt_state_scheme option" where
  "idt_init idt_init_inc idt_addr s =
     (let s = pic_init_ports s;
          s = for_up 0 256 clear_idt_entry s;
          s = idt_init_inc s;
          s = s\<lparr>idt_ptr := \<lparr>idtp_limit = 256 * 8 - 1, idtp_base = idt_addr\<rparr>\<rparr>;
          s = load_idt_asm (idt_ptr s) s
      in output_string (''IDT initialized and loaded successfully!'' @ [LF]) s)"

text \<open>What \<^verbatim>\<open>generate_idt_init.py\<close> writes into it: one gate per vector.\<close>

definition generated_idt_init :: "(nat \<Rightarrow> u32) \<Rightarrow> 'z idt_state_scheme \<Rightarrow> 'z idt_state_scheme" where
  "generated_idt_init interrupt_handler s =
     for_up 0 256 (\<lambda>i s. s\<lparr>idt := (idt s)(i := create_idt_descriptor (interrupt_handler i) 0x08
       (IDT_PRESENT OR IDT_INTERRUPT))\<rparr>) s"

definition gate_set :: "nat \<Rightarrow> 'z idt_state_scheme \<Rightarrow> bool" where
  "gate_set i s \<longleftrightarrow> offset_low (idt s i) \<noteq> 0 \<or> offset_high (idt s i) \<noteq> 0"

definition print_idt_info :: "'z idt_state_scheme \<Rightarrow> 'z idt_state_scheme option" where
  "print_idt_info s =
     do { s \<leftarrow> output_string (''IDT Info:'' @ [LF]) s;
          s \<leftarrow> output_string ''  Base: 0x'' s;
          s \<leftarrow> put_hex (idtp_base (idt_ptr s)) s;
          s \<leftarrow> output_string [LF] s;
          s \<leftarrow> output_string ''  Limit: 0x'' s;
          s \<leftarrow> put_hex (ucast (idtp_limit (idt_ptr s))) s;
          s \<leftarrow> output_string [LF] s;
          s \<leftarrow> output_string (''  Number of entries: 256'' @ [LF]) s;
          s \<leftarrow> (if gate_set 0x80 s
               then output_string (''  Interrupt 0x80 handler: SET'' @ [LF]) s
               else output_string (''  Interrupt 0x80 handler: NOT SET'' @ [LF]) s);
          s \<leftarrow> (if gate_set 0 s
               then output_string (''  Divide by zero handler: SET'' @ [LF]) s
               else output_string (''  Divide by zero handler: NOT SET'' @ [LF]) s);
          if gate_set 13 s
          then output_string (''  General Protection Fault handler: SET'' @ [LF]) s
          else output_string (''  General Protection Fault handler: NOT SET'' @ [LF]) s }"

section \<open>What the processor reads in a gate\<close>

definition gate_offset :: "IDTEntry \<Rightarrow> u32" where
  "gate_offset e = ucast (offset_low e) OR push_bit 16 (ucast (offset_high e))"

lemma gate_offset_create: "gate_offset (create_idt_descriptor off sel attr) = off"
  unfolding gate_offset_def create_idt_descriptor_def low_masks
  by (rule bit_word_eqI) (auto simp: bit_simps)

definition all_gates :: "(nat \<Rightarrow> u32) \<Rightarrow> 'z idt_state_scheme \<Rightarrow> 'z idt_state_scheme" where
  "all_gates handler s = s\<lparr>idt := (\<lambda>i. if i < 256 then create_idt_descriptor (handler i) 0x08 0x8E else idt s i)\<rparr>"

text \<open>A loop that writes entry \<open>i\<close> of the table at step \<open>i\<close>.\<close>

lemma idt_loop:
  "for_up 0 n (\<lambda>i s. s\<lparr>idt := (idt s)(i := f i)\<rparr>) s
     = (s :: 'z idt_state_scheme)\<lparr>idt := (\<lambda>i. if i < n then f i else idt s i)\<rparr>"
proof (induction n)
  case (Suc n)
  have "(\<lambda>i. if i < n then f i else idt s i)(n := f n) = (\<lambda>i. if i < Suc n then f i else idt s i)"
    by (auto simp: fun_eq_iff less_Suc_eq)
  with Suc show ?case by (simp add: for_up_Suc fun_upd_def cong: if_cong)
qed simp

lemma generated_idt_init_all: "generated_idt_init handler s = all_gates handler s"
proof -
  have attr: "IDT_PRESENT OR IDT_INTERRUPT = (0x8E :: u8)" by simp
  show ?thesis unfolding generated_idt_init_def all_gates_def idt_loop attr ..
qed

section \<open>The registry as a map\<close>

text \<open>
  The interface of a table of handlers: \<open>lookup\<close> is the handler each vector has,
  if any; registering, unregistering and reading act on it as on a map.
\<close>

locale handler_table =
  fixes register :: "'v \<Rightarrow> ptr \<Rightarrow> 's \<Rightarrow> int \<times> 's" and unregister :: "'v \<Rightarrow> 's \<Rightarrow> int \<times> 's"
    and get :: "'v \<Rightarrow> 's \<Rightarrow> ptr \<times> 's" and lookup :: "'s \<Rightarrow> 'v \<rightharpoonup> ptr" and ok :: "'s \<Rightarrow> bool"
  assumes register_ok: "ok s \<Longrightarrow> ok (snd (register v h s))"
    and register_lookup: "ok s \<Longrightarrow> h \<noteq> 0 \<Longrightarrow> fst (register v h s) = 0 \<and> lookup (snd (register v h s)) = (lookup s)(v \<mapsto> h)"
    and unregister_ok: "ok s \<Longrightarrow> ok (snd (unregister v s))"
    and unregister_lookup: "ok s \<Longrightarrow> fst (unregister v s) = 0 \<and> lookup (snd (unregister v s)) = (lookup s)(v := None)"
    and get_lookup: "ok s \<Longrightarrow> fst (get v s) = (case lookup s v of None \<Rightarrow> 0 | Some h \<Rightarrow> h)
          \<and> lookup (snd (get v s)) = lookup s \<and> ok (snd (get v s))"
begin

text \<open>What is registered is found, on its own vector only, until it is unregistered.\<close>

lemma register_get:
  assumes "ok s" and "h \<noteq> 0"
  shows "fst (get v (snd (register w h s))) = (if v = w then h else fst (get v s))"
  using get_lookup [OF register_ok [OF assms(1)], of v w h] register_lookup [OF assms, of w] get_lookup [OF assms(1), of v]
  by simp

lemma unregister_get:
  assumes "ok s"
  shows "fst (get v (snd (unregister w s))) = (if v = w then 0 else fst (get v s))"
  using get_lookup [OF unregister_ok [OF assms], of v w] unregister_lookup [OF assms, of w] get_lookup [OF assms, of v]
  by simp

lemma register_unregister:
  assumes "ok s" and "h \<noteq> 0" and "lookup s v = None"
  shows "lookup (snd (unregister v (snd (register v h s)))) = lookup s"
  using unregister_lookup [OF register_ok [OF assms(1)], of v v h] register_lookup [OF assms(1,2), of v] assms(3)
  by (auto simp: fun_eq_iff)

end

definition handler_of :: "'z idt_state_scheme \<Rightarrow> u8 \<rightharpoonup> ptr" where
  "handler_of s v = (if interrupt_handlers s v \<noteq> 0 then Some (interrupt_handlers s v) else None)"

text \<open>Static storage is zeroed: before the registry is initialised it has no handler.\<close>

definition registry_ok :: "'z idt_state_scheme \<Rightarrow> bool" where
  "registry_ok s \<longleftrightarrow> (\<not> handlers_initialized s \<longrightarrow> interrupt_handlers s = (\<lambda>_. 0))"

lemma unat_u8_less: "unat (v :: u8) < 256"
proof -
  have "unat v < 2 ^ LENGTH(8)" by (rule unsigned_less)
  then show ?thesis by simp
qed

lemma clear_handlers_loop:
  "n \<le> 256 \<Longrightarrow> for_up 0 n (\<lambda>i s. s\<lparr>interrupt_handlers := (interrupt_handlers s)(of_nat i := 0)\<rparr>) s
     = (s :: 'z idt_state_scheme)\<lparr>interrupt_handlers := (\<lambda>v. if unat v < n then 0 else interrupt_handlers s v)\<rparr>"
proof (induction n)
  case (Suc n)
  have "unat (of_nat n :: u8) = n" using Suc.prems by (simp add: unat_of_nat)
  then have "v = of_nat n \<longleftrightarrow> unat v = n" for v :: u8 by (metis word_unat_eq_iff)
  then have "(\<lambda>v. if unat v < n then 0 else interrupt_handlers s v)(of_nat n := 0)
      = (\<lambda>v. if unat v < Suc n then 0 else interrupt_handlers s v)"
    by (auto simp: fun_eq_iff less_Suc_eq)
  with Suc show ?case by (simp add: for_up_Suc fun_upd_def cong: if_cong)
qed simp

lemma init_interrupt_registry_eq:
  "init_interrupt_registry s = (if handlers_initialized s then s
     else s\<lparr>interrupt_handlers := (\<lambda>_. 0), handlers_initialized := True\<rparr>)"
  by (simp add: init_interrupt_registry_def clear_handlers_loop unat_u8_less Let_def)

lemmas registry_defs = register_interrupt_handler_def unregister_interrupt_handler_def get_interrupt_handler_def
  init_interrupt_registry_eq registry_ok_def handler_of_def unat_u8_less Let_def

interpretation registry: handler_table register_interrupt_handler unregister_interrupt_handler
    get_interrupt_handler handler_of registry_ok
proof
  fix s :: "'z idt_state_scheme" and v h
  assume ok: "registry_ok s"
  have lt: "\<not> 256 \<le> unat (v :: u8)" for v by (simp add: not_le unat_u8_less)
  show "registry_ok (snd (register_interrupt_handler v h s))" "registry_ok (snd (unregister_interrupt_handler v s))"
    by (simp_all add: registry_defs lt)
  show "fst (register_interrupt_handler v h s) = 0 \<and> handler_of (snd (register_interrupt_handler v h s)) = (handler_of s)(v \<mapsto> h)"
    if "h \<noteq> 0" using ok that by (auto simp: registry_defs lt fun_eq_iff)
  show "fst (unregister_interrupt_handler v s) = 0 \<and> handler_of (snd (unregister_interrupt_handler v s)) = (handler_of s)(v := None)"
    using ok by (auto simp: registry_defs lt fun_eq_iff)
  show "fst (get_interrupt_handler v s) = (case handler_of s v of None \<Rightarrow> 0 | Some h \<Rightarrow> h)
      \<and> handler_of (snd (get_interrupt_handler v s)) = handler_of s \<and> registry_ok (snd (get_interrupt_handler v s))"
    using ok by (auto simp: registry_defs lt fun_eq_iff)
qed

section \<open>The interrupt controllers\<close>

lemma held_port: "held s i = Some p \<Longrightarrow> port (port_registry s i) = p"
  by (simp add: held_def split: if_splits)

lemma held_trace [simp]: "held (s\<lparr>trace := h\<rparr>) = held s"
  by (simp add: held_def fun_eq_iff)

lemma write_held: "held s i = Some p \<Longrightarrow> write_port_b (Some i) v s = s\<lparr>trace := Out p v # trace s\<rparr>"
  by (simp add: write_port_b_def out_b_def held_port)

lemma read_held:
  "held s i = Some p \<Longrightarrow> read_port_b (Some i) s
     = (device s (trace s) p, s\<lparr>trace := In p (device s (trace s) p) # trace s\<rparr>)"
  by (simp add: read_port_b_def in_b_def held_port Let_def)

text \<open>The four handles of the controllers, each holding its port.\<close>

definition holds :: "'z ports_scheme \<Rightarrow> port_ptr \<Rightarrow> u16 \<Rightarrow> bool" where
  "holds s h p \<longleftrightarrow> (\<exists>i. h = Some i \<and> held s i = Some p)"

definition pic_ready :: "'z idt_state_scheme \<Rightarrow> bool" where
  "pic_ready s \<longleftrightarrow> holds s (master_pic_cmd s) 0x20 \<and> holds s (master_pic_data s) 0x21
     \<and> holds s (slave_pic_cmd s) 0xA0 \<and> holds s (slave_pic_data s) 0xA1"

lemma holds_trace [simp]: "holds (s\<lparr>trace := h\<rparr>) g p = holds s g p"
  by (simp add: holds_def)

lemma pic_ready_trace [simp]: "pic_ready (s\<lparr>trace := h\<rparr>) = pic_ready s"
  by (simp add: pic_ready_def)

lemma write_holds: "holds s h p \<Longrightarrow> write_port_b h v s = s\<lparr>trace := Out p v # trace s\<rparr>"
  by (auto simp: holds_def write_held)

lemma read_holds:
  "holds s h p \<Longrightarrow> read_port_b h s
     = (device s (trace s) p, s\<lparr>trace := In p (device s (trace s) p) # trace s\<rparr>)"
  by (auto simp: holds_def read_held)

lemma holds_not_None: "holds s h p \<Longrightarrow> h \<noteq> None"
  by (auto simp: holds_def)

lemma same_but_console_holds: "same_but_console s t \<Longrightarrow> holds t h p = holds s h p"
  using same_but_console_registry [of s t] by (simp add: holds_def held_def)

lemma same_but_console_pic:
  "same_but_console s t \<Longrightarrow> master_pic_cmd (t :: 'z idt_state_scheme) = master_pic_cmd s
     \<and> master_pic_data t = master_pic_data s \<and> slave_pic_cmd t = slave_pic_cmd s \<and> slave_pic_data t = slave_pic_data s
     \<and> interrupt_handlers t = interrupt_handlers s \<and> handlers_initialized t = handlers_initialized s
     \<and> idt t = idt s \<and> idt_ptr t = idt_ptr s \<and> gdtr t = gdtr s \<and> idtr t = idtr s \<and> if_flag t = if_flag s \<and> halted t = halted s"
  by (cases s; cases t) (simp add: same_but_console_def)

lemma same_but_console_pic_ready: "same_but_console s t \<Longrightarrow> pic_ready t = pic_ready s"
  using same_but_console_holds [of s t] same_but_console_pic [of s t] by (simp add: pic_ready_def)

text \<open>What an end-of-interrupt writes, newest first.\<close>

definition eoi_events :: "u8 \<Rightarrow> io_event list" where
  "eoi_events v = (if 0x48 \<le> v \<and> v \<le> 0x4F then [Out 0x20 0x20, Out 0xA0 0x20]
     else if 0x40 \<le> v \<and> v \<le> 0x47 then [Out 0x20 0x20] else [])"

lemma pic_send_eoi_events:
  assumes "pic_ready s"
  shows "pic_send_eoi v s = s\<lparr>trace := eoi_events v @ trace s\<rparr>"
proof -
  have h: "holds s (master_pic_cmd s) 0x20" "holds s (slave_pic_cmd s) 0xA0"
    using assms by (simp_all add: pic_ready_def)
  note ne = h [THEN holds_not_None]
  show ?thesis
    using h ne write_holds [OF h(1)] write_holds [OF h(2)]
      write_holds [of "s\<lparr>trace := Out 0xA0 0x20 # trace s\<rparr>" "master_pic_cmd s" "0x20" "0x20"]
    by (simp add: pic_send_eoi_def eoi_events_def Let_def)
qed

lemma held_pic_fields [simp]:
  "held (s\<lparr>master_pic_cmd := x\<rparr>) = held s" "held (s\<lparr>master_pic_data := x\<rparr>) = held s"
  "held (s\<lparr>slave_pic_cmd := x\<rparr>) = held s" "held (s\<lparr>slave_pic_data := x\<rparr>) = held s"
  by (simp_all add: held_def fun_eq_iff)

lemma ports_ok_pic_fields [simp]:
  "ports_ok (s\<lparr>master_pic_cmd := x\<rparr>) = ports_ok s" "ports_ok (s\<lparr>master_pic_data := x\<rparr>) = ports_ok s"
  "ports_ok (s\<lparr>slave_pic_cmd := x\<rparr>) = ports_ok s" "ports_ok (s\<lparr>slave_pic_data := x\<rparr>) = ports_ok s"
  by (simp_all add: ports_ok_def)

lemma same_but_registry_pic:
  "same_but_registry s t \<Longrightarrow> master_pic_cmd (t :: 'z idt_state_scheme) = master_pic_cmd s"
  "same_but_registry s t \<Longrightarrow> master_pic_data t = master_pic_data s"
  "same_but_registry s t \<Longrightarrow> slave_pic_cmd t = slave_pic_cmd s"
  by (cases s, cases t, simp add: same_but_registry_def)+

text \<open>
  Taking the four ports: from a registry with room in which none of them is
  taken, all four requests succeed.
\<close>

lemma pic_init_ports_ready:
  assumes ok: "ports_ok s" and room: "card (dom (held s)) \<le> 60"
    and free: "ran (held s) \<inter> {0x20, 0x21, 0xA0, 0xA1} = {}"
  shows "pic_ready (pic_init_ports s) \<and> ports_ok (pic_init_ports s)
     \<and> ran (held (pic_init_ports s)) = ran (held s) \<union> {0x20, 0x21, 0xA0, 0xA1}
     \<and> card (dom (held (pic_init_ports s))) = card (dom (held s)) + 4
     \<and> pic_init_ports s = s\<lparr>port_registry := port_registry (pic_init_ports s),
         pm_initialized := pm_initialized (pic_init_ports s),
         master_pic_cmd := master_pic_cmd (pic_init_ports s), master_pic_data := master_pic_data (pic_init_ports s),
         slave_pic_cmd := slave_pic_cmd (pic_init_ports s), slave_pic_data := slave_pic_data (pic_init_ports s)\<rparr>"
proof -
  from request_port_grants [OF ok, of "0x20"] room free obtain h1 t1 where 1: "request_port 0x20 s = (Some h1, t1)"
    "held s h1 = None" "held t1 = (held s)(h1 \<mapsto> 0x20)" "ports_ok t1" "card (dom (held t1)) = Suc (card (dom (held s)))"
    "ran (held t1) = insert 0x20 (ran (held s))" "same_but_registry s t1" by auto
  define s1 where "s1 = t1\<lparr>master_pic_cmd := Some h1\<rparr>"
  have "ports_ok s1" "0x21 \<notin> ran (held s1)" "card (dom (held s1)) < 64" using 1 free room by (simp_all add: s1_def)
  from request_port_grants [OF this] obtain h2 t2 where 2: "request_port 0x21 s1 = (Some h2, t2)"
    "held s1 h2 = None" "held t2 = (held s1)(h2 \<mapsto> 0x21)" "ports_ok t2" "card (dom (held t2)) = Suc (card (dom (held s1)))"
    "ran (held t2) = insert 0x21 (ran (held s1))" "same_but_registry s1 t2" by auto
  define s2 where "s2 = t2\<lparr>master_pic_data := Some h2\<rparr>"
  have "ports_ok s2" "0xA0 \<notin> ran (held s2)" "card (dom (held s2)) < 64"
    using 1 2 free room by (simp_all add: s1_def s2_def)
  from request_port_grants [OF this] obtain h3 t3 where 3: "request_port 0xA0 s2 = (Some h3, t3)"
    "held s2 h3 = None" "held t3 = (held s2)(h3 \<mapsto> 0xA0)" "ports_ok t3" "card (dom (held t3)) = Suc (card (dom (held s2)))"
    "ran (held t3) = insert 0xA0 (ran (held s2))" "same_but_registry s2 t3" by auto
  define s3 where "s3 = t3\<lparr>slave_pic_cmd := Some h3\<rparr>"
  have "ports_ok s3" "0xA1 \<notin> ran (held s3)" "card (dom (held s3)) < 64"
    using 1 2 3 free room by (simp_all add: s1_def s2_def s3_def)
  from request_port_grants [OF this] obtain h4 t4 where 4: "request_port 0xA1 s3 = (Some h4, t4)"
    "held s3 h4 = None" "held t4 = (held s3)(h4 \<mapsto> 0xA1)" "ports_ok t4" "card (dom (held t4)) = Suc (card (dom (held s3)))"
    "ran (held t4) = insert 0xA1 (ran (held s3))" "same_but_registry s3 t4" by auto
  have run: "pic_init_ports s = t4\<lparr>slave_pic_data := Some h4\<rparr>"
    using 1(1) 2(1) 3(1) 4(1) by (simp add: pic_init_ports_def s1_def s2_def s3_def Let_def)
  have fields: "master_pic_cmd t4 = Some h1" "master_pic_data t4 = Some h2" "slave_pic_cmd t4 = Some h3"
    using 2(7) 3(7) 4(7) by (simp_all add: same_but_registry_pic s3_def s2_def s1_def)
  have frame: "pic_init_ports s = s\<lparr>port_registry := port_registry (pic_init_ports s),
         pm_initialized := pm_initialized (pic_init_ports s),
         master_pic_cmd := master_pic_cmd (pic_init_ports s), master_pic_data := master_pic_data (pic_init_ports s),
         slave_pic_cmd := slave_pic_cmd (pic_init_ports s), slave_pic_data := slave_pic_data (pic_init_ports s)\<rparr>"
    using 1(7) 2(7) 3(7) 4(7) unfolding run
    by (cases s; cases t1; cases t2; cases t3; cases t4) (simp add: same_but_registry_def s1_def s2_def s3_def)
  have "pic_ready (pic_init_ports s)"
    using 1(2,3) 2(2,3) 3(2,3) 4(2,3) fields
    by (auto simp: pic_ready_def holds_def run s1_def s2_def s3_def split: if_splits)
  moreover have "ran (held (pic_init_ports s)) = ran (held s) \<union> {0x20, 0x21, 0xA0, 0xA1}"
    using 1(6) 2(6) 3(6) 4(6) by (auto simp: run s1_def s2_def s3_def)
  moreover have "ports_ok (pic_init_ports s)" "card (dom (held (pic_init_ports s))) = card (dom (held s)) + 4"
    using 1(5) 2(5) 3(5) 4(4,5) by (simp_all add: run s1_def s2_def s3_def)
  ultimately show ?thesis using frame by blast
qed

section \<open>Remapping and unmasking\<close>

text \<open>The accesses of \<^verbatim>\<open>pic_remap\<close> after its first message, oldest first.\<close>

definition remap_events :: "u8 \<Rightarrow> u8 \<Rightarrow> io_event list" where
  "remap_events mm sm = [In 0x21 mm, In 0xA1 sm, Out 0x20 0x11, Out 0xA0 0x11, Out 0x21 0x40, Out 0xA1 0x48,
     Out 0x21 0x04, Out 0xA1 0x02, Out 0x21 0x01, Out 0xA1 0x01, Out 0x21 mm, Out 0xA1 sm]"

lemma pic_remap_sequence_events:
  assumes "pic_ready s"
  shows "\<exists>mm sm. pic_remap_sequence s = s\<lparr>trace := rev (remap_events mm sm) @ trace s\<rparr>"
proof -
  have h: "holds s (master_pic_cmd s) 0x20" "holds s (master_pic_data s) 0x21"
    "holds s (slave_pic_cmd s) 0xA0" "holds s (slave_pic_data s) 0xA1"
    using assms by (simp_all add: pic_ready_def)
  have r: "read_port_b (master_pic_data s) (s\<lparr>trace := t\<rparr>) = (device s t 0x21, s\<lparr>trace := In 0x21 (device s t 0x21) # t\<rparr>)"
    "read_port_b (slave_pic_data s) (s\<lparr>trace := t\<rparr>) = (device s t 0xA1, s\<lparr>trace := In 0xA1 (device s t 0xA1) # t\<rparr>)" for t
    using h read_holds [of "s\<lparr>trace := t\<rparr>"] by simp_all
  have w: "write_port_b (master_pic_cmd s) v (s\<lparr>trace := t\<rparr>) = s\<lparr>trace := Out 0x20 v # t\<rparr>"
    "write_port_b (master_pic_data s) v (s\<lparr>trace := t\<rparr>) = s\<lparr>trace := Out 0x21 v # t\<rparr>"
    "write_port_b (slave_pic_cmd s) v (s\<lparr>trace := t\<rparr>) = s\<lparr>trace := Out 0xA0 v # t\<rparr>"
    "write_port_b (slave_pic_data s) v (s\<lparr>trace := t\<rparr>) = s\<lparr>trace := Out 0xA1 v # t\<rparr>" for v t
    using h write_holds [of "s\<lparr>trace := t\<rparr>"] by simp_all
  define mm where "mm = device s (trace s) 0x21"
  define sm where "sm = device s (In 0x21 mm # trace s) 0xA1"
  have "pic_remap_sequence s = s\<lparr>trace := rev (remap_events mm sm) @ trace s\<rparr>"
    using read_holds [OF h(2)] by (simp add: pic_remap_sequence_def remap_events_def r w mm_def sm_def)
  then show ?thesis by blast
qed

lemma pic_remap_run:
  assumes "pic_ready s" and "uart_drains (device s)"
  shows "\<exists>t mm sm. pic_remap s = Some t \<and> same_but_console (s\<lparr>trace := trace t\<rparr>) t
     \<and> other_io (trace t) = rev (remap_events mm sm) @ other_io (trace s)"
proof -
  define first where "first = ''PIC remapping: Before - Master vectors 0x20-0x27, Slave vectors 0x28-0x2F'' @ [LF]"
  define last where "last = ''PIC remapped successfully! After - Master vectors 0x40-0x47, Slave vectors 0x48-0x4F'' @ [LF]"
  have nul: "NUL \<notin> set first" "NUL \<notin> set last" by (simp_all add: first_def last_def)
  from printsD [OF prints_literal [OF nul(1)] assms(2)] obtain t1 where t1: "output_string first s = Some t1"
    "same_but_console s t1" "uart_drains (device t1)" by metis
  from assms(1) same_but_console_pic_ready [OF t1(2)] pic_remap_sequence_events [of t1] obtain mm sm
    where q: "pic_remap_sequence t1 = t1\<lparr>trace := rev (remap_events mm sm) @ trace t1\<rparr>" by blast
  have "uart_drains (device (pic_remap_sequence t1))" using t1(3) q by simp
  from printsD [OF prints_literal [OF nul(2)] this] obtain t3 where t3: "output_string last (pic_remap_sequence t1) = Some t3"
    "same_but_console (pic_remap_sequence t1) t3" by metis
  have ne: "master_pic_cmd s \<noteq> None" "slave_pic_cmd s \<noteq> None" "master_pic_data s \<noteq> None" "slave_pic_data s \<noteq> None"
    using assms(1) by (auto simp: pic_ready_def dest: holds_not_None)
  have "pic_remap s = Some t3"
    using ne t1(1) t3(1) unfolding pic_remap_def first_def last_def by (simp only: if_True simp_thms bind.simps Let_def)
  moreover have "other_io (trace t3) = rev (remap_events mm sm) @ other_io (trace s)"
    using same_but_console_io [OF t3(2)] same_but_console_io [OF t1(2)] by (simp add: q remap_events_def)
  moreover have "same_but_console (s\<lparr>trace := trace t3\<rparr>) t3"
    using t1(2) t3(2) unfolding q by (cases s; cases t1; cases t3) (simp add: same_but_console_def)
  ultimately show ?thesis by blast
qed

lemma held_cong: "port_registry s = port_registry t \<Longrightarrow> held s = held t"
  by (simp add: held_def fun_eq_iff)

lemma pic_ready_cong:
  assumes "port_registry s = port_registry t" "master_pic_cmd s = master_pic_cmd t" "master_pic_data s = master_pic_data t"
    "slave_pic_cmd s = slave_pic_cmd t" "slave_pic_data s = slave_pic_data t"
  shows "pic_ready s = pic_ready t"
  using assms held_cong [OF assms(1)] by (simp add: pic_ready_def holds_def)

lemma bit_clear_mask: "b < 8 \<Longrightarrow> bit (clear_mask_bit b m) n \<longleftrightarrow> bit m n \<and> n \<noteq> unat b"
  by (auto simp: clear_mask_bit_def bit_simps dest: bit_imp_le_length)

definition idt_boot :: "device_fn \<Rightarrow> idt_state" where
  "idt_boot d = gdt_state.extend (logger.extend (logger_boot d) \<lparr>gdt = (\<lambda>_. null_descriptor),
       gdt_ptr = \<lparr>gdtp_limit = 0, gdtp_base = 0\<rparr>\<rparr>)
     \<lparr>idt = (\<lambda>_. create_idt_descriptor 0 0 0), idt_ptr = \<lparr>idtp_limit = 0, idtp_base = 0\<rparr>,
      interrupt_handlers = (\<lambda>_. 0), handlers_initialized = False,
      master_pic_cmd = None, master_pic_data = None, slave_pic_cmd = None, slave_pic_data = None\<rparr>"

lemmas boot_defs = idt_boot_def logger_boot_def mem_boot_def terminal_boot_def ports_boot_def
  ports.defs terminal.defs mem.defs logger.defs gdt_state.defs

lemma idt_boot_simps [simp]:
  "device (idt_boot d) = d" "held (idt_boot d) = Map.empty" "ports_ok (idt_boot d)" "registry_ok (idt_boot d)"
  "trace (idt_boot d) = []"
  by (simp_all add: boot_defs held_def ports_ok_def registry_ok_def fun_eq_iff)

section \<open>Properties\<close>

text \<open>
  C21 (the interrupt table). On a registry with room for the four controller
  ports and a UART that drains, with an \<^verbatim>\<open>idt_init.inc\<close> that creates the gate of
  every vector, \<^verbatim>\<open>idt_init\<close> returns; the table register then points at the table
  with a limit of exactly its 256 entries, and gate \<open>i\<close> leads to handler \<open>i\<close>
  through the code segment as a present ring-0 interrupt gate. The controller
  ports are held.
\<close>

theorem idt_init_installs:
  fixes s :: "'z idt_state_scheme"
  assumes inc: "\<And>s. idt_init_inc s = all_gates handler s"
    and ok: "ports_ok s" "card (dom (held s)) \<le> 60" "ran (held s) \<inter> {0x20, 0x21, 0xA0, 0xA1} = {}"
    and live: "uart_drains (device s)"
  shows "\<exists>t. idt_init idt_init_inc addr s = Some t \<and> idtr t = (2047, addr) \<and> pic_ready t
     \<and> (\<forall>i<256. gate_offset (idt t i) = handler i \<and> selector (idt t i) = 0x08 \<and> type_attr (idt t i) = 0x8E)
     \<and> handler_of t = handler_of s \<and> if_flag t = if_flag s"
proof -
  note pp = pic_init_ports_ready [OF ok]
  let ?s1 = "pic_init_ports s"
  have cleared: "for_up 0 256 clear_idt_entry ?s1 = ?s1\<lparr>idt := idt (for_up 0 256 clear_idt_entry ?s1)\<rparr>"
    unfolding clear_idt_entry_def [abs_def] idt_loop by simp
  define s2 where "s2 = (all_gates handler (for_up 0 256 clear_idt_entry ?s1))
      \<lparr>idt_ptr := \<lparr>idtp_limit = 2047, idtp_base = addr\<rparr>, idtr := (2047, addr)\<rparr>"
  have s2: "s2 = ?s1\<lparr>idt := idt s2, idt_ptr := idt_ptr s2, idtr := (2047, addr)\<rparr>"
    unfolding s2_def all_gates_def by (subst cleared) simp
  have gates: "idt s2 i = create_idt_descriptor (handler i) 0x08 0x8E" if "i < 256" for i
    using that by (simp add: s2_def all_gates_def)
  from pp have fr: "?s1 = s\<lparr>port_registry := port_registry ?s1, pm_initialized := pm_initialized ?s1,
         master_pic_cmd := master_pic_cmd ?s1, master_pic_data := master_pic_data ?s1,
         slave_pic_cmd := slave_pic_cmd ?s1, slave_pic_data := slave_pic_data ?s1\<rparr>" by blast
  have s1: "device ?s1 = device s" "interrupt_handlers ?s1 = interrupt_handlers s" "if_flag ?s1 = if_flag s"
    using arg_cong [OF fr, of device] arg_cong [OF fr, of interrupt_handlers] arg_cong [OF fr, of if_flag] by simp_all
  have "device s2 = device ?s1" "interrupt_handlers s2 = interrupt_handlers ?s1" "if_flag s2 = if_flag ?s1"
    "port_registry s2 = port_registry ?s1" "master_pic_cmd s2 = master_pic_cmd ?s1" "master_pic_data s2 = master_pic_data ?s1"
    "slave_pic_cmd s2 = slave_pic_cmd ?s1" "slave_pic_data s2 = slave_pic_data ?s1"
    by (subst s2, simp)+
  then have s2_s: "uart_drains (device s2)" "interrupt_handlers s2 = interrupt_handlers s" "if_flag s2 = if_flag s" "pic_ready s2"
    using s1 live pp held_cong [of s2 ?s1] by (simp_all add: pic_ready_def holds_def)
  have "NUL \<notin> set (''IDT initialized and loaded successfully!'' @ [LF])" by simp
  from printsD [OF prints_literal [OF this] s2_s(1)] obtain t where
    t: "output_string (''IDT initialized and loaded successfully!'' @ [LF]) s2 = Some t" "same_but_console s2 t" by metis
  have "idt_init idt_init_inc addr s = Some t"
    using t(1) by (simp add: idt_init_def inc load_idt_asm_def s2_def Let_def)
  moreover have "idtr t = (2047, addr)" "idt t = idt s2" "handler_of t = handler_of s" "if_flag t = if_flag s" "pic_ready t"
    using same_but_console_pic [OF t(2)] same_but_console_pic_ready [OF t(2)] s2_s s2
    by (simp_all add: handler_of_def fun_eq_iff) (simp add: s2_def)
  moreover have "gate_offset (idt s2 i) = handler i \<and> selector (idt s2 i) = 0x08 \<and> type_attr (idt s2 i) = 0x8E" if "i < 256" for i
    by (simp add: gates [OF that] gate_offset_create) (simp add: create_idt_descriptor_def)
  ultimately show ?thesis by auto
qed

theorem idt_init_installs_witness:
  "\<exists>t. idt_init (generated_idt_init (\<lambda>i. 0x100000 + 32 * of_nat i)) 0x200000 (idt_boot uart_ready) = Some t
     \<and> idtr t = (2047, 0x200000) \<and> gate_offset (idt t 72) = 0x100900"
  using idt_init_installs [where idt_init_inc = "generated_idt_init (\<lambda>i. 0x100000 + 32 * of_nat i)"
      and s = "idt_boot uart_ready" and handler = "\<lambda>i. 0x100000 + 32 * of_nat i" and addr = "0x200000",
      OF generated_idt_init_all] by fastforce

text \<open>
  C20 (dispatch). An interrupt of vector \<open>v\<close> runs the handler registered for \<open>v\<close>,
  if there is one, exactly once, and then ends the interrupt: at both
  controllers, the slave first, for the slave's vectors; at the master for the
  master's; at neither for an exception vector.
\<close>

theorem generic_interrupt_dispatch:
  assumes "handlers_initialized s" and "pic_ready s"
    and code: "\<And>h. handler_of s v = Some h \<Longrightarrow> code h s = Some t \<and> pic_ready t"
    and none: "handler_of s v = None \<Longrightarrow> t = s"
  shows "generic_interrupt_handler_no_error_code code v s =
     Some (t\<lparr>trace := (if 0x48 \<le> v \<and> v \<le> 0x4F then [Out 0x20 0x20, Out 0xA0 0x20]
        else if 0x40 \<le> v \<and> v \<le> 0x47 then [Out 0x20 0x20] else []) @ trace t\<rparr>)"
proof (cases "handler_of s v")
  case None
  with assms show ?thesis
    by (simp add: generic_interrupt_handler_no_error_code_def handler_of_def pic_send_eoi_events eoi_events_def
        split: if_splits)
next
  case (Some h)
  with assms(1) code [OF Some] show ?thesis
    by (simp add: generic_interrupt_handler_no_error_code_def handler_of_def pic_send_eoi_events eoi_events_def
        unat_u8_less split: if_splits)
qed

text \<open>A state with the controllers taken, for the witnesses.\<close>

definition pic_boot :: "device_fn \<Rightarrow> idt_state" where
  "pic_boot d = pic_init_ports (idt_boot d)"

lemma pic_boot_ready: "pic_ready (pic_boot d)" "device (pic_boot d) = d" "interrupt_handlers (pic_boot d) = (\<lambda>_. 0)"
  "handlers_initialized (pic_boot d) = False" "trace (pic_boot d) = []"
proof -
  have pp: "pic_ready (pic_boot d) \<and> pic_boot d = (idt_boot d)\<lparr>port_registry := port_registry (pic_boot d),
         pm_initialized := pm_initialized (pic_boot d),
         master_pic_cmd := master_pic_cmd (pic_boot d), master_pic_data := master_pic_data (pic_boot d),
         slave_pic_cmd := slave_pic_cmd (pic_boot d), slave_pic_data := slave_pic_data (pic_boot d)\<rparr>"
    using pic_init_ports_ready [of "idt_boot d"] unfolding pic_boot_def by simp
  then show "pic_ready (pic_boot d)" ..
  from pp have fr: "pic_boot d = (idt_boot d)\<lparr>port_registry := port_registry (pic_boot d),
         pm_initialized := pm_initialized (pic_boot d),
         master_pic_cmd := master_pic_cmd (pic_boot d), master_pic_data := master_pic_data (pic_boot d),
         slave_pic_cmd := slave_pic_cmd (pic_boot d), slave_pic_data := slave_pic_data (pic_boot d)\<rparr>" ..
  have "interrupt_handlers (idt_boot d) = (\<lambda>_. 0)" "handlers_initialized (idt_boot d) = False"
    by (simp_all add: idt_boot_def gdt_state.defs)
  then show "device (pic_boot d) = d" "interrupt_handlers (pic_boot d) = (\<lambda>_. 0)"
    "handlers_initialized (pic_boot d) = False" "trace (pic_boot d) = []"
    by (subst fr, simp)+
qed

theorem generic_interrupt_dispatch_witness:
  "generic_interrupt_handler_no_error_code (\<lambda>h s. Some (s\<lparr>if_flag := True\<rparr>)) 72
     ((pic_boot uart_ready)\<lparr>handlers_initialized := True, interrupt_handlers := (\<lambda>v. if v = 72 then 0x500 else 0)\<rparr>)
   = Some ((pic_boot uart_ready)\<lparr>handlers_initialized := True, interrupt_handlers := (\<lambda>v. if v = 72 then 0x500 else 0),
       if_flag := True, trace := [Out 0x20 0x20, Out 0xA0 0x20]\<rparr>)"
proof -
  let ?s = "(pic_boot uart_ready)\<lparr>handlers_initialized := True, interrupt_handlers := (\<lambda>v. if v = 72 then 0x500 else 0)\<rparr>"
  have "pic_ready ?s" "pic_ready (?s\<lparr>if_flag := True\<rparr>)"
    using pic_boot_ready(1) [of uart_ready] pic_ready_cong [of ?s "pic_boot uart_ready"]
      pic_ready_cong [of "?s\<lparr>if_flag := True\<rparr>" "pic_boot uart_ready"] by simp_all
  moreover have "handler_of ?s 72 = Some 0x500" by (simp add: handler_of_def)
  ultimately show ?thesis
    using generic_interrupt_dispatch [of ?s 72 "\<lambda>h s. Some (s\<lparr>if_flag := True\<rparr>)" "?s\<lparr>if_flag := True\<rparr>"]
    by (simp add: pic_boot_ready)
qed

text \<open>
  The registry is a map. Registering a handler and reading the registry
  behave as updating and reading a map from vectors to handlers, from the first
  call on: a registered handler is found on its own vector and on no other, and
  unregistering removes it.
\<close>

theorem interrupt_registry_map:
  assumes "registry_ok s" and "h \<noteq> 0"
  shows "fst (get_interrupt_handler v (snd (register_interrupt_handler w h s)))
       = (if v = w then h else fst (get_interrupt_handler v s))
    \<and> fst (get_interrupt_handler v (snd (unregister_interrupt_handler w s)))
       = (if v = w then 0 else fst (get_interrupt_handler v s))
    \<and> (handler_of s w = None \<longrightarrow>
       handler_of (snd (unregister_interrupt_handler w (snd (register_interrupt_handler w h s)))) = handler_of s)"
  using registry.register_get [OF assms] registry.unregister_get [OF assms(1)]
    registry.register_unregister [OF assms] by simp

theorem interrupt_registry_map_witness:
  "fst (get_interrupt_handler 72 (snd (register_interrupt_handler 72 0x1234 (idt_boot uart_ready)))) = 0x1234"
  using interrupt_registry_map [of "idt_boot uart_ready" "0x1234" 72 72] by simp

text \<open>
  Remapping the controllers. With the ports held and a UART that drains
  \<^verbatim>\<open>pic_remap\<close> returns and has reprogrammed both controllers with the four
  initialisation words in order, moving the master to vectors \<open>0x40\<close> and the
  slave to \<open>0x48\<close>, and has written back the masks it read before.
\<close>

theorem pic_remap_reprograms:
  assumes "pic_ready s" and "uart_drains (device s)"
  shows "\<exists>t mm sm. pic_remap s = Some t
     \<and> outs_to 0x20 (trace t) = outs_to 0x20 (trace s) @ [0x11]
     \<and> outs_to 0x21 (trace t) = outs_to 0x21 (trace s) @ [0x40, 0x04, 0x01, mm]
     \<and> outs_to 0xA0 (trace t) = outs_to 0xA0 (trace s) @ [0x11]
     \<and> outs_to 0xA1 (trace t) = outs_to 0xA1 (trace s) @ [0x48, 0x02, 0x01, sm]
     \<and> In 0x21 mm \<in> set (trace t) \<and> In 0xA1 sm \<in> set (trace t) \<and> same_but_console (s\<lparr>trace := trace t\<rparr>) t"
proof -
  from pic_remap_run [OF assms] obtain t mm sm where t: "pic_remap s = Some t" "same_but_console (s\<lparr>trace := trace t\<rparr>) t"
    "other_io (trace t) = rev (remap_events mm sm) @ other_io (trace s)" by blast
  have "outs_to p (trace t) = outs_to p (trace s) @ outs_to p (rev (remap_events mm sm))"
    if "p \<noteq> SERIAL_COM1" for p
    using that outs_to_other_io [OF that, of "trace t"] outs_to_other_io [OF that, of "trace s"] t(3)
    by (simp add: outs_to_append)
  moreover have "set (other_io (trace t)) \<subseteq> set (trace t)" by (auto simp: other_io_def)
  then have "In 0x21 mm \<in> set (trace t)" "In 0xA1 sm \<in> set (trace t)" unfolding t(3) by (auto simp: remap_events_def)
  ultimately show ?thesis using t(1,2) by (intro exI conjI) (auto simp: remap_events_def)
qed

theorem pic_remap_reprograms_witness:
  "\<exists>t. pic_remap (pic_boot uart_ready) = Some t \<and> outs_to 0x20 (trace t) = [0x11]"
  using pic_remap_reprograms [of "pic_boot uart_ready"] by (auto simp: pic_boot_ready)

text \<open>
  Unmasking: with the ports held, \<^verbatim>\<open>pic_unmask_irq\<close> clears exactly the
  mask bit of the interrupt line in the mask it reads at the controller of that
  line, and for a line of the slave also the bit of the cascade line 2 at the
  master; for a line above 15 it does nothing.
\<close>

lemma pic_unmask_irq_clears:
  assumes "pic_ready s"
  shows "pic_unmask_irq irq s =
     (if irq < 8 then
        let m = device s (trace s) 0x21 in s\<lparr>trace := Out 0x21 (clear_mask_bit irq m) # In 0x21 m # trace s\<rparr>
      else if irq < 16 then
        let m = device s (trace s) 0x21; h = Out 0x21 (clear_mask_bit 2 m) # In 0x21 m # trace s; n = device s h 0xA1
        in s\<lparr>trace := Out 0xA1 (clear_mask_bit (irq - 8) n) # In 0xA1 n # h\<rparr>
      else s)
   \<and> (\<forall>b m n. b < 8 \<longrightarrow> bit (clear_mask_bit b m) n \<longleftrightarrow> bit m n \<and> n \<noteq> unat b)"
proof
  have h: "holds s (master_pic_data s) 0x21" "holds s (slave_pic_data s) 0xA1"
    using assms by (simp_all add: pic_ready_def)
  note ne = h [THEN holds_not_None]
  have r: "read_port_b (slave_pic_data s) (s\<lparr>trace := t\<rparr>) = (device s t 0xA1, s\<lparr>trace := In 0xA1 (device s t 0xA1) # t\<rparr>)"
    "write_port_b (master_pic_data s) v (s\<lparr>trace := t\<rparr>) = s\<lparr>trace := Out 0x21 v # t\<rparr>"
    "write_port_b (slave_pic_data s) v (s\<lparr>trace := t\<rparr>) = s\<lparr>trace := Out 0xA1 v # t\<rparr>" for v t
    using h write_holds [of "s\<lparr>trace := t\<rparr>"] read_holds [of "s\<lparr>trace := t\<rparr>"] by simp_all
  show "pic_unmask_irq irq s =
     (if irq < 8 then
        let m = device s (trace s) 0x21 in s\<lparr>trace := Out 0x21 (clear_mask_bit irq m) # In 0x21 m # trace s\<rparr>
      else if irq < 16 then
        let m = device s (trace s) 0x21; h = Out 0x21 (clear_mask_bit 2 m) # In 0x21 m # trace s; n = device s h 0xA1
        in s\<lparr>trace := Out 0xA1 (clear_mask_bit (irq - 8) n) # In 0xA1 n # h\<rparr>
      else s)"
    using ne read_holds [OF h(1)] by (auto simp: pic_unmask_irq_def r Let_def not_less)
qed (simp add: bit_clear_mask)

text \<open>
  Interrupt lines. For a line index below 8 the vectors of the two
  controllers are \<open>0x40\<close> to \<open>0x47\<close> and \<open>0x48\<close> to \<open>0x4F\<close>, no two lines share one,
  and they are the vectors whose interrupts are ended at the controller, or the
  two controllers, the line belongs to.
\<close>

theorem irq_id_to_vector_lines:
  assumes "irq_index a < 8" and "irq_index b < 8" and "irq_type a \<noteq> IRQ_INTERNAL" and "irq_type b \<noteq> IRQ_INTERNAL"
  shows "unat (irq_id_to_vector a) = (if irq_type a = IRQ_PIC1 then 64 else 72) + unat (irq_index a)
    \<and> (irq_id_to_vector a = irq_id_to_vector b \<longrightarrow> a = b)
    \<and> eoi_events (irq_id_to_vector a) = Out 0x20 0x20 # (if irq_type a = IRQ_PIC2 then [Out 0xA0 0x20] else [])"
proof -
  have v: "unat (irq_id_to_vector x) = (if irq_type x = IRQ_PIC1 then 64 else 72) + unat (irq_index x)"
    if "irq_index x < 8" "irq_type x \<noteq> IRQ_INTERNAL" for x
    using that by (cases "irq_type x") (simp_all add: irq_id_to_vector_def word_less_nat_alt unat_add_no_wrap)
  have "a = b" if "irq_id_to_vector a = irq_id_to_vector b"
  proof -
    from that v [OF assms(1,3)] v [OF assms(2,4)] assms
    have "irq_type a = irq_type b \<and> unat (irq_index a) = unat (irq_index b)"
      by (cases "irq_type a"; cases "irq_type b") (auto simp: word_less_nat_alt)
    then show ?thesis by (cases a; cases b) (simp add: word_unat_eq_iff)
  qed
  with v [OF assms(1,3)] assms show ?thesis
    by (cases "irq_type a") (auto simp: eoi_events_def word_le_nat_alt word_less_nat_alt)
qed

theorem irq_id_to_vector_lines_witness:
  "unat (irq_id_to_vector \<lparr>irq_type = IRQ_PIC2, irq_index = 0\<rparr>) = 72"
  using irq_id_to_vector_lines [of "\<lparr>irq_type = IRQ_PIC2, irq_index = 0\<rparr>" "\<lparr>irq_type = IRQ_PIC2, irq_index = 0\<rparr>"]
  by simp

text \<open>The exception handlers print their message and stop the machine.\<close>

lemma exception_handler_halts:
  assumes "prints f str" and "uart_drains (device s)"
  shows "\<exists>t. Option.bind (f s) (\<lambda>s. Some (halt_forever (cli s))) = Some t \<and> halted t \<and> \<not> if_flag t
     \<and> sent t = sent s @ map of_char (crlf str)"
proof -
  from printsD [OF assms] obtain t where "f s = Some t" "sent t = sent s @ map of_char (crlf str)" by metis
  then show ?thesis by (simp add: halt_forever_def cli_def sent_def)
qed

text \<open>
  Exceptions. A division error, a general protection fault and a page fault
  each print what happened, with a UART that drains, turn interrupts off and
  halt.
\<close>

theorem exceptions_halt:
  fixes s :: "'z idt_state_scheme"
  assumes "uart_drains (device s)"
  shows "(\<exists>t. handle_divide_by_zero s = Some t \<and> halted t \<and> \<not> if_flag t \<and> sent t = sent s @ map of_char
        (crlf (''Divide by zero exception occurred!'' @ LF # ''System halted due to divide by zero.'' @ [LF])))
    \<and> (\<exists>t. handle_general_protection_fault s = Some t \<and> halted t \<and> \<not> if_flag t \<and> sent t = sent s @ map of_char
        (crlf (''General Protection Fault occurred!'' @ LF # ''System halted due to GPF.'' @ [LF])))
    \<and> (\<exists>t. handle_page_fault s = Some t \<and> halted t \<and> \<not> if_flag t \<and> sent t = sent s @ map of_char
        (crlf (''Page Fault occurred!'' @ LF # ''System halted due to page fault.'' @ [LF])))"
proof -
  have two: "\<exists>t. Option.bind (output_string a s) (\<lambda>s. Option.bind (output_string b s) (\<lambda>s. Some (halt_forever (cli s)))) = Some t
      \<and> halted t \<and> \<not> if_flag t \<and> sent t = sent s @ map of_char (crlf (a @ b))"
    if "NUL \<notin> set a" "NUL \<notin> set b" for a b
    using exception_handler_halts [OF prints_seq [OF prints_literal [OF that(1)] prints_literal [OF that(2)]] assms]
    by simp
  show ?thesis
    unfolding handle_divide_by_zero_def handle_general_protection_fault_def handle_page_fault_def
    using two [of "''Divide by zero exception occurred!'' @ [LF]" "''System halted due to divide by zero.'' @ [LF]"]
      two [of "''General Protection Fault occurred!'' @ [LF]" "''System halted due to GPF.'' @ [LF]"]
      two [of "''Page Fault occurred!'' @ [LF]" "''System halted due to page fault.'' @ [LF]"]
    by simp
qed

theorem exceptions_halt_witness:
  "\<exists>t. handle_page_fault (idt_boot uart_ready) = Some t \<and> halted t"
  using exceptions_halt [of "idt_boot uart_ready"] by auto

end
