(* ===== verification/Heap_Blocks.thy ===== *)
theory Heap_Blocks
  imports Memory "HOL-Library.Multiset"
begin

text \<open>
  The heap seen by its users: the blocks that are in use, how the allocator
  leaves them alone, and the 32-bit fields of the structures kept in them. The
  structures of \<^verbatim>\<open>rtc.c\<close> and \<^verbatim>\<open>async_executor.c\<close> (wake-up entries, tasks, wakers,
  futures) live in blocks of the heap and are read and written through \<open>field\<close>
  and \<open>set_field\<close>.
\<close>

section \<open>What the allocator writes\<close>

text \<open>
  \<^verbatim>\<open>same_outside A m m'\<close>: the two memories agree on every byte whose address is
  not in \<open>A\<close>.
\<close>

definition same_outside :: "nat set \<Rightarrow> ram \<Rightarrow> ram \<Rightarrow> bool" where
  "same_outside A m m' \<longleftrightarrow> (\<forall>x. unat x \<notin> A \<longrightarrow> m' x = m x)"

lemma same_outside_refl [simp]: "same_outside A m m"
  by (simp add: same_outside_def)

lemma same_outside_trans: "same_outside A m m' \<Longrightarrow> same_outside A m' m'' \<Longrightarrow> same_outside A m m''"
  by (simp add: same_outside_def)

lemma same_outside_mono: "same_outside A m m' \<Longrightarrow> A \<subseteq> B \<Longrightarrow> same_outside B m m'"
  by (auto simp: same_outside_def)

lemma same_outside_store32:
  assumes "same_outside A m m'" and "{unat a..<unat a + 4} \<subseteq> A" and "unat a + 4 \<le> 2 ^ 32"
  shows "same_outside A m (store32 a v m')"
  unfolding same_outside_def
proof (intro allI impI)
  fix x :: ptr assume x: "unat x \<notin> A"
  have "x \<noteq> a + of_nat j" if "j < 4" for j
  proof
    assume eq: "x = a + of_nat j"
    have j: "unat (of_nat j :: ptr) = j" using that by (simp add: unat_of_nat)
    have "unat x = unat a + j"
      using eq j that assms(3) unat_add_no_wrap [of a "of_nat j"] by simp
    moreover have "unat a + j \<in> {unat a..<unat a + 4}" using that by simp
    ultimately show False using x assms(2) by (metis subsetD)
  qed
  with assms(1) x show "store32 a v m' x = m x" by (simp add: store32_other same_outside_def)
qed

lemma load32_same_outside:
  assumes "same_outside A m m'" and "{unat a..<unat a + 4} \<inter> A = {}" and "unat a + 4 \<le> 2 ^ 32"
  shows "load32 m' a = load32 m a"
proof -
  have "m' (a + of_nat j) = m (a + of_nat j)" if "j < 4" for j
  proof -
    have j: "unat (of_nat j :: ptr) = j" using that by (simp add: unat_of_nat)
    have "unat (a + of_nat j) = unat a + j" using j that assms(3) unat_add_no_wrap [of a "of_nat j"] by simp
    moreover have "unat a + j \<in> {unat a..<unat a + 4}" using that by simp
    ultimately have "unat (a + of_nat j) \<notin> A" using assms(2) by (metis IntI emptyE)
    with assms(1) show ?thesis by (simp add: same_outside_def)
  qed
  from this [of 0] this [of 1] this [of 2] this [of 3] show ?thesis by (simp add: load32_def)
qed

text \<open>
  \<^verbatim>\<open>allocate\<close> writes only inside the free segments; \<^verbatim>\<open>deallocate\<close> writes only the
  headers of the free list and of the block it frees.
\<close>

lemma range_subset:
  assumes "{a..<a + n} \<subseteq> A" and "a \<le> b" and "b + m \<le> a + n"
  shows "{b..<b + m} \<subseteq> (A :: nat set)"
proof
  fix x assume "x \<in> {b..<b + m}"
  with assms(2,3) have "x \<in> {a..<a + n}" by simp
  with assms(1) show "x \<in> A" ..
qed

lemma take_block_outside:
  assumes "prev = 0 \<or> ({unat prev + 4..<unat prev + 8} \<subseteq> A \<and> unat prev + 8 \<le> 2 ^ 32)"
    and "{unat h..<unat h + 4} \<subseteq> A" "unat h + 4 \<le> 2 ^ 32" "{unat cur..<unat cur + 4} \<subseteq> A" "unat cur + 4 \<le> 2 ^ 32"
  shows "same_outside A (ram s) (ram (take_block prev cur h full s))"
proof -
  have h: "same_outside A (ram s) (store32 h v (ram s))" for v
    by (rule same_outside_store32) (use assms in simp_all)
  have "same_outside A (ram s) (store32 cur w (store32 h v (ram s)))" for v w
    by (rule same_outside_store32 [OF h]) (use assms in simp_all)
  moreover have "same_outside A (ram s) (store32 (prev + 4) w (store32 h v (ram s)))" if "prev \<noteq> 0" for v w
    by (rule same_outside_store32 [OF h]) (use assms that in \<open>auto simp: unat_plus4\<close>)
  ultimately show ?thesis
    using h by (simp add: take_block_def set_size_def set_next_def Let_def)
qed

lemma seg_in_bytes: "(b, k) \<in> set segs \<Longrightarrow> {b..<b + 8 + k} \<subseteq> seg_bytes segs"
  by (auto simp: seg_bytes_def)

lemma cut_outside:
  assumes c: "cutting s pre a n post prev cur h full D"
  shows "same_outside (seg_bytes (pre @ (a, n) # post)) (ram s) (ram (take_block prev cur h full s))"
proof -
  let ?A = "seg_bytes (pre @ (a, n) # post)"
  note f = cutting_facts [OF c]
  from c have h: "unat h = D - 4" "a + 12 \<le> D" "D \<le> a + 8 + n" and pv: "prev = (if pre = [] then 0 else of_nat (fst (last pre)))"
    by (simp_all add: cutting_def)
  have seg: "{a..<a + (8 + n)} \<subseteq> ?A" using seg_in_bytes [of a n "pre @ (a, n) # post"] by (simp add: add.assoc)
  have prev: "prev = 0 \<or> ({unat prev + 4..<unat prev + 8} \<subseteq> ?A \<and> unat prev + 8 \<le> 2 ^ 32)"
  proof (cases "pre = []")
    case False
    then have l: "last pre \<in> set pre" by simp
    obtain b k where bk: "last pre = (b, k)" by fastforce
    have "b + 8 + k < 2 ^ 32" using f(4) [of b k] f(3) l bk by simp
    then have "unat prev = b" "b + 8 + k < 2 ^ 32" using pv False bk by (simp_all add: unat_of_nat)
    moreover have "{b..<b + 8 + k} \<subseteq> ?A" by (rule seg_in_bytes) (use l bk in simp)
    ultimately show ?thesis using range_subset [of b "8 + k" ?A "b + 4" 4] by (simp add: add.assoc)
  qed (use pv in simp)
  show ?thesis
  proof (rule take_block_outside [OF prev])
    show "{unat h..<unat h + 4} \<subseteq> ?A" unfolding h(1) by (rule range_subset [OF seg]) (use h in simp_all)
    show "unat h + 4 \<le> 2 ^ 32" using h f(3) by simp
    show "{unat cur..<unat cur + 4} \<subseteq> ?A" unfolding f(2) by (rule range_subset [OF seg]) simp_all
    show "unat cur + 4 \<le> 2 ^ 32" using f(2,3) by simp
  qed
qed

lemma allocate_loop_outside:
  assumes "request_ok sz al"
    and "path (ram s) (first_free s) pre cur" and "path (ram s) cur suf 0"
    and "segs_ok 1 (pre @ suf)" and "prev = (if pre = [] then 0 else of_nat (fst (last pre)))"
    and "allocate_loop sz al prev cur s = Some (p, t)"
  shows "same_outside (seg_bytes (pre @ suf)) (ram s) (ram t)"
  using assms(2-6)
proof (induction suf arbitrary: pre cur prev)
  case Nil
  have "allocate_loop sz al q 0 s = Some (0, s)" for q by (subst allocate_loop.simps) simp
  with Nil show ?case by simp
next
  case (Cons sg suf)
  obtain a n where sg: "sg = (a, n)" by fastforce
  from Cons.prems(2) sg have cur: "cur \<noteq> 0" "unat cur = a" "unat (seg_size (ram s) cur) = n"
    and nxt: "path (ram s) (seg_next (ram s) cur) suf 0" by auto
  have top: "a + 8 + n < 2 ^ 32" using segs_ok_above [OF Cons.prems(3), of a n] sg by simp
  let ?e = "cur + 8 + seg_size (ram s) cur"
  let ?d = "(?e - sz) AND NOT (al - 1)" and ?D = "block_data (unat sz) (unat al) (a, n)"
  note arith = step_arith [OF assms(1), of cur "seg_size (ram s) cur", unfolded cur, OF top]
  show ?case
  proof (cases "block_fits (unat sz) (unat al) (a, n)")
    case True
    have "t = take_block prev cur (?d - 4) (?e - (?d - 4)) s"
      using Cons.prems(5) cur True arith(1) by (auto simp: allocate_loop.simps [of sz al prev cur s] Let_def)
    moreover have "cutting s pre a n suf prev cur (?d - 4) (?e - (?d - 4)) ?D"
      using Cons.prems sg arith(2) [OF True] block_data_bounds [OF True] by (auto simp: cutting_def)
    ultimately show ?thesis using cut_outside sg by blast
  next
    case False
    have loop: "allocate_loop sz al cur (seg_next (ram s) cur) s = Some (p, t)"
      using Cons.prems(5) cur False arith(1) by (auto simp: allocate_loop.simps [of sz al prev cur s] Let_def)
    have "path (ram s) (first_free s) (pre @ [(a, n)]) (seg_next (ram s) cur)"
      using Cons.prems(1) cur by (auto simp: path_append)
    moreover have "cur = (if pre @ [(a, n)] = [] then 0 else of_nat (fst (last (pre @ [(a, n)]))))"
      using unat_eq_of_nat [OF cur(2)] by simp
    ultimately show ?thesis
      using Cons.IH [OF _ nxt, of "pre @ [(a, n)]" cur] Cons.prems(3) loop sg by simp
  qed
qed

lemma allocate_outside:
  assumes "request_ok sz al" and "free_list s segs" and "segs_ok 1 segs" and "allocate sz al s = Some (p, t)"
  shows "same_outside (seg_bytes segs) (ram s) (ram t)"
  using allocate_loop_outside [OF assms(1), of s "[]" "first_free s" segs 0 p t] assms(2-4)
  by (auto simp: allocate_def free_list_def split: if_splits)

lemma malloc_outside:
  assumes "malloc_served sz" and "heap_ok s" and "malloc sz s = Some (p, t)"
  shows "same_outside (free_bytes s) (ram s) (ram t)"
proof -
  from assms(2) obtain segs where fl: "free_list s segs" "segs_ok 1 segs" by (auto simp: heap_ok_def)
  have "request_ok sz 8" using assms(1) is_pow2_8 by (simp add: request_ok_def malloc_served_def)
  from allocate_outside [OF this fl] assms(3) show ?thesis by (simp add: free_bytes_eq [OF fl(1)] malloc_def)
qed

definition headers :: "seg list \<Rightarrow> nat set" where
  "headers segs = (\<Union>(b, k) \<in> set segs. {b..<b + 8})"

lemma absorb_outside:
  assumes "{unat p..<unat p + 8} \<subseteq> A" and "unat p + 8 \<le> 2 ^ 32" and "same_outside A m (ram s)"
  shows "same_outside A m (ram (absorb p q s))"
proof -
  have "same_outside A m (store32 p v (ram s))" for v
    by (rule same_outside_store32 [OF assms(3)]) (use assms in auto)
  then have "same_outside A m (store32 (p + 4) w (store32 p v (ram s)))" for v w
    by (rule same_outside_store32) (use assms in \<open>auto simp: unat_plus4\<close>)
  with assms(3) show ?thesis by (simp add: absorb_def set_size_def set_next_def Let_def)
qed

lemma prev_in_headers:
  assumes ok: "heads_ok 1 segs" and prev: "prev = (if below h segs = [] then 0 else of_nat (fst (last (below h segs))))" "prev \<noteq> (0 :: ptr)"
  shows "{unat prev..<unat prev + 8} \<subseteq> headers segs" "unat prev + 8 \<le> 2 ^ 32"
proof -
  let ?pre = "below h segs"
  from prev have ne: "?pre \<noteq> []" by auto
  obtain b m where bm: "last ?pre = (b, m)" by fastforce
  then have mem: "(b, m) \<in> set segs" using ne last_in_set set_takeWhileD by metis
  then have "unat prev = b" using prev ne bm heads_ok_above [OF ok mem] by (simp add: unat_of_nat)
  with mem show "{unat prev..<unat prev + 8} \<subseteq> headers segs" "unat prev + 8 \<le> 2 ^ 32"
    using heads_ok_above [OF ok mem] by (force simp: headers_def)+
qed

text \<open>Writes of \<^verbatim>\<open>set_size\<close> and \<^verbatim>\<open>set_next\<close> to a header inside the allowed bytes.\<close>

lemma header_writes_outside:
  assumes "{unat h..<unat h + 8} \<subseteq> A" and "unat h + 8 \<le> 2 ^ 32" and "same_outside A m (ram s)"
  shows "same_outside A m (ram (set_size h v s))" "same_outside A m (ram (set_next h w s))"
proof -
  have u: "unat (h + 4) = unat h + 4" using assms(2) by (simp add: unat_plus4)
  show "same_outside A m (ram (set_size h v s))"
    unfolding set_size_def by (simp, rule same_outside_store32 [OF assms(3)]) (use assms in auto)
  have "{unat (h + 4)..<unat (h + 4) + 4} \<subseteq> A" unfolding u by (rule range_subset [OF assms(1)]) simp_all
  moreover have "unat (h + 4) + 4 \<le> 2 ^ 32" using u assms(2) by simp
  ultimately show "same_outside A m (ram (set_next h w s))"
    unfolding set_next_def by (simp, intro same_outside_store32 [OF assms(3)])
qed

lemma deallocate_outside:
  assumes fl: "free_list s segs" and ok: "heads_ok 1 segs" and hf: "header_free h segs"
    and p: "unat p = h + 4" and h: "1 \<le> h" "h + 8 + k < 2 ^ 32"
    and size: "unat (load32 (ram s) (p - 4)) = k + 4" and run: "deallocate p s = Some t"
  shows "same_outside ({h..<h + 8} \<union> headers segs) (ram s) (ram t)"
proof -
  let ?h = "p - 4" and ?k = "load32 (ram s) (p - 4) - 4" and ?A = "{h..<h + 8} \<union> headers segs"
  have h': "unat ?h = h" and k': "unat ?k = k" using p size by (simp_all add: unat_sub_no_wrap)
  then have hA: "{unat ?h..<unat ?h + 8} \<subseteq> ?A" "unat ?h + 8 \<le> 2 ^ 32" using h by auto
  define s1 where "s1 = set_next ?h 0 (set_size ?h ?k s)"
  from link_free_list [OF fl ok, of ?h ?k] hf h obtain prev cur where
    walk: "free_list_walk (ram s1) ?h 0 (first_free s1) = Some (prev, cur)"
    and prev: "prev = (if below h segs = [] then 0 else of_nat (fst (last (below h segs))))"
    unfolding s1_def h' k' by blast
  have prevA: "{unat prev..<unat prev + 8} \<subseteq> ?A" "unat prev + 8 \<le> 2 ^ 32" if "prev \<noteq> 0"
    using prev_in_headers [OF ok prev that] by auto
  have o2: "same_outside ?A (ram s) (ram (set_next ?h cur s1))"
    unfolding s1_def by (intro header_writes_outside [OF hA] same_outside_refl)
  define s3 where "s3 = (let s = set_next ?h cur s1 in if prev = 0 then s\<lparr>first_free := ?h\<rparr> else set_next prev ?h s)"
  define s4 where "s4 = (if cur \<noteq> 0 then absorb ?h cur s3 else s3)"
  define s5 where "s5 = (if prev \<noteq> 0 then absorb prev ?h s4 else s4)"
  have o3: "same_outside ?A (ram s) (ram s3)"
    using o2 header_writes_outside(2) [OF prevA o2] by (simp add: s3_def Let_def)
  then have "same_outside ?A (ram s) (ram s4)" unfolding s4_def using absorb_outside [OF hA o3] by simp
  then have "same_outside ?A (ram s) (ram s5)"
    unfolding s5_def using prevA absorb_outside [of prev ?A "ram s" s4 ?h] by (cases "prev = 0") auto
  moreover have "p \<noteq> 0" using p by auto
  then have "deallocate p s = Some s5" using walk by (simp add: deallocate_def s5_def s4_def s3_def s1_def Let_def)
  ultimately show ?thesis using run by simp
qed

section \<open>Live blocks\<close>

text \<open>
  What freeing needs of the blocks that are in use, and keeps: \<^verbatim>\<open>live segs m (p, n)\<close>
  says that the block of \<open>n\<close> data bytes at \<open>p\<close> lies, with its header, clear of
  the headers of the free list, and that its recorded size does not wrap. The
  segments may claim more than is free; only their headers matter here.
\<close>

type_synonym block = "ptr \<times> nat"

definition extent :: "block \<Rightarrow> nat set" where
  "extent b = (case b of (p, n) \<Rightarrow> {unat p - 4..<unat p + n})"

definition live :: "seg list \<Rightarrow> ram \<Rightarrow> block \<Rightarrow> bool" where
  "live segs m b = (case b of (p, n) \<Rightarrow>
     5 \<le> unat p \<and> 4 \<le> n \<and> unat p + n \<le> 2 ^ 32 \<and> extent b \<inter> headers segs = {}
     \<and> 4 \<le> unat (load32 m (p - 4)) \<and> unat p + unat (load32 m (p - 4)) < 2 ^ 32)"

text \<open>The heap with its blocks in use: they are live and pairwise disjoint.\<close>

definition in_use_blocks :: "'z mem_scheme \<Rightarrow> seg list \<Rightarrow> block list \<Rightarrow> bool" where
  "in_use_blocks s segs bs \<longleftrightarrow> free_list s segs \<and> heads_ok 1 segs
     \<and> (\<forall>b \<in> set bs. live segs (ram s) b) \<and> pairwise_disjoint (map extent bs)"

lemma headers_simps [simp]:
  "headers [] = {}" "headers ((b, k) # segs) = {b..<b + 8} \<union> headers segs"
  "headers (xs @ ys) = headers xs \<union> headers ys"
  by (auto simp: headers_def)

lemma join_next_headers: "join_next (h, k) post = (sg, post') \<Longrightarrow> headers post' \<subseteq> headers post"
  by (cases post) (auto simp: join_next_def split: if_splits)

lemma join_next_heads_ok:
  assumes "heads_ok 1 (pre @ (h, k) # post)" and "join_next (h, k) post = ((h, k'), post')"
  shows "heads_ok 1 (pre @ (h, k') # post')"
proof (cases post)
  case Nil
  with assms show ?thesis by (simp add: join_next_def)
next
  case (Cons bm r)
  obtain b m where "bm = (b, m)" by fastforce
  with Cons assms show ?thesis
    by (auto simp: join_next_def heads_ok_append split: if_splits intro: heads_ok_mono)
qed

lemma headers_insert_free: "headers (insert_free (h, k) segs) \<subseteq> {h..<h + 8} \<union> headers segs"
proof -
  let ?pre = "below h segs" and ?post = "above h segs"
  have split: "headers segs = headers ?pre \<union> headers ?post"
    using headers_simps(3) [of ?pre ?post] by (simp add: takeWhile_dropWhile_id)
  obtain k' post' where j: "join_next (h, k) ?post = ((h, k'), post')"
    by (metis join_next_head prod.collapse)
  have "headers post' \<subseteq> headers ?post" using j by (rule join_next_headers)
  moreover have "headers (join_prev ?pre (h, k')) \<subseteq> headers ?pre \<union> {h..<h + 8}"
  proof (cases ?pre rule: rev_cases)
    case (snoc xs an)
    then show ?thesis by (cases an) (auto simp: join_prev_def)
  qed (simp add: join_prev_def)
  ultimately show ?thesis using j split by (auto simp: insert_free_def)
qed

lemma heads_ok_insert_free:
  assumes "heads_ok 1 segs" and "header_free h segs" and "1 \<le> h" and "h + 8 + k < 2 ^ 32"
  shows "heads_ok 1 (insert_free (h, k) segs)"
proof -
  let ?pre = "below h segs" and ?post = "above h segs"
  note ok = heads_ok_insert [OF assms]
  obtain k' post' where j: "join_next (h, k) ?post = ((h, k'), post')"
    by (metis join_next_head prod.collapse)
  have ok': "heads_ok 1 (?pre @ (h, k') # post')" by (rule join_next_heads_ok [OF ok j])
  have "heads_ok 1 (join_prev ?pre (h, k') @ post')"
  proof (cases ?pre rule: rev_cases)
    case Nil
    with ok' show ?thesis by (simp add: join_prev_def)
  next
    case (snoc xs an)
    obtain a n where "an = (a, n)" by fastforce
    with snoc ok' show ?thesis
      by (auto simp: join_prev_def heads_ok_append split: if_splits intro: heads_ok_mono)
  qed
  with j show ?thesis by (simp add: insert_free_def)
qed

lemma live_headers: "live segs m b \<Longrightarrow> extent b \<inter> headers segs = {}"
  by (cases b) (simp add: live_def)

lemma pairwise_disjointD:
  "pairwise_disjoint (map f bs) \<Longrightarrow> x \<in> set bs \<Longrightarrow> y \<in> set bs \<Longrightarrow> x \<noteq> y \<Longrightarrow> f x \<inter> f y = {}"
  by (induction bs) auto

lemma live_cong:
  assumes "live segs m b" and "same_outside A m m'" and "{unat (fst b) - 4..<unat (fst b)} \<inter> A = {}"
    and "extent b \<inter> headers segs' = {}"
  shows "live segs' m' b"
proof -
  obtain p n where b: "b = (p, n)" by fastforce
  from assms(1) b have p: "5 \<le> unat p" by (simp add: live_def)
  then have u: "unat (p - 4) = unat p - 4" by (simp add: unat_sub_no_wrap)
  have "{unat (p - 4)..<unat (p - 4) + 4} \<inter> A = {}" using assms(3) p u b by simp
  then have "load32 m' (p - 4) = load32 m (p - 4)"
    using p u unat_u32_less [of p] by (intro load32_same_outside [OF assms(2)]) simp_all
  then show ?thesis using assms(1,4) b by (simp add: live_def)
qed

lemma live_same_outside:
  assumes "live segs m b" and "same_outside A m m'" and "extent b \<inter> A = {}" and "headers segs' \<subseteq> A \<union> headers segs"
  shows "live segs' m' b"
proof (rule live_cong [OF assms(1,2)])
  have "{unat (fst b) - 4..<unat (fst b)} \<subseteq> extent b" by (cases b) (auto simp: extent_def)
  with assms(3) show "{unat (fst b) - 4..<unat (fst b)} \<inter> A = {}" by blast
  show "extent b \<inter> headers segs' = {}" using live_headers [OF assms(1)] assms(3,4) by blast
qed

text \<open>
  Freeing one of the blocks in use returns, keeps the others in use, and
  changes memory only in the headers of the free list and in the header of the
  freed block.
\<close>

lemma free_live_block:
  assumes "in_use_blocks s segs ((p, n) # bs)"
  shows "\<exists>t segs'. free p s = Some t \<and> in_use_blocks t segs' bs \<and> same_but_heap s t
     \<and> headers segs' \<subseteq> {unat p - 4..<unat p + 4} \<union> headers segs
     \<and> same_outside ({unat p - 4..<unat p + 4} \<union> headers segs) (ram s) (ram t)"
proof -
  let ?h = "unat p - 4" and ?k = "unat (load32 (ram s) (p - 4)) - 4"
  from assms have fl: "free_list s segs" and ok: "heads_ok 1 segs" and lv: "live segs (ram s) (p, n)"
    and rest: "\<forall>b \<in> set bs. live segs (ram s) b" "pairwise_disjoint (map extent bs)"
    and dj: "\<forall>b \<in> set bs. extent (p, n) \<inter> extent b = {}"
    by (auto simp: in_use_blocks_def)
  from lv have p: "5 \<le> unat p" "4 \<le> n" "extent (p, n) \<inter> headers segs = {}"
    "4 \<le> unat (load32 (ram s) (p - 4))" "unat p + unat (load32 (ram s) (p - 4)) < 2 ^ 32"
    by (simp_all add: live_def)
  have hf: "header_free ?h segs"
    unfolding header_free_def
  proof clarify
    fix b k assume "(b, k) \<in> set segs" "\<not> ?h + 8 \<le> b"
    then have "{b..<b + 8} \<subseteq> headers segs" by (auto simp: headers_def)
    with p(3) have dj: "{b..<b + 8} \<inter> {?h..<unat p + n} = {}" unfolding extent_def prod.case by blast
    show "b + 8 \<le> ?h"
    proof (rule ccontr)
      assume "\<not> b + 8 \<le> ?h"
      with \<open>\<not> ?h + 8 \<le> b\<close> p(1,2) have "max b ?h \<in> {b..<b + 8} \<inter> {?h..<unat p + n}" by auto
      with dj show False by blast
    qed
  qed
  have args: "unat p = ?h + 4" "1 \<le> ?h" "?h + 8 + ?k < 2 ^ 32" "unat (load32 (ram s) (p - 4)) = ?k + 4"
    using p by linarith+
  from deallocate_refines [OF fl ok hf args] obtain t where
    t: "deallocate p s = Some t" "free_list t (insert_free (?h, ?k) segs)" "same_but_heap s t" by blast
  let ?segs = "insert_free (?h, ?k) segs"
  have w: "{?h..<?h + 8} = {unat p - 4..<unat p + 4}" using p by auto
  note out = deallocate_outside [OF fl ok hf args t(1), unfolded w]
  note hs = headers_insert_free [of ?h ?k segs, unfolded w]
  have "live ?segs (ram t) b" if "b \<in> set bs" for b
  proof (rule live_same_outside [OF _ out])
    show "live segs (ram s) b" using rest that by blast
    show "headers ?segs \<subseteq> {unat p - 4..<unat p + 4} \<union> headers segs \<union> headers segs" using hs by blast
    have "{unat p - 4..<unat p + 4} \<subseteq> extent (p, n)" using p by (auto simp: extent_def)
    moreover have "extent b \<inter> headers segs = {}" using rest(1) that by (blast dest: live_headers)
    ultimately show "extent b \<inter> ({unat p - 4..<unat p + 4} \<union> headers segs) = {}" using dj that by blast
  qed
  moreover have "heads_ok 1 ?segs" by (rule heads_ok_insert_free [OF ok hf args(2,3)])
  ultimately have "in_use_blocks t ?segs bs" using t(2) rest(2) by (simp add: in_use_blocks_def)
  with t(1,3) out hs show ?thesis by (auto simp: free_def)
qed

section \<open>Fields of structures\<close>

text \<open>
  A structure is its bytes in RAM: a 32-bit field of the structure at \<open>p\<close> is
  the word at its offset, a \<^verbatim>\<open>bool\<close> the byte at its offset. The address of a
  field, which the list code takes with \<^verbatim>\<open>&\<close>, is the sum.
\<close>

definition field :: "ptr \<Rightarrow> u32 \<Rightarrow> 'z mem_scheme \<Rightarrow> u32" where
  "field p off s = load32 (ram s) (p + off)"

definition set_field :: "ptr \<Rightarrow> u32 \<Rightarrow> u32 \<Rightarrow> 'z mem_scheme \<Rightarrow> 'z mem_scheme" where
  "set_field p off v s = s\<lparr>ram := store32 (p + off) v (ram s)\<rparr>"

definition set_byte :: "ptr \<Rightarrow> u8 \<Rightarrow> 'z mem_scheme \<Rightarrow> 'z mem_scheme" where
  "set_byte p v s = s\<lparr>ram := (ram s)(p := v)\<rparr>"

lemma set_field_frame [frame]: "same_but_heap s (set_field p off v s)"
  by (cases s) (simp add: same_but_heap_def set_field_def)

lemma set_byte_frame [frame]: "same_but_heap s (set_byte p v s)"
  by (cases s) (simp add: same_but_heap_def set_byte_def)

lemma field_set_same [simp]: "field p off (set_field p off v s) = v"
  by (simp add: field_def set_field_def)

text \<open>The bytes of a field; a field inside a block does not reach past it.\<close>

definition bytes_of :: "ptr \<Rightarrow> u32 \<Rightarrow> nat set" where
  "bytes_of p off = {unat p + unat off..<unat p + unat off + 4}"

lemma field_cong: "ram s = ram t \<Longrightarrow> field p off s = field p off t"
  by (simp add: field_def)

lemma unat_field:
  "unat p + unat off + 4 \<le> 2 ^ 32 \<Longrightarrow> unat (p + off :: ptr) = unat p + unat off"
  by (simp add: unat_add_no_wrap)

lemma field_same_outside:
  assumes "same_outside A (ram s) (ram t)" and "bytes_of p off \<inter> A = {}" and "unat p + unat off + 4 \<le> 2 ^ 32"
  shows "field p off t = field p off s"
  using assms unat_field [OF assms(3)] unfolding field_def bytes_of_def
  by (intro load32_same_outside) simp_all

lemma set_field_outside:
  assumes "unat p + unat off + 4 \<le> 2 ^ 32"
  shows "same_outside (bytes_of p off) (ram s) (ram (set_field p off v s))"
  using unat_field [OF assms] assms unfolding set_field_def bytes_of_def
  by (simp, intro same_outside_store32) simp_all

lemma field_set_other:
  assumes "bytes_of q off' \<inter> bytes_of p off = {}"
    and "unat p + unat off + 4 \<le> 2 ^ 32" and "unat q + unat off' + 4 \<le> 2 ^ 32"
  shows "field q off' (set_field p off v s) = field q off' s"
  by (rule field_same_outside [OF set_field_outside [OF assms(2)] assms(1,3)])

lemma bytes_in_extent: "unat off + 4 \<le> n \<Longrightarrow> bytes_of p off \<subseteq> extent (p, n)"
  by (auto simp: bytes_of_def extent_def)

lemma set_field_in_use:
  assumes "in_use_blocks s segs bs" and "(p, n) \<in> set bs" and "unat off + 4 \<le> n"
  shows "in_use_blocks (set_field p off v s) segs bs"
proof -
  let ?t = "set_field p off v s" and ?A = "bytes_of p off"
  from assms have lp: "live segs (ram s) (p, n)" by (auto simp: in_use_blocks_def)
  then have p: "5 \<le> unat p" "unat p + n \<le> 2 ^ 32" by (simp_all add: live_def)
  have out: "same_outside ?A (ram s) (ram ?t)" by (rule set_field_outside) (use p assms(3) in linarith)
  have sub: "?A \<subseteq> extent (p, n)" by (rule bytes_in_extent [OF assms(3)])
  have fl: "free_list ?t segs"
  proof -
    have "misses (unat (p + off)) segs"
    proof -
      have u: "unat (p + off) = unat p + unat off" using p assms(3) by (intro unat_field) linarith
      have dj: "?A \<inter> {b..<b + 8} = {}" if "(b, k) \<in> set segs" for b k
        using live_headers [OF lp] sub that by (fastforce simp: headers_def)
      have "unat p + unat off + 4 \<le> b \<or> b + 8 \<le> unat p + unat off" if "(b, k) \<in> set segs" for b k
      proof (rule ccontr)
        assume "\<not> ?thesis"
        then have "max b (unat p + unat off) \<in> ?A \<inter> {b..<b + 8}" by (auto simp: bytes_of_def)
        with dj [OF that] show False by blast
      qed
      moreover have "b + 8 \<le> 2 ^ 32" if "(b, k) \<in> set segs" for b k
        using assms(1) heads_ok_above [of 1 segs b k] that by (auto simp: in_use_blocks_def)
      ultimately show ?thesis using p assms(3) unfolding misses_def u by auto
    qed
    with assms(1) show ?thesis by (simp add: in_use_blocks_def free_list_def set_field_def path_store32)
  qed
  have "live segs (ram ?t) b" if "b \<in> set bs" for b
  proof -
    from assms(1) that have lb: "live segs (ram s) b" by (simp add: in_use_blocks_def)
    have hb: "{unat (fst b) - 4..<unat (fst b)} \<inter> ?A = {}"
    proof (cases "b = (p, n)")
      case True
      then show ?thesis by (auto simp: bytes_of_def)
    next
      case False
      with assms(1,2) that have "extent b \<inter> extent (p, n) = {}"
        unfolding in_use_blocks_def by (blast dest: pairwise_disjointD)
      moreover have "{unat (fst b) - 4..<unat (fst b)} \<subseteq> extent b" by (cases b) (auto simp: extent_def)
      ultimately show ?thesis using sub by blast
    qed
    from live_cong [OF lb out hb live_headers [OF lb]] show ?thesis .
  qed
  with fl assms(1) show ?thesis by (simp add: in_use_blocks_def)
qed

text \<open>Fields of blocks in use, across the operations on other blocks.\<close>

lemma in_use_bounds:
  assumes "in_use_blocks s segs bs" and "(p, n) \<in> set bs" and "unat off + 4 \<le> n"
  shows "unat p + unat off + 4 \<le> 2 ^ 32" and "p \<noteq> 0"
proof -
  from assms(1,2) have "live segs (ram s) (p, n)" by (auto simp: in_use_blocks_def)
  then have "unat p + n \<le> 2 ^ 32" "5 \<le> unat p" by (simp_all add: live_def)
  with assms(3) show "unat p + unat off + 4 \<le> 2 ^ 32" "p \<noteq> 0" by auto
qed

lemma set_field_fields:
  assumes "in_use_blocks s segs bs" and "(p, n) \<in> set bs" and "(q, m) \<in> set bs" and "(p, n) \<noteq> (q, m)"
    and "unat off + 4 \<le> n" and "unat off' + 4 \<le> m"
  shows "field q off' (set_field p off v s) = field q off' s"
proof (rule field_set_other)
  have "extent (p, n) \<inter> extent (q, m) = {}"
    using assms(1-4) unfolding in_use_blocks_def by (blast dest: pairwise_disjointD)
  with bytes_in_extent [OF assms(5), of p] bytes_in_extent [OF assms(6), of q]
  show "bytes_of q off' \<inter> bytes_of p off = {}" by blast
qed (use in_use_bounds [OF assms(1,2,5)] in_use_bounds [OF assms(1,3,6)] in simp_all)

lemma set_field_fields_same:
  assumes "in_use_blocks s segs bs" and "(p, n) \<in> set bs" and "unat off + 4 \<le> n" and "unat off' + 4 \<le> n"
    and "unat off + 4 \<le> unat off' \<or> unat off' + 4 \<le> unat off"
  shows "field p off' (set_field p off v s) = field p off' s"
proof (rule field_set_other)
  show "bytes_of p off' \<inter> bytes_of p off = {}" using assms(5) by (auto simp: bytes_of_def)
qed (use in_use_bounds [OF assms(1,2,3)] in_use_bounds [OF assms(1,2,4)] in simp_all)

lemma free_block_outside:
  assumes "in_use_blocks s segs ((p, n) # bs)"
  shows "\<exists>t segs'. free p s = Some t \<and> in_use_blocks t segs' bs \<and> same_but_heap s t
     \<and> headers segs' \<subseteq> extent (p, n) \<union> headers segs
     \<and> same_outside (extent (p, n) \<union> headers segs) (ram s) (ram t)"
proof -
  have "4 \<le> n" "5 \<le> unat p" using assms by (simp_all add: in_use_blocks_def live_def)
  then have sub: "{unat p - 4..<unat p + 4} \<subseteq> extent (p, n)" by (auto simp: extent_def)
  from free_live_block [OF assms] obtain t segs' where t: "free p s = Some t" "in_use_blocks t segs' bs" "same_but_heap s t"
    "headers segs' \<subseteq> {unat p - 4..<unat p + 4} \<union> headers segs"
    "same_outside ({unat p - 4..<unat p + 4} \<union> headers segs) (ram s) (ram t)" by blast
  have "same_outside (extent (p, n) \<union> headers segs) (ram s) (ram t)"
    by (rule same_outside_mono [OF t(5)]) (use sub in blast)
  with t sub show ?thesis by blast
qed

lemma free_fields:
  assumes "in_use_blocks s segs ((p, n) # bs)"
  shows "\<exists>t segs'. free p s = Some t \<and> in_use_blocks t segs' bs \<and> same_but_heap s t
     \<and> headers segs' \<subseteq> extent (p, n) \<union> headers segs
     \<and> same_outside (extent (p, n) \<union> headers segs) (ram s) (ram t)
     \<and> (\<forall>q m off. (q, m) \<in> set bs \<longrightarrow> unat off + 4 \<le> m \<longrightarrow> field q off t = field q off s)"
proof -
  from free_block_outside [OF assms] obtain t segs' where t: "free p s = Some t" "in_use_blocks t segs' bs" "same_but_heap s t"
    "headers segs' \<subseteq> extent (p, n) \<union> headers segs" "same_outside (extent (p, n) \<union> headers segs) (ram s) (ram t)" by blast
  have "field q off t = field q off s" if q: "(q, m) \<in> set bs" "unat off + 4 \<le> m" for q m off
  proof (rule field_same_outside [OF t(5)])
    have sub: "bytes_of q off \<subseteq> extent (q, m)" by (rule bytes_in_extent [OF q(2)])
    moreover have "extent (p, n) \<inter> extent (q, m) = {}" using assms q(1) by (auto simp: in_use_blocks_def)
    moreover have "extent (q, m) \<inter> headers segs = {}"
      using assms q(1) unfolding in_use_blocks_def by (auto dest: live_headers)
    ultimately show "bytes_of q off \<inter> (extent (p, n) \<union> headers segs) = {}" by blast
    show "unat q + unat off + 4 \<le> 2 ^ 32"
      by (rule in_use_bounds [OF assms, of q m]) (use q in simp_all)
  qed
  with t show ?thesis by blast
qed

text \<open>The order of the blocks does not matter.\<close>

lemma pairwise_disjoint_append:
  "pairwise_disjoint (xs @ ys) \<longleftrightarrow> pairwise_disjoint xs \<and> pairwise_disjoint ys \<and> (\<forall>x \<in> set xs. \<forall>y \<in> set ys. x \<inter> y = {})"
  by (induction xs) auto

lemma pairwise_disjoint_perm:
  assumes "mset xs = mset ys" and "pairwise_disjoint (map f xs)"
  shows "pairwise_disjoint (map f ys)"
  using assms
proof (induction xs arbitrary: ys)
  case (Cons x xs)
  then have "x \<in> set ys" by (metis list.set_intros(1) set_mset_mset)
  then obtain us vs where ys: "ys = us @ x # vs" by (meson split_list)
  then have m: "mset xs = mset (us @ vs)" using Cons.prems(1) by simp
  then have "pairwise_disjoint (map f (us @ vs))" by (rule Cons.IH) (use Cons.prems(2) in simp)
  moreover have "\<forall>y \<in> set (us @ vs). f x \<inter> f y = {}" using Cons.prems(2) mset_eq_setD [OF m] by simp
  ultimately show ?case using ys by (fastforce simp: pairwise_disjoint_append)
qed simp

lemma in_use_perm: "in_use_blocks s segs xs \<Longrightarrow> mset xs = mset ys \<Longrightarrow> in_use_blocks s segs ys"
  using pairwise_disjoint_perm [of xs ys extent] mset_eq_setD [of xs ys] by (simp add: in_use_blocks_def)

lemma in_use_subset:
  assumes "in_use_blocks s segs (xs @ ys)"
  shows "in_use_blocks s segs ys"
  using assms by (auto simp: in_use_blocks_def pairwise_disjoint_append)

lemma in_use_swap: "in_use_blocks s segs (x # xs @ ys) \<Longrightarrow> in_use_blocks s segs (xs @ x # ys)"
  by (erule in_use_perm) simp

lemma in_use_swap': "in_use_blocks s segs (xs @ x # ys) \<Longrightarrow> in_use_blocks s segs (x # xs @ ys)"
  by (erule in_use_perm) simp

lemma in_use_append_swap: "in_use_blocks s segs (xs @ ys @ zs) \<Longrightarrow> in_use_blocks s segs (ys @ xs @ zs)"
  by (erule in_use_perm) simp

lemma in_use_ram: "ram s = ram t \<Longrightarrow> first_free s = first_free t \<Longrightarrow> in_use_blocks s segs bs = in_use_blocks t segs bs"
  by (simp add: in_use_blocks_def free_list_def)

lemma in_use_disjoint:
  assumes "in_use_blocks s segs (xs @ ys)" and "b \<in> set xs" and "c \<in> set ys"
  shows "extent b \<inter> extent c = {}"
proof -
  have "pairwise_disjoint (map extent (xs @ ys))" using assms(1) by (simp add: in_use_blocks_def)
  with assms(2,3) show ?thesis by (induction xs) auto
qed

lemma field_set_disjoint:
  assumes "in_use_blocks s segs bs" and "(p, n) \<in> set bs" and "(q, m) \<in> set bs" and "extent (p, n) \<inter> extent (q, m) = {}"
    and "unat off + 4 \<le> n" and "unat off' + 4 \<le> m"
  shows "field q off' (set_field p off v s) = field q off' s"
proof -
  have "extent (q, m) \<noteq> {}" using assms(6) by (auto simp: extent_def)
  with assms(4) have "(p, n) \<noteq> (q, m)" by auto
  with assms show ?thesis by (intro set_field_fields) auto
qed

lemma set_field_slot: "set_field (p + off) 0 v s = set_field p off v s"
  by (simp add: set_field_def)

text \<open>
  A heap no block of which has been freed out of shape: the segments do not
  overlap, stay clear of the last bytes of the address space, and no block in
  use touches one. Allocation keeps this, and the new block is one more.
\<close>

definition heap_blocks :: "'z mem_scheme \<Rightarrow> seg list \<Rightarrow> block list \<Rightarrow> bool" where
  "heap_blocks s segs bs \<longleftrightarrow> in_use_blocks s segs bs \<and> segs_ok 1 segs \<and> (\<forall>x \<in> seg_bytes segs. x + 5 < 2 ^ 32)
     \<and> (\<forall>b \<in> set bs. extent b \<inter> seg_bytes segs = {})"

lemma heap_blocks_in_use: "heap_blocks s segs bs \<Longrightarrow> in_use_blocks s segs bs"
  by (simp add: heap_blocks_def)

lemma heap_blocks_ok: "heap_blocks s segs bs \<Longrightarrow> heap_ok s"
  by (auto simp: heap_blocks_def in_use_blocks_def heap_ok_def)

lemma headers_seg_bytes: "headers segs \<subseteq> seg_bytes segs"
  by (fastforce simp: headers_def seg_bytes_def)

lemma set_field_heap_blocks:
  "heap_blocks s segs bs \<Longrightarrow> (p, n) \<in> set bs \<Longrightarrow> unat off + 4 \<le> n \<Longrightarrow> heap_blocks (set_field p off v s) segs bs"
  by (simp add: heap_blocks_def set_field_in_use)

lemma heap_blocks_subset: "heap_blocks s segs (xs @ ys) \<Longrightarrow> heap_blocks s segs ys"
  using in_use_subset by (auto simp: heap_blocks_def)

lemma heap_blocks_cong:
  "ram s = ram t \<Longrightarrow> first_free s = first_free t \<Longrightarrow> heap_blocks s segs bs = heap_blocks t segs bs"
  using in_use_ram [of s t segs bs] by (simp add: heap_blocks_def)

lemma malloc_fresh_block:
  assumes hb: "heap_blocks s segs bs" and blk: "first_fit (unat sz) 8 segs = Some (d, full, segs')"
    and sz: "malloc_served sz" "4 \<le> unat sz" and t: "malloc sz s = Some (p, t)" "p = of_nat d" "free_list t segs'"
      "load32 (ram t) (p - 4) = of_nat full"
  shows "p \<noteq> 0 \<and> heap_blocks t segs' ((p, unat sz) # bs)"
proof -
  from hb have ok: "segs_ok 1 segs" and fl: "free_list s segs" by (simp_all add: heap_blocks_def in_use_blocks_def)
  have al: "(0 :: nat) < 8" by simp
  note blk = first_fit_block [OF blk ok al]
  have out: "same_outside (seg_bytes segs) (ram s) (ram t)"
    using malloc_outside [OF sz(1) heap_blocks_ok [OF hb] t(1)] by (simp add: free_bytes_eq [OF fl])
  have d: "unat p = d" using blk t(2) by (simp add: unat_of_nat)
  have "d - 4 + full - 1 \<in> {d - 4..<d - 4 + full}" using blk by auto
  then have "d - 4 + full - 1 \<in> seg_bytes segs" using blk by blast
  then have top: "d + full < 2 ^ 32" using hb blk by (auto simp: heap_blocks_def)
  then have full: "unat (of_nat full :: u32) = full" by (simp add: unat_of_nat)
  have sub: "extent (p, unat sz) \<subseteq> {d - 4..<d - 4 + full}" using blk d by (auto simp: extent_def)
  have new: "extent (p, unat sz) \<subseteq> seg_bytes segs" "extent (p, unat sz) \<inter> seg_bytes segs' = {}" using sub blk by blast+
  have hd': "headers segs' \<subseteq> seg_bytes segs" using headers_seg_bytes [of segs'] blk by blast
  have "live segs' (ram t) (p, unat sz)"
    using new(2) headers_seg_bytes [of segs'] d blk full top t(4) sz(2) unfolding live_def by auto
  moreover have "live segs' (ram t) b" if "b \<in> set bs" for b
    by (rule live_same_outside [OF _ out]) (use hb that hd' in \<open>auto simp: heap_blocks_def in_use_blocks_def\<close>)
  moreover have "\<forall>b \<in> set bs. extent (p, unat sz) \<inter> extent b = {}"
    using hb new(1) unfolding heap_blocks_def by blast
  ultimately have "in_use_blocks t segs' ((p, unat sz) # bs)"
    using hb t(3) segs_ok_heads [of 1 segs'] blk by (simp add: heap_blocks_def in_use_blocks_def)
  moreover have "p \<noteq> 0" using d blk by auto
  moreover have "\<forall>b \<in> set bs. extent b \<inter> seg_bytes segs' = {}" "\<forall>x \<in> seg_bytes segs'. x + 5 < 2 ^ 32"
    using blk hb unfolding heap_blocks_def by blast+
  ultimately show ?thesis using blk new(2) unfolding heap_blocks_def by simp
qed

text \<open>
  Writes that miss the headers of the free list and the headers of the blocks
  leave the blocks in use; \<open>bytes_at\<close> is the range of a structure.
\<close>

definition bytes_at :: "ptr \<Rightarrow> nat \<Rightarrow> nat set" where
  "bytes_at p n = {unat p..<unat p + n}"

lemma in_use_same_outside:
  assumes use: "in_use_blocks s segs bs" and out: "same_outside A (ram s) (ram t)" and ff: "first_free t = first_free s"
    and hd: "A \<inter> headers segs = {}" and blk: "\<And>q n. (q, n) \<in> set bs \<Longrightarrow> A \<inter> {unat q - 4..<unat q} = {}"
  shows "in_use_blocks t segs bs"
proof -
  have fl: "free_list s segs" "heads_ok 1 segs" using use by (simp_all add: in_use_blocks_def)
  have "path (ram t) p xs 0" if "path (ram s) p xs 0" "heads_ok 1 xs" "set xs \<subseteq> set segs" for p xs
    using that
  proof (induction xs arbitrary: p)
    case (Cons x xs)
    obtain b k where x: "x = (b, k)" by fastforce
    from Cons.prems(1) x have p: "unat p = b" "unat (seg_size (ram s) p) = k" "path (ram s) (seg_next (ram s) p) xs 0" "p \<noteq> 0"
      by auto
    have top: "b + 8 \<le> 2 ^ 32" using Cons.prems(2) x by simp
    have "{b..<b + 8} \<subseteq> headers segs" using Cons.prems(3) x by (auto simp: headers_def)
    with hd have dj: "{b..<b + 8} \<inter> A = {}" by blast
    have "load32 (ram t) p = load32 (ram s) p"
      by (rule load32_same_outside [OF out]) (use dj p top in \<open>auto simp: disjoint_iff\<close>)
    moreover have "unat (p + 4) = b + 4" using p(1) top by (simp add: unat_add_no_wrap)
    then have "load32 (ram t) (p + 4) = load32 (ram s) (p + 4)"
      by (intro load32_same_outside [OF out]) (use dj top in \<open>auto simp: disjoint_iff\<close>)
    moreover have "heads_ok 1 xs" using Cons.prems(2) x by (auto intro: heads_ok_mono)
    ultimately show ?case using Cons p x by (simp add: seg_size_def seg_next_def)
  qed simp
  then have "free_list t segs" using fl ff by (simp add: free_list_def)
  moreover have "live segs (ram t) b" if b: "b \<in> set bs" for b
  proof (rule live_cong [OF _ out])
    obtain q n where "b = (q, n)" by fastforce
    then show "{unat (fst b) - 4..<unat (fst b)} \<inter> A = {}" using blk b by (auto simp: disjoint_iff)
    show l: "live segs (ram s) b" using use b by (simp add: in_use_blocks_def)
    then show "extent b \<inter> headers segs = {}" by (rule live_headers)
  qed
  ultimately show ?thesis using use by (simp add: in_use_blocks_def)
qed

lemma same_outside_byte: "same_outside {unat p} m (m(p := v))"
  by (auto simp: same_outside_def)

lemma field_block_kept:
  assumes "same_outside A (ram s) (ram t)" and "A \<inter> extent (q, m) = {}" and "unat off + 4 \<le> m" and "unat q + m \<le> 2 ^ 32"
  shows "field q off t = field q off s"
proof (rule field_same_outside [OF assms(1)])
  show "bytes_of q off \<inter> A = {}" using bytes_in_extent [OF assms(3), of q] assms(2) by blast
  show "unat q + unat off + 4 \<le> 2 ^ 32" using assms(3,4) by simp
qed

text \<open>The bytes of a list of blocks.\<close>

definition area :: "block list \<Rightarrow> nat set" where
  "area bs = \<Union>(extent ` set bs)"

lemma area_simps [simp]: "area [] = {}" "area (b # bs) = extent b \<union> area bs" "area (xs @ ys) = area xs \<union> area ys"
  by (auto simp: area_def)

lemma area_member: "(q, m) \<in> set bs \<Longrightarrow> extent (q, m) \<subseteq> area bs"
  by (auto simp: area_def)

lemma extents_disjoint:
  assumes "in_use_blocks s segs (xs @ ys)"
  shows "\<Union>(extent ` set xs) \<inter> \<Union>(extent ` set ys) = {}"
  using assms by (fastforce simp: in_use_blocks_def pairwise_disjoint_append)

lemma extents_headers:
  assumes "in_use_blocks s segs xs"
  shows "\<Union>(extent ` set xs) \<inter> headers segs = {}"
  using assms live_headers by (fastforce simp: in_use_blocks_def)

lemma block_header_area: "(q, m) \<in> set bs \<Longrightarrow> {unat q - 4..<unat q} \<subseteq> area bs"
  by (force simp: area_def extent_def)

text \<open>A write outside all blocks and headers.\<close>

lemma set_field_static:
  assumes "in_use_blocks s segs bs" and "unat p + unat off + 4 \<le> 2 ^ 32" and "bytes_of p off \<inter> area bs = {}" and "bytes_of p off \<inter> headers segs = {}"
  shows "in_use_blocks (set_field p off v s) segs bs"
proof (rule in_use_same_outside [OF assms(1) set_field_outside [OF assms(2)] _ assms(4)])
  fix q n assume "(q, n) \<in> set bs"
  then show "bytes_of p off \<inter> {unat q - 4..<unat q} = {}" using block_header_area [of q n bs] assms(3) by blast
qed (simp add: set_field_def)

text \<open>
  A block is unlinked by a write to a slot, freed, and a count in another
  structure is set: the rest of the blocks in use is untouched.
\<close>

lemma unlink_block:
  fixes s :: "'z mem_scheme"
  assumes use: "in_use_blocks s segs ((a, n) # bs)" and slot: "(pb, pn) \<in> set bs" "unat poff + 4 \<le> pn"
    and cnt: "(W, wn) \<in> set bs" "unat woff + 4 \<le> wn" and apart: "bytes_of pb poff \<inter> bytes_of W woff = {}"
  obtains u segs' where "free a (set_field pb poff v s) = Some u" "field W woff u = field W woff s" "same_but_heap s (set_field W woff c u)"
    "in_use_blocks (set_field W woff c u) segs' bs" "field pb poff (set_field W woff c u) = v"
    "headers segs' \<subseteq> extent (a, n) \<union> headers segs" "same_but_heap s u"
    "same_outside (extent (a, n) \<union> headers segs \<union> bytes_of pb poff \<union> bytes_of W woff) (ram s) (ram (set_field W woff c u))"
proof -
  let ?s1 = "set_field pb poff v s" and ?A = "extent (a, n) \<union> headers segs \<union> bytes_of pb poff \<union> bytes_of W woff"
  have m: "(pb, pn) \<in> set ((a, n) # bs)" "(W, wn) \<in> set ((a, n) # bs)" using slot(1) cnt(1) by simp_all
  note b = in_use_bounds(1) [OF use m(1) slot(2)] in_use_bounds(1) [OF use m(2) cnt(2)]
  from free_fields [OF set_field_in_use [OF use m(1) slot(2), of v]] obtain u segs' where
    u: "free a ?s1 = Some u" "in_use_blocks u segs' bs" "same_but_heap ?s1 u" "headers segs' \<subseteq> extent (a, n) \<union> headers segs"
      "same_outside (extent (a, n) \<union> headers segs) (ram ?s1) (ram u)"
    and keep: "\<And>q m off. (q, m) \<in> set bs \<Longrightarrow> unat off + 4 \<le> m \<Longrightarrow> field q off u = field q off ?s1" by blast
  let ?t = "set_field W woff c u"
  have "field W woff u = field W woff s"
    using keep [OF cnt] field_set_other [OF _ b, of v s] apart by (simp add: Int_commute)
  moreover have "field pb poff ?t = v"
    using keep [OF slot] field_set_other [OF apart b(2,1), of c u] by simp
  moreover have "in_use_blocks ?t segs' bs" by (rule set_field_in_use [OF u(2) cnt])
  moreover have "same_outside ?A (ram s) (ram ?s1)" "same_outside ?A (ram ?s1) (ram u)" "same_outside ?A (ram u) (ram ?t)"
    using u(5) set_field_outside [OF b(1), of s v] set_field_outside [OF b(2), of u c] by (auto elim: same_outside_mono)
  then have "same_outside ?A (ram s) (ram ?t)" by (blast intro: same_outside_trans)
  moreover have "same_but_heap s u" "same_but_heap s ?t"
    using u(3) by (blast intro: same_but_heap_trans set_field_frame)+
  ultimately show thesis using that u(1,4) by blast
qed

text \<open>Freeing a list of blocks, one after the other.\<close>

fun free_all :: "block list \<Rightarrow> 'z mem_scheme \<Rightarrow> 'z mem_scheme option" where
  "free_all [] s = Some s"
| "free_all (b # bs) s = Option.bind (free (fst b) s) (free_all bs)"

lemma free_all_outside:
  assumes "in_use_blocks s segs (xs @ bs)"
  shows "\<exists>t segs'. free_all xs s = Some t \<and> in_use_blocks t segs' bs \<and> same_but_heap s t
     \<and> headers segs' \<subseteq> \<Union>(extent ` set xs) \<union> headers segs
     \<and> same_outside (\<Union>(extent ` set xs) \<union> headers segs) (ram s) (ram t)"
  using assms
proof (induction xs arbitrary: s segs)
  case (Cons b xs)
  obtain p n where b: "b = (p, n)" by fastforce
  from Cons.prems b have "in_use_blocks s segs ((p, n) # xs @ bs)" by simp
  from free_block_outside [OF this] obtain u segs1 where u: "free p s = Some u" "in_use_blocks u segs1 (xs @ bs)"
    "same_but_heap s u" "headers segs1 \<subseteq> extent b \<union> headers segs"
    "same_outside (extent b \<union> headers segs) (ram s) (ram u)" using b by blast
  from Cons.IH [OF u(2)] obtain t segs' where t: "free_all xs u = Some t" "in_use_blocks t segs' bs" "same_but_heap u t"
    "headers segs' \<subseteq> \<Union>(extent ` set xs) \<union> headers segs1"
    "same_outside (\<Union>(extent ` set xs) \<union> headers segs1) (ram u) (ram t)" by blast
  let ?A = "\<Union>(extent ` set (b # xs)) \<union> headers segs"
  have "same_outside ?A (ram s) (ram u)" by (rule same_outside_mono [OF u(5)]) auto
  moreover have "same_outside ?A (ram u) (ram t)" by (rule same_outside_mono [OF t(5)]) (use u(4) in auto)
  ultimately have "same_outside ?A (ram s) (ram t)" by (rule same_outside_trans)
  moreover have "headers segs' \<subseteq> ?A" using t(4) u(4) by auto
  ultimately show ?case
    using u(1) t(1,2) same_but_heap_trans [OF u(3) t(3)] b by (intro exI [of _ t] exI [of _ segs']) simp
qed auto

text \<open>
  Room for further allocations: a segment of at least \<open>k\<close> bytes beyond its header.
  Serving \<open>sz\<close> bytes takes at most \<open>sz + 12\<close> of them: a header of four and at most
  seven for the alignment.
\<close>

definition has_room :: "nat \<Rightarrow> seg list \<Rightarrow> bool" where
  "has_room k segs \<longleftrightarrow> (\<exists>(b, n) \<in> set segs. k \<le> n)"

definition leaves_room :: "nat \<Rightarrow> seg list \<Rightarrow> seg list \<Rightarrow> bool" where
  "leaves_room m segs segs' \<longleftrightarrow> (\<forall>k. has_room (k + m) segs \<longrightarrow> has_room k segs')"

lemma has_room_simps [simp]: "\<not> has_room k []" "has_room k ((b, n) # segs) \<longleftrightarrow> k \<le> n \<or> has_room k segs"
  by (auto simp: has_room_def)

lemma has_room_mono: "has_room k segs \<Longrightarrow> j \<le> k \<Longrightarrow> has_room j segs"
  by (induction segs) auto

lemma leaves_room_trans: "leaves_room m xs ys \<Longrightarrow> leaves_room n ys zs \<Longrightarrow> leaves_room (m + n) xs zs"
  by (simp add: leaves_room_def) (metis add.assoc add.commute)

lemma leaves_roomD: "leaves_room m xs ys \<Longrightarrow> has_room (k + m) xs \<Longrightarrow> has_room k ys"
  by (simp add: leaves_room_def)

lemma block_data_room:
  assumes "sz + 12 \<le> n"
  shows "a + n < block_data sz 8 (a, n) + sz"
proof -
  have "(a + 8 + n - sz) mod 8 < 8" by simp
  then show ?thesis using assms unfolding block_data_def Let_def by simp
qed

lemma first_fit_room:
  assumes "has_room (k + (sz + 12)) segs"
  shows "\<exists>d full segs'. first_fit sz 8 segs = Some (d, full, segs') \<and> has_room k segs'"
  using assms
proof (induction segs)
  case (Cons sg segs)
  obtain a n where sg: "sg = (a, n)" by fastforce
  show ?case
  proof (cases "block_fits sz 8 (a, n)")
    case True
    have "has_room k (shrink (block_data sz 8 (a, n)) (a, n) @ segs)"
    proof (cases "k + (sz + 12) \<le> n")
      case True
      then have "a + 12 + k < block_data sz 8 (a, n)" using block_data_room [of sz n a] by simp
      then show ?thesis by (auto simp: shrink_def)
    next
      case False
      then show ?thesis using Cons.prems sg has_room_mono [of "k + (sz + 12)" segs k] by (auto simp: has_room_def)
    qed
    with True sg show ?thesis by (simp add: Let_def)
  next
    case False
    then have "n < sz + 12" using block_data_room [of sz n a] by (cases "sz + 12 \<le> n") (auto simp: block_fits_def)
    then have "has_room (k + (sz + 12)) segs" using Cons.prems sg by simp
    with Cons.IH False sg show ?thesis by fastforce
  qed
qed simp

text \<open>Allocation with what it writes: only bytes of the free segments.\<close>

lemma malloc_block:
  assumes hb: "heap_blocks s segs bs" and sz: "malloc_served sz" "4 \<le> unat sz"
  obtains (full) "malloc sz s = Some (0, s)" "\<not> has_room (unat sz + 12) segs"
  | (block) a t segs' where "malloc sz s = Some (a, t)" "a \<noteq> 0" "same_but_heap s t" "heap_blocks t segs' ((a, unat sz) # bs)"
      "same_outside (seg_bytes segs) (ram s) (ram t)" "seg_bytes segs' \<subseteq> seg_bytes segs" "extent (a, unat sz) \<subseteq> seg_bytes segs"
      "leaves_room (unat sz + 12) segs segs'"
proof -
  from hb have ok: "segs_ok 1 segs" and fl: "free_list s segs" by (simp_all add: heap_blocks_def in_use_blocks_def)
  have req: "request_ok sz 8" using sz(1) is_pow2_8 by (simp add: request_ok_def malloc_served_def)
  have nz: "sz \<noteq> 0" using sz(2) by auto
  have al: "(0 :: nat) < 8" by simp
  note ref = allocate_refines [OF req nz fl ok]
  show thesis
  proof (cases "first_fit (unat sz) 8 segs")
    case None
    with ref show thesis using first_fit_room [of 0 "unat sz" segs] by (intro full) (auto simp: malloc_def)
  next
    case (Some r)
    then obtain d k segs' where r: "first_fit (unat sz) 8 segs = Some (d, k, segs')" by (metis prod_cases3)
    from ref r obtain t where t: "malloc sz s = Some (of_nat d, t)" "free_list t segs'"
      "load32 (ram t) (of_nat d - 4) = of_nat k" "same_but_heap s t" by (auto simp: malloc_def)
    note fresh = malloc_fresh_block [OF hb r sz t(1) refl t(2,3)] and blk = first_fit_block [OF r ok al]
    have out: "same_outside (seg_bytes segs) (ram s) (ram t)"
      using malloc_outside [OF sz(1) heap_blocks_ok [OF hb] t(1)] by (simp add: free_bytes_eq [OF fl])
    have "unat (of_nat d :: ptr) = d" using blk by (simp add: unat_of_nat)
    then have "extent (of_nat d, unat sz) \<subseteq> {d - 4..<d - 4 + k}" using blk by (auto simp: extent_def)
    then have "extent (of_nat d, unat sz) \<subseteq> seg_bytes segs" using blk by blast
    moreover have "leaves_room (unat sz + 12) segs segs'" using first_fit_room [of _ "unat sz" segs] r by (fastforce simp: leaves_room_def)
    ultimately show thesis using t fresh out blk by (intro block [of "of_nat d" t segs']) auto
  qed
qed

lemma heap_blocks_same_outside:
  assumes "heap_blocks s segs bs" and "same_outside A (ram s) (ram t)" and "first_free t = first_free s"
    and "A \<inter> headers segs = {}" and "\<And>q n. (q, n) \<in> set bs \<Longrightarrow> A \<inter> {unat q - 4..<unat q} = {}"
  shows "heap_blocks t segs bs"
  using assms(1) in_use_same_outside [OF heap_blocks_in_use [OF assms(1)] assms(2-5)] by (simp add: heap_blocks_def)

text \<open>
  Several fields written one after the other. Writes inside blocks in use keep
  the heap; fields that do not overlap read back what was written.
\<close>

type_synonym field_write = "ptr \<times> u32 \<times> u32"

fun set_fields :: "field_write list \<Rightarrow> 'z mem_scheme \<Rightarrow> 'z mem_scheme" where
  "set_fields [] s = s"
| "set_fields ((p, off, v) # ws) s = set_fields ws (set_field p off v s)"

definition written :: "field_write list \<Rightarrow> nat set" where
  "written ws = \<Union>((\<lambda>(p, off, v). bytes_of p off) ` set ws)"

definition fits :: "field_write list \<Rightarrow> bool" where
  "fits ws \<longleftrightarrow> (\<forall>(p, off, v) \<in> set ws. unat p + unat off + 4 \<le> 2 ^ 32)"

definition within :: "block list \<Rightarrow> field_write list \<Rightarrow> bool" where
  "within bs ws \<longleftrightarrow> (\<forall>(p, off, v) \<in> set ws. \<exists>n. (p, n) \<in> set bs \<and> unat off + 4 \<le> n)"

lemma written_simps [simp]:
  "written [] = {}" "written ((p, off, v) # ws) = bytes_of p off \<union> written ws" "written (xs @ ys) = written xs \<union> written ys"
  by (auto simp: written_def)

lemma fits_simps [simp]:
  "fits []" "fits ((p, off, v) # ws) \<longleftrightarrow> unat p + unat off + 4 \<le> 2 ^ 32 \<and> fits ws"
  by (auto simp: fits_def)

lemma within_simps [simp]:
  "within bs []" "within bs ((p, off, v) # ws) \<longleftrightarrow> (\<exists>n. (p, n) \<in> set bs \<and> unat off + 4 \<le> n) \<and> within bs ws"
  by (auto simp: within_def)

lemma set_fields_append: "set_fields (xs @ ys) s = set_fields ys (set_fields xs s)"
  by (induction xs s rule: set_fields.induct) simp_all

lemma set_fields_frame: "same_but_heap s (set_fields ws s)"
  by (induction ws s rule: set_fields.induct) (auto intro: same_but_heap_trans set_field_frame)

lemma set_fields_free [simp]: "first_free (set_fields ws s) = first_free s"
  by (induction ws s rule: set_fields.induct) (simp_all add: set_field_def)

lemma set_fields_outside: "fits ws \<Longrightarrow> same_outside (written ws) (ram s) (ram (set_fields ws s))"
proof (induction ws s rule: set_fields.induct)
  case (2 p off v ws s)
  then have "same_outside (written ws) (ram (set_field p off v s)) (ram (set_fields ws (set_field p off v s)))"
    and "same_outside (bytes_of p off) (ram s) (ram (set_field p off v s))" by (simp_all add: set_field_outside)
  then show ?case by (simp, meson same_outside_mono same_outside_trans Un_upper1 Un_upper2)
qed simp

lemma field_set_fields_other:
  "fits ws \<Longrightarrow> bytes_of p off \<inter> written ws = {} \<Longrightarrow> unat p + unat off + 4 \<le> 2 ^ 32
     \<Longrightarrow> field p off (set_fields ws s) = field p off s"
  by (rule field_same_outside [OF set_fields_outside])

lemma field_set_fields:
  assumes "fits ws" and "(p, off, v) \<in> set ws" and "pairwise_disjoint (map (\<lambda>(p, off, v). bytes_of p off) ws)"
  shows "field p off (set_fields ws s) = v"
  using assms
proof (induction ws s rule: set_fields.induct)
  case (2 q o' u ws s)
  show ?case
  proof (cases "(p, off, v) \<in> set ws")
    case True
    with 2 show ?thesis by simp
  next
    case False
    then have e: "p = q" "off = o'" "v = u" using "2.prems"(2) by simp_all
    have "bytes_of p off \<inter> written ws = {}" using "2.prems"(3) e by (fastforce simp: written_def)
    then show ?thesis using field_set_fields_other [of ws p off "set_field p off v s"] "2.prems"(1) e by simp
  qed
qed simp

lemma within_fits: "in_use_blocks s segs bs \<Longrightarrow> within bs ws \<Longrightarrow> fits ws"
  using in_use_bounds(1) by (fastforce simp: within_def fits_def)

lemma within_written: "within bs ws \<Longrightarrow> written ws \<subseteq> area bs"
  unfolding written_def within_def area_def using bytes_in_extent by fastforce

lemma set_fields_in_use: "in_use_blocks s segs bs \<Longrightarrow> within bs ws \<Longrightarrow> in_use_blocks (set_fields ws s) segs bs"
  by (induction ws s rule: set_fields.induct) (auto intro: set_field_in_use)

lemma set_fields_heap_blocks: "heap_blocks s segs bs \<Longrightarrow> within bs ws \<Longrightarrow> heap_blocks (set_fields ws s) segs bs"
  by (induction ws s rule: set_fields.induct) (auto intro: set_field_heap_blocks)

lemma block_end: "in_use_blocks s segs bs \<Longrightarrow> (p, n) \<in> set bs \<Longrightarrow> unat p + n \<le> 2 ^ 32"
  by (auto simp: in_use_blocks_def live_def)

lemma heap_blocks_area: "heap_blocks s segs bs \<Longrightarrow> area bs \<inter> seg_bytes segs = {}"
  unfolding heap_blocks_def area_def by blast

lemma bytes_apart:
  assumes "extent (p, n) \<inter> extent (q, m) = {}" and "unat off + 4 \<le> n" and "unat off' + 4 \<le> m"
  shows "bytes_of p off \<inter> bytes_of q off' = {}"
  using assms(1) bytes_in_extent [OF assms(2), of p] bytes_in_extent [OF assms(3), of q] by blast

lemma bytes_same_apart:
  "unat off + 4 \<le> unat off' \<or> unat off' + 4 \<le> unat off \<Longrightarrow> bytes_of p off \<inter> bytes_of p off' = {}"
  by (auto simp: bytes_of_def)

lemma block_apart:
  assumes "in_use_blocks s segs bs" and "b \<in> set bs" and "c \<in> set bs" and "b \<noteq> c"
  shows "extent b \<inter> extent c = {}"
  using assms unfolding in_use_blocks_def by (blast dest: pairwise_disjointD)

lemma heap_blocks_perm: "heap_blocks s segs xs \<Longrightarrow> mset xs = mset ys \<Longrightarrow> heap_blocks s segs ys"
  using in_use_perm [of s segs xs ys] mset_eq_setD [of xs ys] by (simp add: heap_blocks_def)

lemma set_fields_static:
  assumes hb: "heap_blocks s segs bs" and ws: "fits ws" "written ws \<inter> area bs = {}" "written ws \<inter> headers segs = {}"
  shows "heap_blocks (set_fields ws s) segs bs"
proof (rule heap_blocks_same_outside [OF hb set_fields_outside [OF ws(1)] _ ws(3)])
  fix q n assume "(q, n) \<in> set bs"
  then have "{unat q - 4..<unat q} \<subseteq> area bs" using area_member [of q n bs] by (auto simp: extent_def)
  then show "written ws \<inter> {unat q - 4..<unat q} = {}" using ws(2) by blast
qed simp

text \<open>Blocks and headers at known addresses.\<close>

lemma load32_zero: "load32 (\<lambda>_. 0) a = 0"
  by (simp add: load32_def)

lemma extent_disjointI:
  "unat p + n \<le> unat q - 4 \<or> unat q + m \<le> unat p - 4 \<Longrightarrow> extent (p, n) \<inter> extent (q, m) = {}"
  by (auto simp: extent_def)

lemma extent_intervalI: "unat p + n \<le> b \<or> e \<le> unat p - 4 \<Longrightarrow> extent (p, n) \<inter> {b..<e} = {}"
  by (auto simp: extent_def)

end
