(* ===== verification/Async_Time.thy ===== *)
theory Async_Time
  imports Idt Heap_Blocks
begin

text \<open>
  The clock of the kernel and the list of wake-up times (\<^verbatim>\<open>MonotonicTime\<close>,
  \<^verbatim>\<open>WakeUpList\<close> in \<^verbatim>\<open>rtc.c\<close>, \<^verbatim>\<open>executor_wake_up\<close> and the tick counter of
  \<^verbatim>\<open>async_executor.c\<close>), on the byte memory of the heap.
\<close>

section \<open>State\<close>

text \<open>
  The addresses the linker gives to the functions and objects the code takes
  the address of. A call through a pointer runs the function with that address;
  a call to any other address has no defined result.
\<close>

record linker_map =
  sym_sleep_callback :: ptr
  sym_sleep_future_callback :: ptr
  sym_executor_waker_wake :: ptr
  sym_sleep_future_vtable :: ptr
  sym_async_serial_write_vtable :: ptr
  sym_async_rtc_future_vtable :: ptr
  sym_g_executor :: ptr
  sym_rtc_interrupt_handler :: ptr
  sym_custom_interrupt_handler :: ptr
  sym_async_serial_interrupt_handler :: ptr
  sym_gdt :: ptr
  sym_idt :: ptr
  sym_kernel_end :: ptr

record RTCDriver =
  control_port :: port_ptr
  data_port :: port_ptr
  nmi_enabled :: bool

text \<open>
  The static variables of \<^verbatim>\<open>rtc.c\<close>, \<^verbatim>\<open>async_executor.c\<close> and \<^verbatim>\<open>kernel.c\<close>. The
  driver structures of the real-time clock hold port handles and are kept by
  address beside RAM.
\<close>

record async = idt_state +
  system_tick_count :: u32
  monotonic_time :: ptr
  wake_up_list :: ptr
  g_should_poll :: bool
  g_monotonic_ticks :: u32
  rtc_drivers :: "ptr \<Rightarrow> RTCDriver"
  rtc_interrupt_count :: u32
  system_rtc_instance :: ptr
  custom_handler_called :: u32

section \<open>Monotonic time\<close>

definition executor_wake_up :: "'z async_scheme \<Rightarrow> 'z async_scheme" where
  "executor_wake_up s = s\<lparr>g_should_poll := True\<rparr>"

definition monotonic_time_init_global :: "'z async_scheme \<Rightarrow> 'z async_scheme option" where
  "monotonic_time_init_global s =
     (if monotonic_time s = 0
      then do { (p, s) \<leftarrow> malloc 4 s;
                let s = s\<lparr>monotonic_time := p\<rparr>;
                Some (if p \<noteq> 0 then set_field p 0 0 s else s) }
      else Some s)"

definition monotonic_time_get_ticks_global :: "'z async_scheme \<Rightarrow> u32" where
  "monotonic_time_get_ticks_global s =
     (if monotonic_time s \<noteq> 0 then field (monotonic_time s) 0 s else 0)"

definition monotonic_time_increment_global :: "'z async_scheme \<Rightarrow> 'z async_scheme" where
  "monotonic_time_increment_global s =
     (if monotonic_time s \<noteq> 0
      then set_field (monotonic_time s) 0 (field (monotonic_time s) 0 s + 1) s else s)"

definition monotonic_time_init :: "'z async_scheme \<Rightarrow> 'z async_scheme option" where
  "monotonic_time_init s =
     output_string (''Monotonic time initialized'' @ [LF]) (s\<lparr>g_monotonic_ticks := 0\<rparr>)"

definition monotonic_time_get_ticks :: "'z async_scheme \<Rightarrow> u32" where
  "monotonic_time_get_ticks s = g_monotonic_ticks s"

definition monotonic_time_increment :: "'z async_scheme \<Rightarrow> 'z async_scheme" where
  "monotonic_time_increment s = s\<lparr>g_monotonic_ticks := g_monotonic_ticks s + 1\<rparr>"

section \<open>The wake-up list\<close>

text \<open>
  \<^verbatim>\<open>WakeUpList\<close> is \<^verbatim>\<open>entries\<close> at 0 and \<^verbatim>\<open>entry_count\<close> at 4. \<^verbatim>\<open>WakeUpEntry\<close> is
  \<^verbatim>\<open>wake_up_tick\<close> at 0, \<^verbatim>\<open>callback\<close> at 4, \<^verbatim>\<open>callback_data\<close> at 8 and \<^verbatim>\<open>next\<close> at 12.
\<close>

definition wake_up_list_init :: "'z async_scheme \<Rightarrow> 'z async_scheme option" where
  "wake_up_list_init s =
     (if wake_up_list s = 0
      then do { (p, s) \<leftarrow> malloc 8 s;
                let s = s\<lparr>wake_up_list := p\<rparr>;
                Some (if p \<noteq> 0 then set_field p 4 0 (set_field p 0 0 s) else s) }
      else Some s)"

definition wake_up_list_add :: "u32 \<Rightarrow> ptr \<Rightarrow> ptr \<Rightarrow> 'z async_scheme \<Rightarrow> 'z async_scheme option" where
  "wake_up_list_add wake_up_tick callback callback_data s =
     (if wake_up_list s = 0 then Some s
      else do { (new_entry, s) \<leftarrow> malloc 16 s;
                if new_entry = 0 then Some s
                else let s = set_field new_entry 0 wake_up_tick s;
                         s = set_field new_entry 4 callback s;
                         s = set_field new_entry 8 callback_data s;
                         s = set_field new_entry 12 (field (wake_up_list s) 0 s) s;
                         s = set_field (wake_up_list s) 0 new_entry s
                     in Some (set_field (wake_up_list s) 4 (field (wake_up_list s) 4 s + 1) s) })"

text \<open>
  The two callbacks of the sources, \<^verbatim>\<open>sleep_callback\<close> of \<^verbatim>\<open>rtc.c\<close> and
  \<^verbatim>\<open>sleep_future_callback\<close> of \<^verbatim>\<open>async_executor.c\<close>, ignore their argument. A call
  through the pointer of an entry runs the one at that address.
\<close>

definition sleep_callback :: "ptr \<Rightarrow> 'z async_scheme \<Rightarrow> 'z async_scheme" where
  "sleep_callback data s = executor_wake_up s"

definition sleep_future_callback :: "ptr \<Rightarrow> 'z async_scheme \<Rightarrow> 'z async_scheme" where
  "sleep_future_callback data s = executor_wake_up s"

declare sleep_callback_def [simp] sleep_future_callback_def [simp]

definition call_callback :: "linker_map \<Rightarrow> ptr \<Rightarrow> ptr \<Rightarrow> 'z async_scheme \<Rightarrow> 'z async_scheme option" where
  "call_callback L p data s =
     (if p = sym_sleep_callback L then Some (sleep_callback data s)
      else if p = sym_sleep_future_callback L then Some (sleep_future_callback data s)
      else None)"

partial_function (option) wake_up_loop ::
    "linker_map \<Rightarrow> u32 \<Rightarrow> ptr \<Rightarrow> ptr \<Rightarrow> 'z async_scheme \<Rightarrow> 'z async_scheme option" where
  "wake_up_loop L current_tick prev_ptr current s =
     (if current \<noteq> 0 then
        if field current 0 s \<le> current_tick then
          do { s \<leftarrow> (if field current 4 s \<noteq> 0
                    then call_callback L (field current 4 s) (field current 8 s) s else Some s);
               let s = set_field prev_ptr 0 (field current 12 s) s;
               let to_free = current;
               let current = field current 12 s;
               s \<leftarrow> free to_free s;
               let s = set_field (wake_up_list s) 4 (field (wake_up_list s) 4 s - 1) s;
               wake_up_loop L current_tick prev_ptr current s }
        else wake_up_loop L current_tick (current + 12) (field current 12 s) s
      else Some s)"

definition wake_up_list_check_and_execute :: "linker_map \<Rightarrow> 'z async_scheme \<Rightarrow> 'z async_scheme option" where
  "wake_up_list_check_and_execute L s =
     (if wake_up_list s = 0 then Some s
      else let current_tick = monotonic_time_get_ticks_global s;
               current = field (wake_up_list s) 0 s
           in wake_up_loop L current_tick (wake_up_list s) current s)"

section \<open>The wake-up list in memory\<close>

text \<open>An entry: its address, its tick, its callback and the callback's argument.\<close>

type_synonym wake_entry = "ptr \<times> u32 \<times> ptr \<times> ptr"

fun wake_path :: "'z async_scheme \<Rightarrow> ptr \<Rightarrow> wake_entry list \<Rightarrow> bool" where
  "wake_path s p [] \<longleftrightarrow> p = 0"
| "wake_path s p ((a, tick, cb, dat) # es) \<longleftrightarrow> p = a \<and> field a 0 s = tick \<and> field a 4 s = cb \<and> field a 8 s = dat
     \<and> wake_path s (field a 12 s) es"

definition entry_block :: "wake_entry \<Rightarrow> block" where
  "entry_block e = (fst e, 16)"

lemma entry_block_simp [simp]: "entry_block (a, tick, cb, dat) = (a, 16)"
  by (simp add: entry_block_def)

lemma wake_path_cong:
  assumes "\<And>a off. a \<in> fst ` set es \<Longrightarrow> off \<in> {0, 4, 8, 12} \<Longrightarrow> field a off t = field a off s"
  shows "wake_path t p es = wake_path s p es"
  using assms
proof (induction es arbitrary: p)
  case (Cons e es)
  obtain a tick cb dat where "e = (a, tick, cb, dat)" by (metis prod_cases4)
  with Cons show ?case by simp
qed simp

text \<open>The callbacks the kernel registers: none, or one of the two that wake the executor.\<close>

definition known_callback :: "linker_map \<Rightarrow> ptr \<Rightarrow> bool" where
  "known_callback L cb \<longleftrightarrow> cb = 0 \<or> cb = sym_sleep_callback L \<or> cb = sym_sleep_future_callback L"

definition expired :: "u32 \<Rightarrow> wake_entry \<Rightarrow> bool" where
  "expired now e \<longleftrightarrow> fst (snd e) \<le> now"

text \<open>Checking the list touches memory, the free list and the poll flag only.\<close>

definition same_but_wake :: "'z async_scheme \<Rightarrow> 'z async_scheme \<Rightarrow> bool" where
  "same_but_wake s t \<longleftrightarrow> t = s\<lparr>ram := ram t, first_free := first_free t, g_should_poll := g_should_poll t\<rparr>"

lemma same_but_wake_refl [simp]: "same_but_wake s s"
  by (simp add: same_but_wake_def)

lemma same_but_wake_trans: "same_but_wake s t \<Longrightarrow> same_but_wake t u \<Longrightarrow> same_but_wake s u"
  by (cases s; cases t; cases u) (simp add: same_but_wake_def)

lemma same_but_heap_wake: "same_but_heap s t \<Longrightarrow> same_but_wake s t"
  by (cases s; cases t) (simp add: same_but_heap_def same_but_wake_def)

lemma same_but_heap_async:
  "same_but_heap s t \<Longrightarrow> wake_up_list (t :: 'z async_scheme) = wake_up_list s \<and> g_should_poll t = g_should_poll s
     \<and> monotonic_time t = monotonic_time s"
  by (cases s; cases t) (simp add: same_but_heap_def)

lemma wake_up_frame: "same_but_wake s (executor_wake_up s)"
  by (cases s) (simp add: same_but_wake_def executor_wake_up_def)

text \<open>Entries whose blocks are left alone stay where they are.\<close>

lemma wake_path_kept:
  assumes use: "in_use_blocks s segs (map entry_block es @ bs)" and out: "same_outside A (ram s) (ram t)"
    and A: "A \<inter> area (map entry_block es) = {}"
  shows "wake_path t p es = wake_path s p es"
proof (rule wake_path_cong)
  fix a off assume "a \<in> fst ` set es" "off \<in> {0, 4, 8, 12 :: u32}"
  then have a: "(a, 16) \<in> set (map entry_block es)" "unat off + 4 \<le> 16" by (auto simp: entry_block_def)
  show "field a off t = field a off s"
  proof (rule field_same_outside [OF out])
    show "bytes_of a off \<inter> A = {}" using bytes_in_extent [OF a(2), of a] area_member [OF a(1)] A by blast
    show "unat a + unat off + 4 \<le> 2 ^ 32" by (rule in_use_bounds [OF use _ a(2)]) (use a(1) in simp)
  qed
qed

text \<open>
  What the loop has made of the entries \<open>es\<close> from a slot on: the expired ones are
  freed, the slot leads to the others, and outside the entries and the headers of
  the free list only the slot and the count have changed.
\<close>

definition wake_result :: "u32 \<Rightarrow> 'z async_scheme \<Rightarrow> seg list \<Rightarrow> wake_entry list \<Rightarrow> ptr \<Rightarrow> u32
    \<Rightarrow> block list \<Rightarrow> seg list \<Rightarrow> 'z async_scheme \<Rightarrow> bool" where
  "wake_result now s segs es pb poff bs segs' t \<longleftrightarrow>
     in_use_blocks t segs' (map entry_block (filter (\<lambda>e. \<not> expired now e) es) @ bs)
     \<and> headers segs' \<subseteq> area (map entry_block es) \<union> headers segs
     \<and> same_outside (area (map entry_block es) \<union> headers segs \<union> bytes_of pb poff \<union> bytes_of (wake_up_list s) 4) (ram s) (ram t)
     \<and> wake_path t (field pb poff t) (filter (\<lambda>e. \<not> expired now e) es)
     \<and> field (wake_up_list s) 4 t = field (wake_up_list s) 4 s - of_nat (length (filter (expired now) es))
     \<and> (g_should_poll t \<longleftrightarrow> g_should_poll s \<or> (\<exists>e \<in> set es. expired now e \<and> fst (snd (snd e)) \<noteq> 0))
     \<and> same_but_wake s t"

text \<open>A field of another block that is neither the slot nor the count.\<close>

lemma wake_kept:
  assumes use: "in_use_blocks s segs (map entry_block es @ bs)"
    and out: "same_outside (area (map entry_block es) \<union> headers segs \<union> S \<union> C) (ram s) (ram t)"
    and q: "(q, m) \<in> set bs" "unat off + 4 \<le> m" "bytes_of q off \<inter> S = {}" "bytes_of q off \<inter> C = {}"
  shows "field q off t = field q off s"
proof (rule field_same_outside [OF out])
  have "bytes_of q off \<subseteq> area bs" using bytes_in_extent [OF q(2), of q] area_member [OF q(1)] by blast
  moreover have "area (map entry_block es) \<inter> area bs = {}" using extents_disjoint [OF use] unfolding area_def .
  moreover have "area bs \<inter> headers segs = {}" using extents_headers [OF in_use_subset [OF use]] unfolding area_def .
  ultimately show "bytes_of q off \<inter> (area (map entry_block es) \<union> headers segs \<union> S \<union> C) = {}" using q(3,4) by blast
  show "unat q + unat off + 4 \<le> 2 ^ 32" by (rule in_use_bounds [OF in_use_subset [OF use] q(1,2)])
qed

text \<open>One expired entry: the callback runs, the entry is unlinked and freed, the count drops.\<close>

definition wake_freed :: "'z async_scheme \<Rightarrow> seg list \<Rightarrow> wake_entry \<Rightarrow> wake_entry list \<Rightarrow> ptr \<Rightarrow> u32 \<Rightarrow> block list
    \<Rightarrow> seg list \<Rightarrow> 'z async_scheme \<Rightarrow> bool" where
  "wake_freed s segs e es pb poff bs segs' t \<longleftrightarrow>
     in_use_blocks t segs' (map entry_block es @ bs) \<and> headers segs' \<subseteq> extent (entry_block e) \<union> headers segs
     \<and> same_outside (extent (entry_block e) \<union> headers segs \<union> bytes_of pb poff \<union> bytes_of (wake_up_list s) 4) (ram s) (ram t)
     \<and> field pb poff t = field (fst e) 12 s \<and> wake_path t (field (fst e) 12 s) es
     \<and> field (wake_up_list s) 4 t = field (wake_up_list s) 4 s - 1
     \<and> (g_should_poll t \<longleftrightarrow> g_should_poll s \<or> fst (snd (snd e)) \<noteq> 0) \<and> same_but_wake s t"

lemma wake_step_loop:
  fixes s :: "'z async_scheme"
  assumes path: "wake_path s a ((a, tick, cb, dat) # es)" and cb: "known_callback L cb" and exp: "tick \<le> now" and a: "a \<noteq> 0"
  defines "s0 \<equiv> if cb \<noteq> 0 then executor_wake_up s else s"
  assumes u: "free a (set_field pb poff (field a 12 s) s0) = Some u" "wake_up_list u = wake_up_list s"
    and a12: "field a 12 (set_field pb poff (field a 12 s) s0) = field a 12 s"
  shows "wake_up_loop L now (pb + poff) a s
     = wake_up_loop L now (pb + poff) (field a 12 s) (set_field (wake_up_list s) 4 (field (wake_up_list s) 4 u - 1) u)"
proof -
  have "(if field a 4 s \<noteq> 0 then call_callback L (field a 4 s) (field a 8 s) s else Some s) = Some s0"
    using path cb by (auto simp: s0_def call_callback_def known_callback_def)
  moreover have "field a 12 s0 = field a 12 s" by (simp add: s0_def executor_wake_up_def field_def)
  ultimately show ?thesis using path exp a u a12 by (subst wake_up_loop.simps) (simp add: set_field_slot Let_def)
qed

lemma wake_step:
  fixes s :: "'z async_scheme"
  assumes use: "in_use_blocks s segs (map entry_block ((a, tick, cb, dat) # es) @ bs)"
    and slot: "(pb, pn) \<in> set bs" "unat poff + 4 \<le> pn" and W: "(wake_up_list s, 8) \<in> set bs"
    and apart: "bytes_of pb poff \<inter> bytes_of (wake_up_list s) 4 = {}"
    and path: "wake_path s a ((a, tick, cb, dat) # es)" and cb: "known_callback L cb" and exp: "tick \<le> now"
  obtains t segs' where "wake_up_loop L now (pb + poff) a s = wake_up_loop L now (pb + poff) (field a 12 s) t"
    "wake_freed s segs (a, tick, cb, dat) es pb poff bs segs' t"
proof -
  let ?W = "wake_up_list s" and ?nx = "field a 12 s" and ?es = "(a, tick, cb, dat) # es"
  let ?A = "extent (a, 16) \<union> headers segs \<union> bytes_of pb poff \<union> bytes_of ?W 4"
  define s0 where "s0 = (if cb \<noteq> 0 then executor_wake_up s else s)"
  have s0: "ram s0 = ram s" "first_free s0 = first_free s" "wake_up_list s0 = ?W" "g_should_poll s0 \<longleftrightarrow> g_should_poll s \<or> cb \<noteq> 0"
    by (simp_all add: s0_def executor_wake_up_def)
  have fr0: "same_but_wake s s0" by (simp add: s0_def wake_up_frame)
  have f0: "field q off s0 = field q off s" for q off by (rule field_cong [OF s0(1)])
  have use0: "in_use_blocks s0 segs ((a, 16) # map entry_block es @ bs)" using use in_use_ram [OF s0(1,2)] by (simp add: entry_block_def)
  have m: "(pb, pn) \<in> set (map entry_block es @ bs)" "(?W, 8) \<in> set (map entry_block es @ bs)" using slot(1) W by simp_all
  obtain u segs' where u: "free a (set_field pb poff ?nx s0) = Some u" "field ?W 4 u = field ?W 4 s0" "same_but_heap s0 u"
    and t: "same_but_heap s0 (set_field ?W 4 (field ?W 4 s - 1) u)" "in_use_blocks (set_field ?W 4 (field ?W 4 s - 1) u) segs' (map entry_block es @ bs)"
      "field pb poff (set_field ?W 4 (field ?W 4 s - 1) u) = ?nx" "headers segs' \<subseteq> extent (a, 16) \<union> headers segs"
      "same_outside ?A (ram s0) (ram (set_field ?W 4 (field ?W 4 s - 1) u))"
    by (rule unlink_block [OF use0 m(1) slot(2) m(2) _ apart, of ?nx "field ?W 4 s - 1"]) auto
  define t where "t = set_field ?W 4 (field ?W 4 s - 1) u"
  have dj: "extent (a, 16) \<inter> area bs = {}" "area (map entry_block ?es) \<inter> area bs = {}"
    using extents_disjoint [OF use] by (auto simp: area_def entry_block_def)
  have sub: "bytes_of pb poff \<subseteq> area bs" "bytes_of ?W 4 \<subseteq> area bs"
    using bytes_in_extent [OF slot(2), of pb] area_member [OF slot(1)] bytes_in_extent [of 4 8 ?W] area_member [OF W] by auto
  have "wake_path t ?nx es"
  proof -
    have "area (map entry_block ?es) \<inter> headers segs = {}" using extents_headers [OF use] by (auto simp: area_def)
    moreover have "extent (a, 16) \<inter> area (map entry_block es) = {}"
      using use by (auto simp: in_use_blocks_def area_def entry_block_def)
    ultimately have "?A \<inter> area (map entry_block es) = {}" using dj(2) sub by auto
    moreover have "in_use_blocks s segs (map entry_block es @ bs)" using in_use_subset [of s segs "[(a, 16)]"] use by (simp add: entry_block_def)
    ultimately show ?thesis using wake_path_kept [of s segs es bs ?A t] t(5) s0(1) path by (simp add: t_def)
  qed
  moreover have "wake_up_loop L now (pb + poff) a s = wake_up_loop L now (pb + poff) ?nx t"
  proof -
    have a: "a \<noteq> 0" "unat a + unat (12 :: u32) + 4 \<le> 2 ^ 32"
      using in_use_bounds [OF use0, of a 16 "12 :: u32"] by simp_all
    have "bytes_of a 12 \<subseteq> extent (a, 16)" by (rule bytes_in_extent) simp
    then have "bytes_of a 12 \<inter> bytes_of pb poff = {}" using dj(1) sub(1) by blast
    then have "field a 12 (set_field pb poff ?nx s0) = field a 12 s0"
      by (rule field_set_other [OF _ in_use_bounds(1) [OF use0 _ slot(2)] a(2)]) (use slot(1) in simp)
    then have "field a 12 (set_field pb poff ?nx s0) = ?nx" using f0 by simp
    then show ?thesis
      using wake_step_loop [OF path cb exp a(1), folded s0_def, OF u(1)] u(2) f0 same_but_heap_async [OF u(3)] s0(3) by (simp add: t_def)
  qed
  moreover have "same_but_wake s t" using same_but_wake_trans [OF fr0 same_but_heap_wake [OF t(1)]] by (simp add: t_def)
  moreover have "field ?W 4 t = field ?W 4 s - 1" by (simp add: t_def)
  moreover have "g_should_poll t \<longleftrightarrow> g_should_poll s \<or> cb \<noteq> 0" using same_but_heap_async [OF t(1)] s0(4) by (simp add: t_def)
  ultimately show thesis using that t s0(1) unfolding wake_freed_def by (simp add: t_def entry_block_def)
qed

text \<open>The result for a list from the result for its tail.\<close>

lemma wake_result_expired:
  assumes e: "expired now e" and t: "wake_freed s segs e es pb poff bs segs' t" and u: "wake_result now t segs' es pb poff bs segs'' u"
  shows "wake_result now s segs (e # es) pb poff bs segs'' u"
proof -
  have W: "wake_up_list t = wake_up_list s" using t by (cases s; cases t) (simp add: wake_freed_def same_but_wake_def)
  let ?A = "area (map entry_block (e # es)) \<union> headers segs \<union> bytes_of pb poff \<union> bytes_of (wake_up_list s) 4"
  have out: "headers segs' \<subseteq> extent (entry_block e) \<union> headers segs"
    "same_outside (extent (entry_block e) \<union> headers segs \<union> bytes_of pb poff \<union> bytes_of (wake_up_list s) 4) (ram s) (ram t)"
    using t by (simp_all add: wake_freed_def)
  have r: "headers segs'' \<subseteq> area (map entry_block es) \<union> headers segs'"
    "same_outside (area (map entry_block es) \<union> headers segs' \<union> bytes_of pb poff \<union> bytes_of (wake_up_list s) 4) (ram t) (ram u)"
    using u W by (simp_all add: wake_result_def)
  have "same_outside ?A (ram s) (ram u)"
    by (rule same_outside_trans [OF same_outside_mono [OF out(2)] same_outside_mono [OF r(2)]]) (use out(1) in \<open>simp_all, blast+\<close>)
  moreover have "headers segs'' \<subseteq> area (map entry_block (e # es)) \<union> headers segs" using r(1) out(1) by simp blast
  moreover have "same_but_wake s u" using t u same_but_wake_trans [of s t u] by (simp add: wake_freed_def wake_result_def)
  ultimately show ?thesis using u t e W unfolding wake_result_def wake_freed_def by auto
qed

lemma wake_result_pending:
  fixes s :: "'z async_scheme"
  assumes use: "in_use_blocks s segs (map entry_block (e # es) @ bs)" and e: "e = (a, tick, cb, dat)" "\<not> expired now e"
    and slot: "(pb, pn) \<in> set bs" "unat poff + 4 \<le> pn" "field pb poff s = a" and W: "(wake_up_list s, 8) \<in> set bs"
    and apart: "bytes_of pb poff \<inter> bytes_of (wake_up_list s) 4 = {}" and path: "wake_path s a (e # es)"
    and u: "wake_result now s segs es a 12 ((a, 16) # bs) segs' u"
  shows "wake_result now s segs (e # es) pb poff bs segs' u"
proof -
  let ?W = "wake_up_list s"
  have a12: "unat (12 :: u32) + 4 \<le> 16" by simp
  have use': "in_use_blocks s segs (map entry_block es @ (a, 16) # bs)" by (rule in_use_perm [OF use]) (simp add: e)
  have djs: "extent (a, 16) \<inter> extent b = {}" if "b \<in> set bs" for b
    using use that by (auto simp: in_use_blocks_def e)
  have out: "same_outside (area (map entry_block es) \<union> headers segs \<union> bytes_of a 12 \<union> bytes_of ?W 4) (ram s) (ram u)"
    using u by (simp add: wake_result_def)
  have own: "field a off u = field a off s" if "off \<in> {0, 4, 8}" for off
  proof (rule wake_kept [OF use' out, of a 16])
    show "bytes_of a off \<inter> bytes_of a 12 = {}" using that by (auto simp: bytes_of_def)
    show "bytes_of a off \<inter> bytes_of ?W 4 = {}" by (rule bytes_apart [OF djs [OF W]]) (use that in auto)
  qed (use that in auto)
  have pb: "field pb poff u = a"
    using wake_kept [OF use' out, of pb pn poff] slot apart bytes_apart [OF djs [OF slot(1)] a12 slot(2)] by (auto simp: Int_commute)
  show ?thesis
    unfolding wake_result_def
  proof (intro conjI)
    have "in_use_blocks u segs' (map entry_block (filter (\<lambda>e. \<not> expired now e) es) @ (a, 16) # bs)"
      using u unfolding wake_result_def by blast
    then show "in_use_blocks u segs' (map entry_block (filter (\<lambda>e. \<not> expired now e) (e # es)) @ bs)"
      by (rule in_use_perm) (use e in simp)
    show "wake_path u (field pb poff u) (filter (\<lambda>e. \<not> expired now e) (e # es))"
      using u e own path pb unfolding wake_result_def by simp
    show "same_outside (area (map entry_block (e # es)) \<union> headers segs \<union> bytes_of pb poff \<union> bytes_of ?W 4) (ram s) (ram u)"
      by (rule same_outside_mono [OF out]) (use bytes_in_extent [OF a12, of a] e in \<open>simp, blast\<close>)
  qed (use u e(2) in \<open>auto simp: wake_result_def\<close>)
qed

lemma wake_up_loop_run:
  fixes s :: "'z async_scheme"
  assumes "in_use_blocks s segs (map entry_block es @ bs)"
    and "(pb, pn) \<in> set bs" "unat poff + 4 \<le> pn" and "(wake_up_list s, 8) \<in> set bs"
    and "bytes_of pb poff \<inter> bytes_of (wake_up_list s) 4 = {}"
    and "wake_path s cur es" and "field pb poff s = cur" and "\<forall>e \<in> set es. known_callback L (fst (snd (snd e)))"
  shows "\<exists>t segs'. wake_up_loop L now (pb + poff) cur s = Some t \<and> wake_result now s segs es pb poff bs segs' t"
  using assms
proof (induction es arbitrary: s segs bs pb pn poff cur)
  case Nil
  then have "wake_up_loop L now (pb + poff) cur s = Some s" by (subst wake_up_loop.simps) simp
  with Nil show ?case by (auto simp: wake_result_def)
next
  case (Cons e es)
  obtain a tick cb dat where e: "e = (a, tick, cb, dat)" by (metis prod_cases4)
  note use = Cons.prems(1) [unfolded e] and path = Cons.prems(6) [unfolded e]
  have cur: "cur = a" using path by simp
  have cbs: "known_callback L cb" "\<forall>e \<in> set es. known_callback L (fst (snd (snd e)))" using Cons.prems(8) e by simp_all
  show ?case
  proof (cases "tick \<le> now")
    case True
    obtain t segs' where t: "wake_up_loop L now (pb + poff) a s = wake_up_loop L now (pb + poff) (field a 12 s) t"
      "wake_freed s segs e es pb poff bs segs' t"
      unfolding e by (rule wake_step [OF use Cons.prems(2-5) path [unfolded cur] cbs(1) True])
    have W: "wake_up_list t = wake_up_list s" using t(2) by (cases s; cases t) (simp add: wake_freed_def same_but_wake_def)
    from t(2) have "in_use_blocks t segs' (map entry_block es @ bs)" "wake_path t (field a 12 s) es" "field pb poff t = field a 12 s"
      by (simp_all add: wake_freed_def e)
    from Cons.IH [OF this(1) Cons.prems(2,3) _ _ this(2,3) cbs(2)] Cons.prems(4,5) W
    obtain u segs'' where u: "wake_up_loop L now (pb + poff) (field a 12 s) t = Some u" "wake_result now t segs' es pb poff bs segs'' u" by auto
    have "wake_result now s segs (e # es) pb poff bs segs'' u"
      by (rule wake_result_expired [OF _ t(2) u(2)]) (use True e in \<open>simp add: expired_def\<close>)
    with t(1) u(1) cur show ?thesis by auto
  next
    case False
    have use': "in_use_blocks s segs (map entry_block es @ (a, 16) # bs)" by (rule in_use_perm [OF use]) simp
    have a: "a \<noteq> 0" by (rule in_use_bounds(2) [OF use', of a 16 0]) simp_all
    have "extent (a, 16) \<inter> extent (wake_up_list s, 8) = {}" using use Cons.prems(4) by (auto simp: in_use_blocks_def)
    then have ap: "bytes_of a 12 \<inter> bytes_of (wake_up_list s) 4 = {}" by (rule bytes_apart) simp_all
    from Cons.IH [OF use', of a 16 12 "field a 12 s"] path ap Cons.prems(4) cbs(2)
    obtain u segs' where u: "wake_up_loop L now (a + 12) (field a 12 s) s = Some u" "wake_result now s segs es a 12 ((a, 16) # bs) segs' u" by auto
    have "wake_result now s segs (e # es) pb poff bs segs' u"
      using Cons.prems cur False e u(2) by (intro wake_result_pending [OF Cons.prems(1) e]) (auto simp: expired_def)
    moreover have "wake_up_loop L now (pb + poff) cur s = wake_up_loop L now (a + 12) (field a 12 s) s"
      using a path False cur by (subst wake_up_loop.simps) simp
    ultimately show ?thesis using u(1) by auto
  qed
qed

section \<open>The list as a whole\<close>

text \<open>
  The blocks of the list: the entries, the list structure and the clock.
  \<^verbatim>\<open>wake_list_ok\<close> says that the structure in memory is the list \<open>es\<close>, with its
  length recorded, beside other blocks \<open>bs\<close> in use.
\<close>

definition wake_blocks :: "'z async_scheme \<Rightarrow> wake_entry list \<Rightarrow> block list \<Rightarrow> block list" where
  "wake_blocks s es bs = map entry_block es @ (wake_up_list s, 8) # (monotonic_time s, 4) # bs"

definition wake_list_ok :: "'z async_scheme \<Rightarrow> seg list \<Rightarrow> wake_entry list \<Rightarrow> block list \<Rightarrow> bool" where
  "wake_list_ok s segs es bs \<longleftrightarrow> in_use_blocks s segs (wake_blocks s es bs)
     \<and> wake_path s (field (wake_up_list s) 0 s) es \<and> field (wake_up_list s) 4 s = of_nat (length es)"

lemma wake_list_nonzero:
  assumes "wake_list_ok s segs es bs"
  shows "wake_up_list s \<noteq> 0" and "monotonic_time s \<noteq> 0"
  using assms in_use_bounds(2) [of s segs "wake_blocks s es bs" "wake_up_list s" 8 0]
    in_use_bounds(2) [of s segs "wake_blocks s es bs" "monotonic_time s" 4 0]
  by (auto simp: wake_list_ok_def wake_blocks_def)

lemma same_but_wake_async:
  "same_but_wake s t \<Longrightarrow> wake_up_list t = wake_up_list s \<and> monotonic_time t = monotonic_time s"
  by (cases s; cases t) (simp add: same_but_wake_def)

lemma length_remaining:
  "of_nat (length es) - of_nat (length (filter P es)) = (of_nat (length (filter (\<lambda>x. \<not> P x) es)) :: u32)"
proof -
  have "length es = length (filter P es) + length (filter (\<lambda>x. \<not> P x) es)"
    by (rule sum_length_filter_compl [symmetric])
  then show ?thesis by (metis add_diff_cancel_left' of_nat_add)
qed

lemma check_runs:
  fixes s :: "'z async_scheme"
  assumes ok: "wake_list_ok s segs es bs" and cbs: "\<forall>e \<in> set es. known_callback L (fst (snd (snd e)))"
  defines "now \<equiv> monotonic_time_get_ticks_global s"
  shows "\<exists>t segs'. wake_up_list_check_and_execute L s = Some t
     \<and> wake_list_ok t segs' (filter (\<lambda>e. \<not> expired now e) es) bs
     \<and> (g_should_poll t \<longleftrightarrow> g_should_poll s \<or> (\<exists>e \<in> set es. expired now e \<and> fst (snd (snd e)) \<noteq> 0))
     \<and> monotonic_time_get_ticks_global t = now \<and> same_but_wake s t
     \<and> headers segs' \<subseteq> area (map entry_block es) \<union> headers segs
     \<and> same_outside (area (map entry_block es) \<union> headers segs \<union> bytes_at (wake_up_list s) 8) (ram s) (ram t)"
proof -
  let ?W = "wake_up_list s" and ?bs = "(wake_up_list s, 8) # (monotonic_time s, 4) # bs"
  let ?A = "area (map entry_block es) \<union> headers segs"
  from ok have use: "in_use_blocks s segs (map entry_block es @ ?bs)" by (simp add: wake_list_ok_def wake_blocks_def)
  have dj: "extent (?W, 8) \<inter> extent (monotonic_time s, 4) = {}"
    using in_use_subset [OF use] by (simp add: in_use_blocks_def)
  have "bytes_of ?W 0 \<inter> bytes_of ?W 4 = {}" by (auto simp: bytes_of_def)
  then obtain t segs' where t: "wake_up_loop L now ?W (field ?W 0 s) s = Some t" "wake_result now s segs es ?W 0 ?bs segs' t"
    using wake_up_loop_run [OF use, of ?W 8 0 "field ?W 0 s" L now] ok cbs by (auto simp: wake_list_ok_def)
  have fr: "same_but_wake s t" and out: "same_outside (?A \<union> bytes_of ?W 0 \<union> bytes_of ?W 4) (ram s) (ram t)"
    and hd: "headers segs' \<subseteq> ?A" using t(2) unfolding wake_result_def by blast+
  note same = same_but_wake_async [OF fr]
  have "bytes_of (monotonic_time s) 0 \<inter> bytes_of ?W off = {}" if "off \<in> {0, 4}" for off
  proof -
    have "bytes_of (monotonic_time s) 0 \<subseteq> extent (monotonic_time s, 4)" by (rule bytes_in_extent) simp
    moreover have "bytes_of ?W off \<subseteq> extent (?W, 8)" by (rule bytes_in_extent) (use that in auto)
    ultimately show ?thesis using dj by blast
  qed
  then have "field (monotonic_time s) 0 t = field (monotonic_time s) 0 s"
    by (intro wake_kept [OF use out, of _ 4]) auto
  then have "monotonic_time_get_ticks_global t = now" using same by (simp add: now_def monotonic_time_get_ticks_global_def)
  moreover have "wake_list_ok t segs' (filter (\<lambda>e. \<not> expired now e) es) bs"
    using t(2) ok same unfolding wake_result_def wake_list_ok_def wake_blocks_def by (auto simp: length_remaining)
  moreover have "wake_up_list_check_and_execute L s = Some t"
    using t(1) wake_list_nonzero [OF ok] by (simp add: wake_up_list_check_and_execute_def now_def Let_def)
  moreover have "same_outside (?A \<union> bytes_at ?W 8) (ram s) (ram t)"
    by (rule same_outside_mono [OF out]) (auto simp: bytes_of_def bytes_at_def)
  ultimately show ?thesis using t(2) hd fr unfolding wake_result_def by blast
qed

text \<open>
  An entry added at the head: it lies in bytes that were free, and outside the
  free bytes only the head and the count of the list have changed.
\<close>

definition wake_added :: "'z async_scheme \<Rightarrow> seg list \<Rightarrow> wake_entry list \<Rightarrow> block list \<Rightarrow> wake_entry \<Rightarrow> 'z async_scheme
    \<Rightarrow> seg list \<Rightarrow> bool" where
  "wake_added s segs es bs e t segs' \<longleftrightarrow> wake_list_ok t segs' (e # es) bs \<and> heap_blocks t segs' (wake_blocks t (e # es) bs)
     \<and> same_outside (seg_bytes segs \<union> bytes_at (wake_up_list s) 8) (ram s) (ram t)
     \<and> seg_bytes segs' \<subseteq> seg_bytes segs \<and> extent (entry_block e) \<subseteq> seg_bytes segs \<and> leaves_room 28 segs segs'"

abbreviation add_writes :: "ptr \<Rightarrow> u32 \<Rightarrow> ptr \<Rightarrow> ptr \<Rightarrow> ptr \<Rightarrow> u32 \<Rightarrow> u32 \<Rightarrow> field_write list" where
  "add_writes a tick cb dat W nxt cnt \<equiv> [(a, 0, tick), (a, 4, cb), (a, 8, dat), (a, 12, nxt), (W, 0, a), (W, 4, cnt)]"

lemma wake_up_list_add_writes:
  fixes s :: "'z async_scheme"
  assumes m: "malloc 16 s = Some (a, u)" "a \<noteq> 0" "same_but_heap s u" and W: "wake_up_list s = W" "W \<noteq> 0"
    and ap: "extent (a, 16) \<inter> extent (W, 8) = {}" and b: "unat a + 16 \<le> 2 ^ 32" "unat W + 8 \<le> 2 ^ 32"
  shows "wake_up_list_add tick cb dat s = Some (set_fields (add_writes a tick cb dat W (field W 0 u) (field W 4 u + 1)) u)"
proof -
  have aW: "bytes_of W off \<inter> bytes_of a off' = {}" if "unat off + 4 \<le> 8" "unat off' + 4 \<le> 16" for off off'
    using bytes_apart [OF ap that(2,1)] by blast
  have "field W 0 (set_fields [(a, 0, tick), (a, 4, cb), (a, 8, dat)] u) = field W 0 u"
    by (rule field_set_fields_other) (use b in \<open>simp_all add: aW Int_Un_distrib\<close>)
  moreover have "field W 4 (set_fields [(a, 0, tick), (a, 4, cb), (a, 8, dat), (a, 12, h), (W, 0, a)] u) = field W 4 u" for h
    by (rule field_set_fields_other) (use b in \<open>simp_all add: aW Int_Un_distrib bytes_same_apart\<close>)
  ultimately show ?thesis
    using m W same_but_heap_async [OF m(3)] by (simp add: wake_up_list_add_def Let_def set_field_def)
qed

text \<open>The blocks of the list beside the free bytes and beside each other.\<close>

lemma wake_blocks_apart:
  assumes ok: "wake_list_ok s segs es bs" and hb: "heap_blocks s segs (wake_blocks s es bs)"
  defines "A \<equiv> seg_bytes segs \<union> bytes_at (wake_up_list s) 8"
  shows "A \<inter> area (map entry_block es) = {}" "A \<inter> extent (monotonic_time s, 4) = {}"
    "extent (wake_up_list s, 8) \<inter> seg_bytes segs = {}"
    "unat (wake_up_list s) + 8 \<le> 2 ^ 32" "unat (monotonic_time s) + 4 \<le> 2 ^ 32"
proof -
  let ?W = "wake_up_list s" and ?M = "monotonic_time s"
  have use: "in_use_blocks s segs (map entry_block es @ (?W, 8) # (?M, 4) # bs)" using ok by (simp add: wake_list_ok_def wake_blocks_def)
  have Q: "area (map entry_block es) \<inter> seg_bytes segs = {}" "extent (?W, 8) \<inter> seg_bytes segs = {}" "extent (?M, 4) \<inter> seg_bytes segs = {}"
    using heap_blocks_area [OF hb] by (auto simp: wake_blocks_def)
  have W: "bytes_at ?W 8 \<subseteq> extent (?W, 8)" by (auto simp: bytes_at_def extent_def)
  have "area (map entry_block es) \<inter> extent (?W, 8) = {}" using extents_disjoint [OF use] by (auto simp: area_def)
  then show "A \<inter> area (map entry_block es) = {}" using Q(1) W unfolding A_def by blast
  have "extent (?W, 8) \<inter> extent (?M, 4) = {}" using in_use_subset [OF use] by (simp add: in_use_blocks_def)
  then show "A \<inter> extent (?M, 4) = {}" using Q(3) W unfolding A_def by blast
  show "extent (?W, 8) \<inter> seg_bytes segs = {}" by (rule Q(2))
  show "unat ?W + 8 \<le> 2 ^ 32" "unat ?M + 4 \<le> 2 ^ 32" by (rule block_end [OF use], simp)+
qed

lemma add_links:
  fixes s :: "'z async_scheme" and tick :: u32 and cb dat :: ptr
  assumes ok: "wake_list_ok s segs es bs" and hb: "heap_blocks s segs (wake_blocks s es bs)"
    and u: "same_but_heap s u" "heap_blocks u segs' ((a, 16) # wake_blocks s es bs)" "same_outside (seg_bytes segs) (ram s) (ram u)"
      "seg_bytes segs' \<subseteq> seg_bytes segs" "extent (a, 16) \<subseteq> seg_bytes segs" "leaves_room 28 segs segs'"
  defines "t \<equiv> set_fields (add_writes a tick cb dat (wake_up_list s) (field (wake_up_list s) 0 u) (field (wake_up_list s) 4 u + 1)) u"
  shows "wake_added s segs es bs (a, tick, cb, dat) t segs'" and "same_but_heap s t"
    and "monotonic_time_get_ticks_global t = monotonic_time_get_ticks_global s"
proof -
  let ?W = "wake_up_list s" and ?B = "(a, 16) # wake_blocks s es bs" and ?A = "seg_bytes segs \<union> bytes_at (wake_up_list s) 8"
  define ws where "ws = add_writes a tick cb dat ?W (field ?W 0 u) (field ?W 4 u + 1)"
  note ap = wake_blocks_apart [OF ok hb] and use = heap_blocks_in_use [OF u(2)]
  have aW: "extent (a, 16) \<inter> extent (?W, 8) = {}" using ap(3) u(5) by blast
  have ws: "within ?B ws" "pairwise_disjoint (map (\<lambda>(p, off, v). bytes_of p off) ws)"
    by (auto simp: ws_def bytes_same_apart bytes_apart [OF aW] wake_blocks_def)
  note fits = within_fits [OF use ws(1)]
  have "written ws \<subseteq> extent (a, 16) \<union> bytes_at ?W 8" by (auto simp: ws_def bytes_of_def bytes_at_def extent_def)
  then have out: "same_outside ?A (ram s) (ram t)"
    unfolding t_def ws_def [symmetric]
    using u(5) same_outside_mono [OF u(3), of ?A] same_outside_mono [OF set_fields_outside [OF fits, of u], of ?A]
    by (blast intro: same_outside_trans)
  show fr: "same_but_heap s t" unfolding t_def by (rule same_but_heap_trans [OF u(1) set_fields_frame])
  note same = same_but_heap_async [OF fr]
  have h: "heap_blocks t segs' ?B" unfolding t_def ws_def [symmetric] by (rule set_fields_heap_blocks [OF u(2) ws(1)])
  have wb: "wake_blocks t ((a, tick, cb, dat) # es) bs = ?B" using same by (simp add: wake_blocks_def entry_block_def)
  have Wu: "field ?W off u = field ?W off s" if "unat off + 4 \<le> 8" for off
    by (rule field_block_kept [OF u(3) _ that ap(4)]) (use ap(3) in blast)
  have get: "field p off t = v" if "(p, off, v) \<in> set ws" for p off v
    unfolding t_def ws_def [symmetric] by (rule field_set_fields [OF fits that ws(2)])
  have "in_use_blocks s segs (map entry_block es @ (?W, 8) # (monotonic_time s, 4) # bs)" using ok by (simp add: wake_list_ok_def wake_blocks_def)
  then have "wake_path t (field ?W 0 s) es" using ok wake_path_kept [OF _ out ap(1)] by (auto simp: wake_list_ok_def)
  then have "wake_list_ok t segs' ((a, tick, cb, dat) # es) bs"
    unfolding wake_list_ok_def wb using heap_blocks_in_use [OF h] ok same by (simp add: get [unfolded ws_def] Wu wake_list_ok_def)
  then show "wake_added s segs es bs (a, tick, cb, dat) t segs'"
    using h wb out u(4-6) by (simp add: wake_added_def entry_block_def)
  have "field (monotonic_time s) 0 t = field (monotonic_time s) 0 s"
    by (rule field_block_kept [OF out ap(2) _ ap(5)]) simp
  then show "monotonic_time_get_ticks_global t = monotonic_time_get_ticks_global s"
    using same by (simp add: monotonic_time_get_ticks_global_def)
qed

lemma add_runs:
  fixes s :: "'z async_scheme"
  assumes ok: "wake_list_ok s segs es bs" and hb: "heap_blocks s segs (wake_blocks s es bs)"
  shows "\<exists>t. wake_up_list_add tick cb dat s = Some t \<and> same_but_heap s t
     \<and> monotonic_time_get_ticks_global t = monotonic_time_get_ticks_global s
     \<and> (malloc 16 s = Some (0, s) \<and> t = s \<and> \<not> has_room 28 segs \<or> (\<exists>a segs'. wake_added s segs es bs (a, tick, cb, dat) t segs'))"
proof -
  have sz: "malloc_served 16" "4 \<le> unat (16 :: u32)" by (simp_all add: malloc_served_def)
  have nz: "wake_up_list s \<noteq> 0" by (rule wake_list_nonzero [OF ok])
  note ap = wake_blocks_apart [OF ok hb]
  show ?thesis
  proof (rule malloc_block [OF hb sz], goal_cases full block)
    case full
    with nz show ?thesis by (simp add: wake_up_list_add_def)
  next
    case (block a u segs')
    then have u: "heap_blocks u segs' ((a, 16) # wake_blocks s es bs)" "extent (a, 16) \<subseteq> seg_bytes segs"
      "leaves_room 28 segs segs'" by simp_all
    have "unat a + 16 \<le> 2 ^ 32" by (rule block_end [OF heap_blocks_in_use [OF u(1)]]) simp
    moreover have "extent (a, 16) \<inter> extent (wake_up_list s, 8) = {}" using ap(3) u(2) by blast
    ultimately show ?thesis
      using wake_up_list_add_writes [OF block(1-3) refl nz _ _ ap(4), of tick cb dat] add_links [OF ok hb block(3) u(1) block(5,6) u(2,3), where tick = tick and cb = cb and dat = dat]
      by blast
  qed
qed

section \<open>A concrete list\<close>

definition async_boot :: "device_fn \<Rightarrow> async" where
  "async_boot d = idt_state.extend (idt_boot d)
     (async.fields 0 0 0 True 0 (\<lambda>_. \<lparr>control_port = None, data_port = None, nmi_enabled = False\<rparr>) 0 0 0)"

text \<open>
  A list with an entry for tick 9 at \<open>0x2040\<close> before one for tick 3 at
  \<open>0x2020\<close>; the clock at \<open>0x2010\<close> shows 5. Below them is a free segment of 256 bytes.
\<close>

definition wake_example :: "device_fn \<Rightarrow> async" where
  "wake_example d = (async_boot d)\<lparr>first_free := 0x1000, wake_up_list := 0x2000, monotonic_time := 0x2010, g_should_poll := False,
     ram := fold (\<lambda>(a, v). store32 a v)
       [(0x1000, 0x100), (0x1FFC, 12), (0x2000, 0x2040), (0x2004, 2), (0x200C, 8), (0x2010, 5),
        (0x201C, 20), (0x2020, 3), (0x2024, 0x100), (0x203C, 20), (0x2040, 9), (0x2044, 0x100), (0x204C, 0x2020)]
       (\<lambda>_. 0)\<rparr>"

lemma wake_example_fields:
  "load32 (ram (wake_example d)) 0x1000 = 0x100" "load32 (ram (wake_example d)) 0x1004 = 0"
  "load32 (ram (wake_example d)) 0x1FFC = 12" "load32 (ram (wake_example d)) 0x2000 = 0x2040"
  "load32 (ram (wake_example d)) 0x2004 = 2" "load32 (ram (wake_example d)) 0x200C = 8"
  "load32 (ram (wake_example d)) 0x2010 = 5" "load32 (ram (wake_example d)) 0x201C = 20"
  "load32 (ram (wake_example d)) 0x2020 = 3" "load32 (ram (wake_example d)) 0x2024 = 0x100"
  "load32 (ram (wake_example d)) 0x2028 = 0" "load32 (ram (wake_example d)) 0x202C = 0"
  "load32 (ram (wake_example d)) 0x203C = 20" "load32 (ram (wake_example d)) 0x2040 = 9"
  "load32 (ram (wake_example d)) 0x2044 = 0x100" "load32 (ram (wake_example d)) 0x2048 = 0"
  "load32 (ram (wake_example d)) 0x204C = 0x2020"
  "wake_up_list (wake_example d) = 0x2000" "monotonic_time (wake_example d) = 0x2010" "first_free (wake_example d) = 0x1000"
  by (simp_all add: wake_example_def apart4_def load32_zero)

lemma wake_example_ok:
  "wake_list_ok (wake_example d) [(0x1000, 0x100)] [(0x2040, 9, 0x100, 0), (0x2020, 3, 0x100, 0)] []"
  unfolding wake_list_ok_def wake_blocks_def in_use_blocks_def
  by (simp add: wake_example_fields free_list_def seg_size_def seg_next_def live_def entry_block_def field_def
      extent_disjointI extent_intervalI)

lemma wake_example_heap:
  "heap_blocks (wake_example d) [(0x1000, 0x100)]
     (wake_blocks (wake_example d) [(0x2040, 9, 0x100, 0), (0x2020, 3, 0x100, 0)] [])"
  using wake_example_ok [of d] unfolding heap_blocks_def wake_list_ok_def
  by (simp add: wake_blocks_def entry_block_def wake_example_fields extent_intervalI)

section \<open>Properties\<close>


definition example_linker :: linker_map where
  "example_linker = \<lparr>sym_sleep_callback = 0x100, sym_sleep_future_callback = 0x110, sym_executor_waker_wake = 0x120,
     sym_sleep_future_vtable = 0x130, sym_async_serial_write_vtable = 0x140, sym_async_rtc_future_vtable = 0x150,
     sym_g_executor = 0x160, sym_rtc_interrupt_handler = 0x170, sym_custom_interrupt_handler = 0x180,
     sym_async_serial_interrupt_handler = 0x190, sym_gdt = 0x1A0, sym_idt = 0x1C0, sym_kernel_end = 0x1000\<rparr>"


text \<open>
  Scheduling a wake-up. On a sound heap \<^verbatim>\<open>wake_up_list_add\<close> returns and
  either the allocator has no room and nothing changes, or the list has the new
  entry at its head, in a fresh block disjoint from every block in use, the
  entries that were there follow unchanged and the count is one higher.
\<close>

theorem wake_up_list_add_prepends:
  fixes s :: "'z async_scheme"
  assumes "wake_list_ok s segs es bs" and "heap_blocks s segs (wake_blocks s es bs)"
  shows "\<exists>t. wake_up_list_add tick cb dat s = Some t \<and> same_but_heap s t
     \<and> monotonic_time_get_ticks_global t = monotonic_time_get_ticks_global s
     \<and> (malloc 16 s = Some (0, s) \<and> t = s \<or> (\<exists>a segs'. wake_list_ok t segs' ((a, tick, cb, dat) # es) bs
          \<and> heap_blocks t segs' (wake_blocks t ((a, tick, cb, dat) # es) bs)))"
  using add_runs [OF assms] unfolding wake_added_def by blast

theorem wake_up_list_add_prepends_witness:
  "\<exists>t a segs'. wake_up_list_add 7 0x100 0 (wake_example uart_ready) = Some t
     \<and> wake_list_ok t segs' [(a, 7, 0x100, 0), (0x2040, 9, 0x100, 0), (0x2020, 3, 0x100, 0)] []"
proof -
  have "malloc 16 (wake_example uart_ready) \<noteq> Some (0, wake_example uart_ready)"
  proof -
    have "request_ok 16 8" using is_pow2_8 by (simp add: request_ok_def)
    moreover have "free_list (wake_example uart_ready) [(0x1000, 0x100)]"
      using wake_example_ok [of uart_ready] by (simp add: wake_list_ok_def in_use_blocks_def)
    ultimately show ?thesis
      using allocate_refines [of 16 8 "wake_example uart_ready" "[(0x1000, 0x100)]"]
      by (auto simp: malloc_def block_fits_def block_data_def Let_def)
  qed
  then show ?thesis using wake_up_list_add_prepends [OF wake_example_ok wake_example_heap, of 7 "0x100" 0 uart_ready] by blast
qed

end
