(* ===== verification/Rtc.thy ===== *)
theory Rtc
  imports Async_Time
begin

text \<open>
  The driver of the real-time clock (\<^verbatim>\<open>src/rtc.c\<close>): access to the CMOS registers
  through the port manager, reading and writing the time between updates of
  the clock, its periodic interrupt, and the two ways of sleeping. The clock is
  hardware: what a theorem needs of it (updates end, and leave room for an
  access) is a hypothesis on the device. The futures of \<^verbatim>\<open>rtc.c\<close> are in
  \<^verbatim>\<open>Async_Executor\<close>.
\<close>

section \<open>The CMOS registers\<close>

abbreviation CMOS_REG_SECONDS :: u8 where "CMOS_REG_SECONDS \<equiv> 0x00"
abbreviation CMOS_REG_MINUTES :: u8 where "CMOS_REG_MINUTES \<equiv> 0x02"
abbreviation CMOS_REG_HOURS :: u8 where "CMOS_REG_HOURS \<equiv> 0x04"
abbreviation CMOS_REG_A :: u8 where "CMOS_REG_A \<equiv> 0x0A"
abbreviation CMOS_REG_B :: u8 where "CMOS_REG_B \<equiv> 0x0B"
abbreviation CMOS_REG_C :: u8 where "CMOS_REG_C \<equiv> 0x0C"
abbreviation CMOS_CONTROL_PORT :: u16 where "CMOS_CONTROL_PORT \<equiv> 0x70"
abbreviation CMOS_DATA_PORT :: u16 where "CMOS_DATA_PORT \<equiv> 0x71"
abbreviation NMI_DISABLE_MASK :: u8 where "NMI_DISABLE_MASK \<equiv> 0x80"

definition nmi_mask :: "RTCDriver \<Rightarrow> u8" where
  "nmi_mask drv = (if nmi_enabled drv then 0x00 else NMI_DISABLE_MASK)"

definition read_cmos_register :: "ptr \<Rightarrow> u8 \<Rightarrow> 'z async_scheme \<Rightarrow> u8 \<times> 'z async_scheme" where
  "read_cmos_register rtc reg s =
     (if rtc = 0 then (0, s)
      else let drv = rtc_drivers s rtc;
               reg_select = reg OR nmi_mask drv;
               s = write_port_b (control_port drv) reg_select s
           in read_port_b (data_port drv) s)"

definition write_cmos_register :: "ptr \<Rightarrow> u8 \<Rightarrow> u8 \<Rightarrow> 'z async_scheme \<Rightarrow> 'z async_scheme" where
  "write_cmos_register rtc reg value s =
     (if rtc = 0 then s
      else let drv = rtc_drivers s rtc;
               reg_select = reg OR nmi_mask drv;
               s = write_port_b (control_port drv) reg_select s
           in write_port_b (data_port drv) value s)"

definition set_data_format :: "ptr \<Rightarrow> 'z async_scheme \<Rightarrow> 'z async_scheme" where
  "set_data_format rtc s =
     (if rtc = 0 then s
      else let (status_reg_b, s) = read_cmos_register rtc CMOS_REG_B s
           in write_cmos_register rtc CMOS_REG_B (status_reg_b OR (push_bit 1 1 OR push_bit 2 1)) s)"

definition update_in_progress :: "ptr \<Rightarrow> 'z async_scheme \<Rightarrow> bool \<times> 'z async_scheme" where
  "update_in_progress rtc s =
     (if rtc = 0 then (False, s)
      else let (status_reg_a, s) = read_cmos_register rtc CMOS_REG_A s
           in (status_reg_a AND push_bit 7 1 \<noteq> 0, s))"

section \<open>Opening the driver\<close>

text \<open>\<^verbatim>\<open>sizeof(RTCDriver)\<close> is 12: two pointers and a padded flag.\<close>

definition init_rtc :: "'z async_scheme \<Rightarrow> (ptr \<times> 'z async_scheme) option" where
  "init_rtc s =
     (let (control, s) = request_port CMOS_CONTROL_PORT s in
      if control = None then
        do { s \<leftarrow> output_string (''Failed to acquire CMOS control port'' @ [LF]) s;
             Some (0, s) }
      else
        let (data, s) = request_port CMOS_DATA_PORT s in
        if data = None then
          do { s \<leftarrow> output_string (''Failed to acquire CMOS data port'' @ [LF]) s;
               Some (0, release_port control s) }
        else
          do { (rtc, s) \<leftarrow> malloc 12 s;
               if rtc = 0 then
                 do { s \<leftarrow> output_string (''Failed to allocate memory for RTC driver'' @ [LF]) s;
                      let s = release_port control s;
                      Some (0, release_port data s) }
               else
                 let s = s\<lparr>rtc_drivers := (rtc_drivers s)
                            (rtc := \<lparr>control_port = control, data_port = data, nmi_enabled = True\<rparr>)\<rparr>
                 in Some (rtc, set_data_format rtc s) })"

section \<open>Guarded access to the time\<close>

text \<open>
  The three bytes of \<^verbatim>\<open>time_data\<close>: seconds, minutes and hours. A guarded operation
  gets them and returns them changed, beside its result.
\<close>

type_synonym time_data = "u8 \<times> u8 \<times> u8"

definition read_time_guarded_op :: "ptr \<Rightarrow> time_data \<Rightarrow> 'z async_scheme \<Rightarrow> u8 \<times> time_data \<times> 'z async_scheme" where
  "read_time_guarded_op rtc time_data s =
     (let (sec, s) = read_cmos_register rtc CMOS_REG_SECONDS s;
          (mins, s) = read_cmos_register rtc CMOS_REG_MINUTES s;
          (hour, s) = read_cmos_register rtc CMOS_REG_HOURS s
      in (0, (sec, mins, hour), s))"

definition write_time_guarded_op :: "ptr \<Rightarrow> time_data \<Rightarrow> 'z async_scheme \<Rightarrow> u8 \<times> time_data \<times> 'z async_scheme" where
  "write_time_guarded_op rtc time_data s =
     (case time_data of (sec, mins, hour) \<Rightarrow>
        let s = write_cmos_register rtc CMOS_REG_SECONDS sec s;
            s = write_cmos_register rtc CMOS_REG_MINUTES mins s;
            s = write_cmos_register rtc CMOS_REG_HOURS hour s
        in (0, time_data, s))"

text \<open>\<^verbatim>\<open>while (update_in_progress(rtc)) {}\<close>\<close>

partial_function (option) update_wait :: "ptr \<Rightarrow> 'z async_scheme \<Rightarrow> 'z async_scheme option" where
  "update_wait rtc s =
     (case update_in_progress rtc s of (busy, s) \<Rightarrow> if busy then update_wait rtc s else Some s)"

partial_function (option) guarded_loop ::
    "ptr \<Rightarrow> (ptr \<Rightarrow> time_data \<Rightarrow> 'z async_scheme \<Rightarrow> u8 \<times> time_data \<times> 'z async_scheme) \<Rightarrow> time_data
       \<Rightarrow> 'z async_scheme \<Rightarrow> (u8 \<times> time_data \<times> 'z async_scheme) option" where
  "guarded_loop rtc op_func op_data s =
     Option.bind (update_wait rtc s) (\<lambda>s.
       case op_func rtc op_data s of (result, op_data, s) \<Rightarrow>
       case update_in_progress rtc s of (busy, s) \<Rightarrow>
         if \<not> busy then Some (result, op_data, s) else guarded_loop rtc op_func op_data s)"

definition update_guarded_op ::
    "ptr \<Rightarrow> (ptr \<Rightarrow> time_data \<Rightarrow> 'z async_scheme \<Rightarrow> u8 \<times> time_data \<times> 'z async_scheme) option \<Rightarrow> time_data
       \<Rightarrow> 'z async_scheme \<Rightarrow> (int \<times> time_data \<times> 'z async_scheme) option" where
  "update_guarded_op rtc op_func op_data s =
     (if rtc = 0 \<or> op_func = None then Some (-1, op_data, s)
      else do { (result, op_data, s) \<leftarrow> guarded_loop rtc (the op_func) op_data s;
                Some (uint result, op_data, s) })"

text \<open>
  The caller's bytes are addresses in memory. The array \<^verbatim>\<open>time_data\<close> starts
  uninitialised; the operation writes all of it before it is read.
\<close>

definition read_rtc_time :: "ptr \<Rightarrow> ptr \<Rightarrow> ptr \<Rightarrow> ptr \<Rightarrow> 'z async_scheme \<Rightarrow> (int \<times> 'z async_scheme) option" where
  "read_rtc_time rtc seconds minutes hours s =
     (if rtc = 0 \<or> seconds = 0 \<or> minutes = 0 \<or> hours = 0 then Some (-1, s)
      else do { (result, (sec, mins, hour), s) \<leftarrow> update_guarded_op rtc (Some read_time_guarded_op) (0, 0, 0) s;
                let s = set_byte seconds sec s;
                let s = set_byte minutes mins s;
                Some (result, set_byte hours hour s) })"

definition write_rtc_time :: "ptr \<Rightarrow> u8 \<Rightarrow> u8 \<Rightarrow> u8 \<Rightarrow> 'z async_scheme \<Rightarrow> (int \<times> 'z async_scheme) option" where
  "write_rtc_time rtc seconds minutes hours s =
     (if rtc = 0 then Some (-1, s)
      else do { (result, time_data, s) \<leftarrow>
                  update_guarded_op rtc (Some write_time_guarded_op) (seconds, minutes, hours) s;
                Some (result, s) })"

section \<open>Periodic interrupts\<close>

definition rtc_irq :: IrqId where
  "rtc_irq = \<lparr>irq_type = IRQ_PIC2, irq_index = 0\<rparr>"

definition enable_rtc_interrupts :: "ptr \<Rightarrow> ptr \<Rightarrow> 'z async_scheme \<Rightarrow> (int \<times> 'z async_scheme) option" where
  "enable_rtc_interrupts rtc handler s =
     (if rtc = 0 then Some (-1, s)
      else
        let (result, s) = register_interrupt_handler_irq rtc_irq handler s in
        if result \<noteq> 0 then
          do { s \<leftarrow> output_string (''Failed to register RTC interrupt handler'' @ [LF]) s;
               Some (-1, s) }
        else
          let (reg_a, s) = read_cmos_register rtc CMOS_REG_A s;
              s = write_cmos_register rtc CMOS_REG_A ((reg_a AND 0xF0) OR 0x08) s;
              (reg_b, s) = read_cmos_register rtc CMOS_REG_B s;
              s = write_cmos_register rtc CMOS_REG_B (reg_b OR 0x40) s
          in Some (0, pic_unmask_irq 8 s))"

definition disable_rtc_interrupts :: "ptr \<Rightarrow> 'z async_scheme \<Rightarrow> int \<times> 'z async_scheme" where
  "disable_rtc_interrupts rtc s =
     (if rtc = 0 then (-1, s)
      else let (reg_b, s) = read_cmos_register rtc CMOS_REG_B s;
               s = write_cmos_register rtc CMOS_REG_B (reg_b AND NOT 0x40) s
           in unregister_interrupt_handler_irq rtc_irq s)"

definition clear_rtc_interrupt :: "ptr \<Rightarrow> 'z async_scheme \<Rightarrow> 'z async_scheme" where
  "clear_rtc_interrupt rtc s = (if rtc = 0 then s else snd (read_cmos_register rtc CMOS_REG_C s))"

definition acknowledge_rtc_interrupt :: "'z ports_scheme \<Rightarrow> 'z ports_scheme" where
  "acknowledge_rtc_interrupt s =
     (let (control, s) = request_port CMOS_CONTROL_PORT s in
      if control \<noteq> None then
        let (data, s) = request_port CMOS_DATA_PORT s;
            s = (if data \<noteq> None then
                   let s = write_port_b control (CMOS_REG_C OR 0x00) s;
                       (v, s) = read_port_b data s
                   in release_port data s
                 else s)
        in release_port control s
      else s)"

section \<open>Sleeping\<close>

text \<open>
  \<^verbatim>\<open>hlt\<close> waits for an interrupt, and an interrupt may run between any two
  iterations of a busy wait. What happens then is the argument \<open>interrupt\<close> of
  the two waits.
\<close>

definition get_system_ticks :: "'z async_scheme \<Rightarrow> u32" where
  "get_system_ticks s = system_tick_count s"

abbreviation MAX_LOOP_COUNT :: u32 where "MAX_LOOP_COUNT \<equiv> 1000000"

function sleep_loop :: "('z async_scheme \<Rightarrow> 'z async_scheme option) \<Rightarrow> u32 \<Rightarrow> u32 \<Rightarrow> u32
    \<Rightarrow> 'z async_scheme \<Rightarrow> (u32 \<times> 'z async_scheme) option" where
  "sleep_loop interrupt target_tick current_tick loop_counter s =
     (if current_tick < target_tick \<and> loop_counter < MAX_LOOP_COUNT then
        Option.bind (interrupt s) (\<lambda>s.
          sleep_loop interrupt target_tick (system_tick_count s) (loop_counter + 1) s)
      else Some (loop_counter, s))"
  by pat_completeness auto

termination
proof (relation "measure (\<lambda>(_, _, _, n, _). unat MAX_LOOP_COUNT - unat n)")
  fix target current n :: u32 and s u :: "'z async_scheme" and interrupt
  assume n: "current < target \<and> n < MAX_LOOP_COUNT"
  then have lt: "unat n < 1000000" by (simp add: word_less_nat_alt)
  then have "unat (n + 1) = unat n + 1" by (simp add: unat_add_no_wrap)
  with lt show "((interrupt, target, system_tick_count u, n + 1, u), interrupt, target, current, n, s)
      \<in> measure (\<lambda>(_, _, _, n, _). unat MAX_LOOP_COUNT - unat n)" by simp
qed simp

declare sleep_loop.simps [simp del]

definition sleep_ticks :: "('z async_scheme \<Rightarrow> 'z async_scheme option) \<Rightarrow> u32 \<Rightarrow> 'z async_scheme
    \<Rightarrow> 'z async_scheme option" where
  "sleep_ticks interrupt ticks s =
     (if ticks = 0 then Some s
      else let start_tick = system_tick_count s;
               target_tick = start_tick + ticks;
               s = sti s
           in do { (loop_counter, s) \<leftarrow> sleep_loop interrupt target_tick start_tick 0 s;
                   if loop_counter \<ge> MAX_LOOP_COUNT
                   then output_string (''WARNING: Sleep function timeout - tick counter may not be working'' @ [LF]) s
                   else Some s })"

partial_function (option) sleep_busy ::
    "('z async_scheme \<Rightarrow> 'z async_scheme option) \<Rightarrow> u32 \<Rightarrow> 'z async_scheme \<Rightarrow> 'z async_scheme option" where
  "sleep_busy interrupt target_tick s =
     (if monotonic_time_get_ticks_global s < target_tick
      then Option.bind (interrupt s) (sleep_busy interrupt target_tick) else Some s)"

definition sleep_seconds :: "('z async_scheme \<Rightarrow> 'z async_scheme option) \<Rightarrow> linker_map \<Rightarrow> u32 \<Rightarrow> 'z async_scheme
    \<Rightarrow> 'z async_scheme option" where
  "sleep_seconds interrupt L seconds s =
     (let ticks = seconds * 256;
          target_tick = monotonic_time_get_ticks_global s + ticks
      in do { s \<leftarrow> wake_up_list_add target_tick (sym_sleep_callback L) 0 s;
              sleep_busy interrupt target_tick s })"

section \<open>Register accesses as port events\<close>

text \<open>
  On a driver that holds its two ports a register access is a pair of port
  accesses. The functions below are those accesses as transformers of the
  history of port events; \<open>m\<close> is the mask of the select byte.
\<close>

definition driver_ready :: "'z async_scheme \<Rightarrow> ptr \<Rightarrow> bool" where
  "driver_ready s rtc \<longleftrightarrow> rtc \<noteq> 0 \<and> holds s (control_port (rtc_drivers s rtc)) CMOS_CONTROL_PORT
     \<and> holds s (data_port (rtc_drivers s rtc)) CMOS_DATA_PORT"

definition cmos_select :: "u8 \<Rightarrow> u8 \<Rightarrow> io_event list \<Rightarrow> io_event list" where
  "cmos_select m reg h = Out CMOS_CONTROL_PORT (reg OR m) # h"

definition cmos_val :: "device_fn \<Rightarrow> u8 \<Rightarrow> u8 \<Rightarrow> io_event list \<Rightarrow> u8" where
  "cmos_val d m reg h = d (cmos_select m reg h) CMOS_DATA_PORT"

definition cmos_read :: "device_fn \<Rightarrow> u8 \<Rightarrow> u8 \<Rightarrow> io_event list \<Rightarrow> io_event list" where
  "cmos_read d m reg h = In CMOS_DATA_PORT (cmos_val d m reg h) # cmos_select m reg h"

definition cmos_write :: "u8 \<Rightarrow> u8 \<Rightarrow> u8 \<Rightarrow> io_event list \<Rightarrow> io_event list" where
  "cmos_write m reg v h = Out CMOS_DATA_PORT v # cmos_select m reg h"

definition updating :: "device_fn \<Rightarrow> u8 \<Rightarrow> io_event list \<Rightarrow> bool" where
  "updating d m h \<longleftrightarrow> bit (cmos_val d m CMOS_REG_A h) 7"

definition update_poll :: "device_fn \<Rightarrow> u8 \<Rightarrow> io_event list \<Rightarrow> io_event list" where
  "update_poll d m h = cmos_read d m CMOS_REG_A h"

abbreviation driver_mask :: "'z async_scheme \<Rightarrow> ptr \<Rightarrow> u8" where
  "driver_mask s rtc \<equiv> nmi_mask (rtc_drivers s rtc)"

lemma driver_ready_trace [simp]: "driver_ready (s\<lparr>trace := h\<rparr>) rtc = driver_ready s rtc"
  by (simp add: driver_ready_def)

lemma read_cmos_events:
  assumes "driver_ready s rtc"
  shows "read_cmos_register rtc reg s = (cmos_val (device s) (driver_mask s rtc) reg (trace s),
     s\<lparr>trace := cmos_read (device s) (driver_mask s rtc) reg (trace s)\<rparr>)"
proof -
  from assms have h: "rtc \<noteq> 0" "holds s (control_port (rtc_drivers s rtc)) CMOS_CONTROL_PORT"
    "holds s (data_port (rtc_drivers s rtc)) CMOS_DATA_PORT" by (simp_all add: driver_ready_def)
  show ?thesis
    using h(1) read_holds [of "s\<lparr>trace := k\<rparr>" "data_port (rtc_drivers s rtc)" CMOS_DATA_PORT for k] h(3)
    by (simp add: read_cmos_register_def write_holds [OF h(2)] cmos_read_def cmos_val_def cmos_select_def Let_def)
qed

lemma write_cmos_events:
  assumes "driver_ready s rtc"
  shows "write_cmos_register rtc reg v s = s\<lparr>trace := cmos_write (driver_mask s rtc) reg v (trace s)\<rparr>"
proof -
  from assms have h: "rtc \<noteq> 0" "holds s (control_port (rtc_drivers s rtc)) CMOS_CONTROL_PORT"
    "holds s (data_port (rtc_drivers s rtc)) CMOS_DATA_PORT" by (simp_all add: driver_ready_def)
  show ?thesis
    using h(1) write_holds [of "s\<lparr>trace := k\<rparr>" "data_port (rtc_drivers s rtc)" CMOS_DATA_PORT for k] h(3)
    by (simp add: write_cmos_register_def write_holds [OF h(2)] cmos_write_def cmos_select_def Let_def)
qed

lemma update_in_progress_events:
  assumes "driver_ready s rtc"
  shows "update_in_progress rtc s = (updating (device s) (driver_mask s rtc) (trace s),
     s\<lparr>trace := update_poll (device s) (driver_mask s rtc) (trace s)\<rparr>)"
proof -
  have "v AND push_bit 7 1 \<noteq> 0 \<longleftrightarrow> bit v 7" for v :: u8
    using and_exp_eq_0_iff_not_bit [of v 7] by (simp add: push_bit_eq_mult)
  then show ?thesis
    using assms read_cmos_events [OF assms]
    by (simp add: update_in_progress_def driver_ready_def updating_def update_poll_def)
qed

lemmas driver_events = read_cmos_events write_cmos_events update_in_progress_events

section \<open>Guarded operations\<close>

text \<open>
  What the guarded loop needs of the clock: an update ends (polled often
  enough, the flag clears), and after an update has ended the next one does
  not begin before the operation is done.
\<close>

definition update_ends :: "device_fn \<Rightarrow> u8 \<Rightarrow> bool" where
  "update_ends d m \<longleftrightarrow> (\<forall>h. \<exists>n. \<not> updating d m ((update_poll d m ^^ n) h))"

definition quiet_after_update :: "device_fn \<Rightarrow> u8 \<Rightarrow> (io_event list \<Rightarrow> io_event list) \<Rightarrow> bool" where
  "quiet_after_update d m acts \<longleftrightarrow> (\<forall>h. updating d m h \<longrightarrow> \<not> updating d m (update_poll d m h)
     \<longrightarrow> \<not> updating d m (acts (update_poll d m (update_poll d m h))))"

lemma update_poll_extends: "\<exists>g. update_poll d m h = g @ h"
  by (simp add: update_poll_def cmos_read_def cmos_select_def)

lemma update_wait_returns:
  assumes "driver_ready s rtc" and "\<not> updating d m ((update_poll d m ^^ n) (trace s))"
    and "device s = d" "driver_mask s rtc = m"
  shows "\<exists>h. update_wait rtc s = Some (s\<lparr>trace := update_poll d m h\<rparr>) \<and> \<not> updating d m h
     \<and> (h = trace s \<or> (\<exists>g. h = update_poll d m g \<and> updating d m g)) \<and> (\<exists>g. h = g @ trace s)"
  using assms
proof (induction n arbitrary: s)
  case 0
  then have "update_wait rtc s = Some (s\<lparr>trace := update_poll d m (trace s)\<rparr>)"
    by (subst update_wait.simps) (simp add: driver_events)
  with 0 show ?case by auto
next
  case (Suc n)
  let ?s = "s\<lparr>trace := update_poll d m (trace s)\<rparr>"
  have unfold: "update_wait rtc s = (if updating d m (trace s) then update_wait rtc ?s else Some ?s)"
    using Suc.prems by (subst update_wait.simps) (simp add: driver_events)
  show ?case
  proof (cases "updating d m (trace s)")
    case False
    with unfold show ?thesis by auto
  next
    case True
    have "\<exists>h. update_wait rtc ?s = Some (?s\<lparr>trace := update_poll d m h\<rparr>) \<and> \<not> updating d m h
        \<and> (h = trace ?s \<or> (\<exists>g. h = update_poll d m g \<and> updating d m g)) \<and> (\<exists>g. h = g @ trace ?s)"
      by (rule Suc.IH) (use Suc.prems in \<open>simp_all add: funpow_swap1\<close>)
    then obtain h g where h: "update_wait rtc s = Some (s\<lparr>trace := update_poll d m h\<rparr>)" "\<not> updating d m h"
      "h = update_poll d m (trace s) \<or> (\<exists>g. h = update_poll d m g \<and> updating d m g)" "h = g @ update_poll d m (trace s)"
      using unfold True by auto
    obtain e where "update_poll d m (trace s) = e @ trace s" using update_poll_extends by blast
    with h(4) have "h = (g @ e) @ trace s" by simp
    moreover have "\<exists>g. h = update_poll d m g \<and> updating d m g" using h(3) True by auto
    ultimately show ?thesis using h(1,2) by blast
  qed
qed

text \<open>
  The interface of a guarded operation: it returns zero, its effect is a
  transformer of the port history, and running it on its own result is running
  it on its argument, so that the loop may repeat it.
\<close>

locale guarded_access =
  fixes op :: "ptr \<Rightarrow> time_data \<Rightarrow> 'z async_scheme \<Rightarrow> u8 \<times> time_data \<times> 'z async_scheme"
    and acts :: "device_fn \<Rightarrow> u8 \<Rightarrow> time_data \<Rightarrow> io_event list \<Rightarrow> io_event list"
    and yields :: "device_fn \<Rightarrow> u8 \<Rightarrow> time_data \<Rightarrow> io_event list \<Rightarrow> time_data"
  assumes op_runs: "driver_ready s rtc \<Longrightarrow> op rtc dat s =
      (0, yields (device s) (driver_mask s rtc) dat (trace s),
       s\<lparr>trace := acts (device s) (driver_mask s rtc) dat (trace s)\<rparr>)"
    and acts_again: "acts d m (yields d m dat h) = acts d m dat"
    and yields_again: "yields d m (yields d m dat h) = yields d m dat"
    and acts_extends: "\<exists>g. acts d m dat h = g @ h"
begin

lemma loop_step:
  assumes "driver_ready s rtc" and "device s = d" "driver_mask s rtc = m" and "update_ends d m"
  obtains h where "\<not> updating d m h" "h = trace s \<or> (\<exists>g. h = update_poll d m g \<and> updating d m g)"
    "\<exists>g. h = g @ trace s"
    "guarded_loop rtc op dat s = (let h' = acts d m dat (update_poll d m h);
       dat' = yields d m dat (update_poll d m h); t = s\<lparr>trace := update_poll d m h'\<rparr>
     in if \<not> updating d m h' then Some (0, dat', t) else guarded_loop rtc op dat' t)"
proof -
  from assms(4) obtain n where "\<not> updating d m ((update_poll d m ^^ n) (trace s))" by (auto simp: update_ends_def)
  from update_wait_returns [OF assms(1) this assms(2,3)] obtain h where
    h: "update_wait rtc s = Some (s\<lparr>trace := update_poll d m h\<rparr>)" "\<not> updating d m h"
      "h = trace s \<or> (\<exists>g. h = update_poll d m g \<and> updating d m g)" "\<exists>g. h = g @ trace s" by blast
  show thesis
  proof (rule that [OF h(2-4)])
    show "guarded_loop rtc op dat s = (let h' = acts d m dat (update_poll d m h);
       dat' = yields d m dat (update_poll d m h); t = s\<lparr>trace := update_poll d m h'\<rparr>
     in if \<not> updating d m h' then Some (0, dat', t) else guarded_loop rtc op dat' t)"
      using h(1) assms(1-3) by (subst guarded_loop.simps) (simp add: op_runs driver_events Let_def)
  qed
qed

lemma loop_returns:
  assumes ready: "driver_ready s rtc" "device s = d" "driver_mask s rtc = m" and ends: "update_ends d m"
    and quiet: "quiet_after_update d m (acts d m dat)"
  shows "\<exists>h. guarded_loop rtc op dat s = Some (0, yields d m dat (update_poll d m h),
        s\<lparr>trace := update_poll d m (acts d m dat (update_poll d m h))\<rparr>)
     \<and> \<not> updating d m h \<and> \<not> updating d m (acts d m dat (update_poll d m h)) \<and> (\<exists>g. h = g @ trace s)"
proof (rule loop_step [OF ready ends, of dat])
  fix h
  let ?h = "acts d m dat (update_poll d m h)"
  let ?t = "s\<lparr>trace := update_poll d m ?h\<rparr>" and ?dat = "yields d m dat (update_poll d m h)"
  assume h: "\<not> updating d m h" "\<exists>g. h = g @ trace s"
    and step: "guarded_loop rtc op dat s = (let h' = ?h; dat' = ?dat; t = s\<lparr>trace := update_poll d m h'\<rparr>
      in if \<not> updating d m h' then Some (0, dat', t) else guarded_loop rtc op dat' t)"
  show ?thesis
  proof (cases "updating d m ?h")
    case False
    with h step show ?thesis by (auto simp: Let_def)
  next
    case True
    have t: "driver_ready ?t rtc" "device ?t = d" "driver_mask ?t rtc = m" using ready by simp_all
    show ?thesis
    proof (rule loop_step [OF t ends, of ?dat])
      fix g
      let ?g = "acts d m dat (update_poll d m g)"
      assume g: "\<not> updating d m g" "g = trace ?t \<or> (\<exists>k. g = update_poll d m k \<and> updating d m k)"
        "\<exists>k. g = k @ trace ?t"
        and step2: "guarded_loop rtc op ?dat ?t = (let h' = acts d m ?dat (update_poll d m g);
          dat' = yields d m ?dat (update_poll d m g); t = ?t\<lparr>trace := update_poll d m h'\<rparr>
          in if \<not> updating d m h' then Some (0, dat', t) else guarded_loop rtc op dat' t)"
      have "\<exists>k. g = update_poll d m k \<and> updating d m k" using g(2) True by auto
      then have "\<not> updating d m ?g" using quiet g(1) by (auto simp: quiet_after_update_def)
      moreover have "\<exists>k. g = k @ trace s"
      proof -
        obtain a where a: "g = a @ update_poll d m ?h" using g(3) by auto
        obtain b where b: "update_poll d m ?h = b @ ?h" using update_poll_extends by blast
        obtain c where c: "?h = c @ update_poll d m h" using acts_extends by blast
        obtain e where e: "update_poll d m h = e @ h" using update_poll_extends by blast
        obtain f where f: "h = f @ trace s" using h(2) by blast
        have "g = a @ b @ c @ e @ f @ trace s" by (metis a b c e f)
        then show ?thesis by (metis append_assoc)
      qed
      ultimately show ?thesis using step step2 True g(1) by (auto simp: Let_def acts_again yields_again)
    qed
  qed
qed

end

definition read_events :: "device_fn \<Rightarrow> u8 \<Rightarrow> io_event list \<Rightarrow> io_event list" where
  "read_events d m h = cmos_read d m CMOS_REG_HOURS (cmos_read d m CMOS_REG_MINUTES (cmos_read d m CMOS_REG_SECONDS h))"

definition time_read :: "device_fn \<Rightarrow> u8 \<Rightarrow> io_event list \<Rightarrow> time_data" where
  "time_read d m h = (cmos_val d m CMOS_REG_SECONDS h,
     cmos_val d m CMOS_REG_MINUTES (cmos_read d m CMOS_REG_SECONDS h),
     cmos_val d m CMOS_REG_HOURS (cmos_read d m CMOS_REG_MINUTES (cmos_read d m CMOS_REG_SECONDS h)))"

definition write_events :: "u8 \<Rightarrow> time_data \<Rightarrow> io_event list \<Rightarrow> io_event list" where
  "write_events m dat h = (case dat of (sec, mins, hour) \<Rightarrow>
     cmos_write m CMOS_REG_HOURS hour (cmos_write m CMOS_REG_MINUTES mins (cmos_write m CMOS_REG_SECONDS sec h)))"

interpretation reading: guarded_access read_time_guarded_op "\<lambda>d m dat. read_events d m" "\<lambda>d m dat. time_read d m"
proof
  show "\<exists>g. read_events d m h = g @ h" for d m h by (simp add: read_events_def cmos_read_def cmos_select_def)
qed (simp_all add: read_time_guarded_op_def driver_events read_events_def time_read_def Let_def)

interpretation writing: guarded_access write_time_guarded_op "\<lambda>d m dat. write_events m dat" "\<lambda>d m dat h. dat"
proof
  show "\<exists>g. write_events m dat h = g @ h" for m dat h
    by (cases dat) (simp add: write_events_def cmos_write_def cmos_select_def)
next
  fix s :: "'z async_scheme" and rtc dat
  assume "driver_ready s rtc"
  then show "write_time_guarded_op rtc dat s
      = (0, dat, s\<lparr>trace := write_events (driver_mask s rtc) dat (trace s)\<rparr>)"
    by (cases dat) (simp add: write_time_guarded_op_def driver_events write_events_def Let_def)
qed simp_all

section \<open>Opening, interrupts and sleeping\<close>

lemma set_data_format_events:
  assumes "driver_ready s rtc"
  shows "set_data_format rtc s = s\<lparr>trace := cmos_write (driver_mask s rtc) CMOS_REG_B
      (cmos_val (device s) (driver_mask s rtc) CMOS_REG_B (trace s) OR 6)
      (cmos_read (device s) (driver_mask s rtc) CMOS_REG_B (trace s))\<rparr>"
proof -
  have "push_bit 1 1 OR push_bit 2 1 = (6 :: u8)" by (simp add: push_bit_eq_mult)
  then show ?thesis
    using assms by (simp add: set_data_format_def driver_events) (simp add: driver_ready_def)
qed

lemma held_console: "same_but_console s t \<Longrightarrow> held t = held s"
  using same_but_console_registry [of s t] held_cong [of t s] by simp

lemma ports_ok_console: "same_but_console s t \<Longrightarrow> ports_ok t = ports_ok s"
  using same_but_console_registry [of s t] held_console [of s t] by (simp add: ports_ok_def)

lemma held_heap: "same_but_heap s t \<Longrightarrow> held t = held s"
  by (rule held_cong) (cases s; cases t; simp add: same_but_heap_def)

lemma ports_ok_heap: "same_but_heap s t \<Longrightarrow> ports_ok t = ports_ok s"
proof -
  assume f: "same_but_heap s t"
  then have "pm_initialized t = pm_initialized s" by (cases s; cases t) (simp add: same_but_heap_def)
  then show ?thesis by (simp add: ports_ok_def held_heap [OF f])
qed

lemma same_but_heap_device: "same_but_heap s t \<Longrightarrow> device t = device s \<and> trace t = trace s"
  by (cases s; cases t) (simp add: same_but_heap_def)

lemma same_but_registry_heap: "same_but_registry s t \<Longrightarrow> ram t = ram s \<and> first_free (t :: 'z mem_scheme) = first_free s"
  by (cases s; cases t) (simp add: same_but_registry_def)

lemma heap_ok_cong: "ram s = ram t \<Longrightarrow> first_free s = first_free t \<Longrightarrow> heap_ok s = heap_ok t"
  by (simp add: heap_ok_def free_list_def)

lemma literal_runs:
  assumes "NUL \<notin> set str" and "uart_drains (device s)"
  obtains t where "output_string str s = Some t" "same_but_console s t" "sent t = sent s @ map of_char (crlf str)"
  using printsD [OF prints_literal [OF assms(1)] assms(2)] by metis

text \<open>The ports after \<^verbatim>\<open>init_rtc\<close>: both held by the driver, or the table as it was.\<close>

lemma init_rtc_refused:
  fixes s :: "'z async_scheme"
  assumes "ports_ok s" and "uart_drains (device s)" and "request_port CMOS_CONTROL_PORT s = (None, t)"
  shows "\<exists>u. init_rtc s = Some (0, u) \<and> held u = held s \<and> ports_ok u"
proof -
  from request_port_refused [OF assms(1,3)] have t: "held t = held s" "ports_ok t" by auto
  have "device t = device s" using registry_frame_simps(2) [of CMOS_CONTROL_PORT s] assms(3) by simp
  then obtain u where u: "output_string (''Failed to acquire CMOS control port'' @ [LF]) t = Some u" "same_but_console t u"
    using literal_runs [of "''Failed to acquire CMOS control port'' @ [LF]" t] assms(2) by auto
  then show ?thesis using assms(3) t held_console [OF u(2)] ports_ok_console [OF u(2)] by (simp add: init_rtc_def)
qed

lemma init_rtc_no_data_port:
  fixes s :: "'z async_scheme"
  assumes "ports_ok s" and "uart_drains (device s)" and "request_port CMOS_CONTROL_PORT s = (Some c, s1)"
    and "request_port CMOS_DATA_PORT s1 = (None, s2)"
  shows "\<exists>u. init_rtc s = Some (0, u) \<and> held u = held s \<and> ports_ok u"
proof -
  have ok1: "ports_ok s1" using ports_ok_request [OF assms(1), of CMOS_CONTROL_PORT] assms(3) by simp
  from request_port_refused [OF ok1 assms(4)] have s2: "held s2 = held s1" "ports_ok s2" by auto
  have "device s2 = device s"
    using registry_frame_simps(2) [of CMOS_CONTROL_PORT s] registry_frame_simps(2) [of CMOS_DATA_PORT s1] assms(3,4) by simp
  then obtain u where u: "output_string (''Failed to acquire CMOS data port'' @ [LF]) s2 = Some u" "same_but_console s2 u"
    using literal_runs [of "''Failed to acquire CMOS data port'' @ [LF]" s2] assms(2) by auto
  have "held (release_port (Some c) u) = (held s1)(c := None)"
    using held_release [of c u] held_console [OF u(2)] s2(1) by simp
  also have "\<dots> = held s" using request_port_granted [OF assms(1,3)] by auto
  finally show ?thesis
    using assms(3,4) u ports_ok_console [OF u(2)] s2(2) ports_ok_release [of u "Some c"] by (simp add: init_rtc_def)
qed

lemma init_rtc_granted:
  fixes s :: "'z async_scheme"
  assumes ok: "ports_ok s" and c: "request_port CMOS_CONTROL_PORT s = (Some c, s1)" and dt: "request_port CMOS_DATA_PORT s1 = (Some k, s2)"
    and m: "malloc 12 s2 = Some (rtc, s3)" "rtc \<noteq> 0" "same_but_heap s2 s3"
  defines "u \<equiv> s3\<lparr>rtc_drivers := (rtc_drivers s3)(rtc := \<lparr>control_port = Some c, data_port = Some k, nmi_enabled = True\<rparr>),
      trace := cmos_write 0 CMOS_REG_B (cmos_val (device s) 0 CMOS_REG_B (trace s) OR 6) (cmos_read (device s) 0 CMOS_REG_B (trace s))\<rparr>"
  shows "init_rtc s = Some (rtc, u)" "driver_ready u rtc" "nmi_enabled (rtc_drivers u rtc)"
    "held u = (held s)(c \<mapsto> CMOS_CONTROL_PORT, k \<mapsto> CMOS_DATA_PORT)" "ports_ok u"
proof -
  note pair = pm.request_pair [OF ok c dt]
  have ok1: "ports_ok s1" using ports_ok_request [OF ok, of CMOS_CONTROL_PORT] c by simp
  have ok2: "ports_ok s2" using ports_ok_request [OF ok1, of CMOS_DATA_PORT] dt by simp
  have f1: "same_but_registry s s1" "same_but_registry s1 s2"
    using request_port_frame [of s CMOS_CONTROL_PORT] request_port_frame [of s1 CMOS_DATA_PORT] c dt by simp_all
  have dev: "device s3 = device s" "trace s3 = trace s"
    using same_but_heap_device [OF m(3)] same_but_registry_device [OF f1(1)] same_but_registry_device [OF f1(2)]
      same_but_registry_trace [OF f1(1)] same_but_registry_trace [OF f1(2)] by simp_all
  let ?s4 = "s3\<lparr>rtc_drivers := (rtc_drivers s3)(rtc := \<lparr>control_port = Some c, data_port = Some k, nmi_enabled = True\<rparr>)\<rparr>"
  have h: "held s3 = (held s)(c \<mapsto> CMOS_CONTROL_PORT, k \<mapsto> CMOS_DATA_PORT)" using held_heap [OF m(3)] pair(3) by simp
  have hu: "held ?s4 = held s3" "held u = held s3" by (rule held_cong, simp add: u_def)+
  have rdy: "driver_ready ?s4 rtc" using m(2) h hu(1) pair(2) by (simp add: driver_ready_def holds_def)
  have "set_data_format rtc ?s4 = u" using set_data_format_events [OF rdy] dev by (simp add: nmi_mask_def u_def)
  then show "init_rtc s = Some (rtc, u)" using m(1,2) c dt by (simp add: init_rtc_def)
  show "driver_ready u rtc" using m(2) h hu(2) pair(2) by (simp add: driver_ready_def holds_def u_def)
  show "nmi_enabled (rtc_drivers u rtc)" by (simp add: u_def)
  show "held u = (held s)(c \<mapsto> CMOS_CONTROL_PORT, k \<mapsto> CMOS_DATA_PORT)" using h hu(2) by simp
  show "ports_ok u" using ok2 ports_ok_heap [OF m(3)] hu(2) by (simp add: ports_ok_def u_def)
qed

lemma init_rtc_both_ports:
  fixes s :: "'z async_scheme"
  assumes ok: "ports_ok s" "uart_drains (device s)" "heap_ok s" and c: "request_port CMOS_CONTROL_PORT s = (Some c, s1)"
    and dt: "request_port CMOS_DATA_PORT s1 = (Some k, s2)"
  shows "\<exists>rtc u. init_rtc s = Some (rtc, u) \<and> ports_ok u
     \<and> (if rtc = 0 then held u = held s
        else driver_ready u rtc \<and> nmi_enabled (rtc_drivers u rtc) \<and> held u = (held s)(c \<mapsto> CMOS_CONTROL_PORT, k \<mapsto> CMOS_DATA_PORT)
          \<and> trace u = cmos_write 0 CMOS_REG_B (cmos_val (device s) 0 CMOS_REG_B (trace s) OR 6)
                       (cmos_read (device s) 0 CMOS_REG_B (trace s)))"
proof -
  note pair = pm.request_pair [OF ok(1) c dt]
  have ok1: "ports_ok s1" using ports_ok_request [OF ok(1), of CMOS_CONTROL_PORT] c by simp
  have ok2: "ports_ok s2" using ports_ok_request [OF ok1, of CMOS_DATA_PORT] dt by simp
  have f1: "same_but_registry s s1" "same_but_registry s1 s2"
    using request_port_frame [of s CMOS_CONTROL_PORT] request_port_frame [of s1 CMOS_DATA_PORT] c dt by simp_all
  have "heap_ok s2" using ok(3) same_but_registry_heap [OF f1(1)] same_but_registry_heap [OF f1(2)] heap_ok_cong [of s2 s] by simp
  then obtain rtc s3 where m: "malloc 12 s2 = Some (rtc, s3)" "same_but_heap s2 s3"
    using malloc_laws [of 12 s2] by (auto simp: malloc_served_def)
  have h3: "held s3 = (held s)(c \<mapsto> CMOS_CONTROL_PORT, k \<mapsto> CMOS_DATA_PORT)" using held_heap [OF m(2)] pair(3) by simp
  have ok3: "ports_ok s3"
    using ok2 ports_ok_heap [OF m(2)] by simp
  have dev: "device s3 = device s" "trace s3 = trace s"
    using same_but_heap_device [OF m(2)] same_but_registry_device [OF f1(1)] same_but_registry_device [OF f1(2)]
      same_but_registry_trace [OF f1(1)] same_but_registry_trace [OF f1(2)] by simp_all
  show ?thesis
  proof (cases "rtc = 0")
    case True
    obtain u where u: "output_string (''Failed to allocate memory for RTC driver'' @ [LF]) s3 = Some u" "same_but_console s3 u"
      using literal_runs [of "''Failed to allocate memory for RTC driver'' @ [LF]" s3] ok(2) dev by auto
    let ?u = "release_port (Some k) (release_port (Some c) u)"
    have "held ?u = (held s)(c \<mapsto> CMOS_CONTROL_PORT, k \<mapsto> CMOS_DATA_PORT, c := None, k := None)"
      by (simp add: held_release held_console [OF u(2)] h3)
    moreover have "held s c = None" "((held s)(c \<mapsto> CMOS_CONTROL_PORT)) k = None"
      using request_port_granted [OF ok(1) c] request_port_granted [OF ok1 dt] by simp_all
    ultimately have "held ?u = held s" by (auto simp: fun_eq_iff)
    moreover have "ports_ok ?u" by (intro ports_ok_release) (simp add: ports_ok_console [OF u(2)] ok3)
    moreover have "init_rtc s = Some (0, ?u)" using True m(1) u(1) c dt by (simp add: init_rtc_def)
    ultimately show ?thesis by auto
  next
    case False
    note g = init_rtc_granted [OF ok(1) c dt m(1) False m(2)]
    show ?thesis by (intro exI [of _ rtc] exI conjI, rule g(1)) (use g False in simp_all)
  qed
qed

text \<open>Acknowledging through the port manager has no effect while a driver holds the ports.\<close>

lemma acknowledge_refused:
  assumes "ports_ok s" and "CMOS_CONTROL_PORT \<in> ran (held s)"
  shows "trace (acknowledge_rtc_interrupt s) = trace s"
proof (cases "request_port CMOS_CONTROL_PORT s")
  case (Pair c t)
  have "c = None"
  proof (cases c)
    case (Some h)
    with request_port_granted [OF assms(1)] Pair assms(2) show ?thesis by blast
  qed simp
  with Pair show ?thesis
    using registry_frame_simps(1) [of CMOS_CONTROL_PORT s] by (simp add: acknowledge_rtc_interrupt_def)
qed

lemma acknowledge_reads:
  assumes "ports_ok s" and "CMOS_CONTROL_PORT \<notin> ran (held s)" and "CMOS_DATA_PORT \<notin> ran (held s)"
    and "card (dom (held s)) < 63"
  shows "trace (acknowledge_rtc_interrupt s) = cmos_read (device s) 0 CMOS_REG_C (trace s)"
    and "held (acknowledge_rtc_interrupt s) = held s"
proof -
  have "card (dom (held s)) < 64" using assms(4) by simp
  from request_port_grants [OF assms(1,2) this] obtain c s1 where
    c: "request_port CMOS_CONTROL_PORT s = (Some c, s1)" "held s1 = (held s)(c \<mapsto> CMOS_CONTROL_PORT)"
      "ports_ok s1" "card (dom (held s1)) = Suc (card (dom (held s)))"
      "ran (held s1) = insert CMOS_CONTROL_PORT (ran (held s))" "same_but_registry s s1" by blast
  have "CMOS_DATA_PORT \<notin> ran (held s1)" "card (dom (held s1)) < 64" using c assms by simp_all
  from request_port_grants [OF c(3) this] obtain k s2 where
    k: "request_port CMOS_DATA_PORT s1 = (Some k, s2)" "held s2 = (held s1)(k \<mapsto> CMOS_DATA_PORT)"
      "ports_ok s2" "same_but_registry s1 s2" by blast
  note pair = pm.request_pair [OF assms(1) c(1) k(1)]
  have hold: "holds s2 (Some c) CMOS_CONTROL_PORT" "holds s2 (Some k) CMOS_DATA_PORT"
    using pair(2,3) by (simp_all add: holds_def)
  let ?s3 = "s2\<lparr>trace := Out CMOS_CONTROL_PORT 0x0C # trace s2\<rparr>"
  let ?s4 = "?s3\<lparr>trace := In CMOS_DATA_PORT (device s2 (trace ?s3) CMOS_DATA_PORT) # trace ?s3\<rparr>"
  have hold3: "holds ?s3 (Some k) CMOS_DATA_PORT" using hold(2) by simp
  have run: "acknowledge_rtc_interrupt s = release_port (Some c) (release_port (Some k) ?s4)"
    using c(1) k(1) write_holds [OF hold(1)] read_holds [OF hold3] by (simp add: acknowledge_rtc_interrupt_def)
  have "device s2 = device s" "trace s2 = trace s"
    using same_but_registry_device [OF c(6)] same_but_registry_device [OF k(4)]
      same_but_registry_trace [OF c(6)] same_but_registry_trace [OF k(4)] by simp_all
  then show "trace (acknowledge_rtc_interrupt s) = cmos_read (device s) 0 CMOS_REG_C (trace s)"
    by (simp add: run cmos_read_def cmos_val_def cmos_select_def)
  have "held ?s4 = held s2" by (rule held_cong) simp
  then show "held (acknowledge_rtc_interrupt s) = held s"
    using pair(2,3) request_port_granted [OF assms(1) c(1)] request_port_granted [OF c(3) k(1)]
    by (auto simp: run held_release fun_eq_iff)
qed

text \<open>
  The bounded sleep ends whatever the interrupts do to the tick counter: it
  ends because the target was reached, or after a million interrupts.
\<close>

lemma sleep_loop_ends:
  assumes "\<And>s. P s \<Longrightarrow> \<exists>t. interrupt s = Some t \<and> P t" and "P s" and "n \<le> MAX_LOOP_COUNT"
    and "current = system_tick_count s"
  shows "\<exists>k t. sleep_loop interrupt target current n s = Some (k, t) \<and> P t \<and> k \<le> MAX_LOOP_COUNT
     \<and> (k < MAX_LOOP_COUNT \<longrightarrow> target \<le> system_tick_count t)"
  using assms
proof (induction interrupt target current n s rule: sleep_loop.induct)
  case (1 interrupt target current n s)
  show ?case
  proof (cases "current < target \<and> n < MAX_LOOP_COUNT")
    case False
    then have "sleep_loop interrupt target current n s = Some (n, s)" by (subst sleep_loop.simps) auto
    with False 1 show ?thesis by auto
  next
    case True
    from "1.prems"(1,2) obtain t where t: "interrupt s = Some t" "P t" by blast
    have "unat n < 1000000" using True by (simp add: word_less_nat_alt)
    then have "n + 1 \<le> MAX_LOOP_COUNT" by (simp add: word_le_nat_alt unat_add_no_wrap)
    from "1.IH" [OF True t(1) "1.prems"(1) t(2) this refl]
    have "\<exists>k u. sleep_loop interrupt target (system_tick_count t) (n + 1) t = Some (k, u) \<and> P u \<and> k \<le> MAX_LOOP_COUNT
        \<and> (k < MAX_LOOP_COUNT \<longrightarrow> target \<le> system_tick_count u)" by blast
    with True t(1) show ?thesis by (subst sleep_loop.simps) simp
  qed
qed

text \<open>The unbounded sleep ends when every interrupt moves the clock on by one.\<close>

lemma sleep_busy_returns:
  fixes s :: "'z async_scheme"
  assumes step: "\<And>s. P s \<Longrightarrow> monotonic_time_get_ticks_global s < target \<Longrightarrow> \<exists>t. interrupt s = Some t \<and> P t
      \<and> monotonic_time_get_ticks_global t = monotonic_time_get_ticks_global s + 1" and "P s"
  shows "\<exists>t. sleep_busy interrupt target s = Some t \<and> P t \<and> target \<le> monotonic_time_get_ticks_global t
     \<and> (monotonic_time_get_ticks_global s \<le> target \<longrightarrow> monotonic_time_get_ticks_global t = target)"
  using assms(2)
proof (induction "unat target - unat (monotonic_time_get_ticks_global s)" arbitrary: s)
  case 0
  let ?now = "monotonic_time_get_ticks_global s"
  have "target \<le> ?now" using 0(1) by (simp add: word_le_nat_alt)
  then have "sleep_busy interrupt target s = Some s" by (subst sleep_busy.simps) (simp add: leD)
  with 0 \<open>target \<le> ?now\<close> show ?case by auto
next
  case (Suc n)
  let ?now = "monotonic_time_get_ticks_global s"
  have lt: "?now < target" using Suc.hyps(2) by (simp add: word_less_nat_alt)
  from step [OF Suc.prems lt] obtain t where t: "interrupt s = Some t" "P t" "monotonic_time_get_ticks_global t = ?now + 1" by blast
  have "unat ?now < unat target" using lt by (simp add: word_less_nat_alt)
  then have u: "unat (?now + 1) = unat ?now + 1" using unat_u32_less [of target] by (simp add: unat_add_no_wrap)
  have "\<exists>r. sleep_busy interrupt target t = Some r \<and> P r \<and> target \<le> monotonic_time_get_ticks_global r
     \<and> (monotonic_time_get_ticks_global t \<le> target \<longrightarrow> monotonic_time_get_ticks_global r = target)"
    by (rule Suc.hyps(1)) (use Suc.hyps(2) t u in simp_all)
  moreover have "monotonic_time_get_ticks_global t \<le> target" using t(3) u \<open>unat ?now < unat target\<close> by (simp add: word_le_nat_alt)
  ultimately show ?case using lt t(1) by (subst sleep_busy.simps) auto
qed

section \<open>A concrete clock\<close>

text \<open>
  A clock that stands at 12:45:30 and never updates, with an idle UART beside
  it, and a driver at \<open>0x3000\<close> that holds the two ports.
\<close>

definition cmos_clock :: device_fn where
  "cmos_clock h p = (if p = CMOS_DATA_PORT then
     (case h of Out q r # _ \<Rightarrow> (if r = 0 then 30 else if r = 2 then 45 else if r = 4 then 12 else 0x26) | _ \<Rightarrow> 0)
     else 0x60)"

definition rtc_example :: "device_fn \<Rightarrow> async" where
  "rtc_example d = (async_boot d)\<lparr>pm_initialized := True,
     port_registry := (port_registry (async_boot d))
       (0 := \<lparr>port = CMOS_CONTROL_PORT, in_use = True, next_handle = None\<rparr>,
        1 := \<lparr>port = CMOS_DATA_PORT, in_use = True, next_handle = None\<rparr>),
     rtc_drivers := (\<lambda>_. \<lparr>control_port = Some 0, data_port = Some 1, nmi_enabled = True\<rparr>)\<rparr>"

lemma uart_drains_clock [simp]: "uart_drains cmos_clock"
  by (simp add: uart_drains_def tx_empty_def cmos_clock_def)

lemma cmos_clock_idle: "\<not> updating cmos_clock 0 h"
  by (simp add: updating_def cmos_val_def cmos_clock_def cmos_select_def bit_simps)

lemma cmos_clock_quiet: "update_ends cmos_clock 0" "quiet_after_update cmos_clock 0 acts"
  by (simp_all add: update_ends_def quiet_after_update_def cmos_clock_idle)

lemma async_boot_simps [simp]:
  "device (async_boot d) = d" "port_registry (async_boot d) = (\<lambda>_. \<lparr>port = 0, in_use = False, next_handle = None\<rparr>)"
  "trace (async_boot d) = []" "pm_initialized (async_boot d) = False" "ram (async_boot d) = (\<lambda>_. 0)"
  "first_free (async_boot d) = 0"
  by (simp_all add: async_boot_def async.defs idt_state.defs boot_defs)

lemma rtc_example_ready: "driver_ready (rtc_example d) 0x3000" "driver_mask (rtc_example d) 0x3000 = 0"
  "device (rtc_example d) = d"
  by (simp_all add: rtc_example_def driver_ready_def holds_def held_def nmi_mask_def)

section \<open>Properties\<close>

text \<open>
  C16 (reading the time). On a driver that holds its ports, with a clock whose
  updates end and leave room for a read, \<^verbatim>\<open>read_rtc_time\<close> returns 0. The three
  bytes stored for the caller were read one after the other between two reads
  of register A that both show no update in progress, so they are one moment of
  the clock; nothing but memory at the three addresses and the port history has
  changed.
\<close>

theorem read_rtc_time_snapshot:
  assumes "driver_ready s rtc" and "device s = d" and "driver_mask s rtc = m" and "update_ends d m"
    and "quiet_after_update d m (read_events d m)" and "seconds \<noteq> 0" and "minutes \<noteq> 0" and "hours \<noteq> 0"
  shows "\<exists>h. \<not> updating d m h \<and> \<not> updating d m (read_events d m (update_poll d m h)) \<and> (\<exists>g. h = g @ trace s)
     \<and> (case time_read d m (update_poll d m h) of (sec, mins, hour) \<Rightarrow>
          read_rtc_time rtc seconds minutes hours s = Some (0,
            s\<lparr>trace := update_poll d m (read_events d m (update_poll d m h)),
              ram := (ram s)(seconds := sec, minutes := mins, hours := hour)\<rparr>))"
proof -
  have "rtc \<noteq> 0" using assms(1) by (simp add: driver_ready_def)
  from reading.loop_returns [OF assms(1-5), of "(0, 0, 0)"] obtain h where
    h: "guarded_loop rtc read_time_guarded_op (0, 0, 0) s = Some (0, time_read d m (update_poll d m h),
        s\<lparr>trace := update_poll d m (read_events d m (update_poll d m h))\<rparr>)"
      "\<not> updating d m h" "\<not> updating d m (read_events d m (update_poll d m h))" "\<exists>g. h = g @ trace s" by blast
  show ?thesis
    using h \<open>rtc \<noteq> 0\<close> assms(6-8)
    by (intro exI [of _ h]) (auto simp: read_rtc_time_def update_guarded_op_def set_byte_def split: prod.split)
qed

theorem read_rtc_time_snapshot_witness:
  "\<exists>t. read_rtc_time 0x3000 0x100 0x101 0x102 (rtc_example cmos_clock) = Some (0, t)
     \<and> ram t 0x100 = 30 \<and> ram t 0x101 = 45 \<and> ram t 0x102 = 12"
proof -
  have "time_read cmos_clock 0 h = (30, 45, 12)" for h
    by (simp add: time_read_def cmos_val_def cmos_clock_def cmos_select_def)
  then show ?thesis
    using read_rtc_time_snapshot [OF rtc_example_ready(1,3,2) cmos_clock_quiet, of "0x100" "0x101" "0x102"] by auto
qed

text \<open>
  Writing the time. Under the same conditions \<^verbatim>\<open>write_rtc_time\<close> returns 0, and
  the last thing it has done is to write seconds, minutes and hours to their
  registers between two reads of register A that show no update in progress.
\<close>

theorem write_rtc_time_guarded:
  assumes "driver_ready s rtc" and "device s = d" and "driver_mask s rtc = m" and "update_ends d m"
    and "quiet_after_update d m (write_events m (sec, mins, hour))"
  shows "\<exists>h. \<not> updating d m h \<and> \<not> updating d m (write_events m (sec, mins, hour) (update_poll d m h))
     \<and> (\<exists>g. h = g @ trace s)
     \<and> write_rtc_time rtc sec mins hour s
        = Some (0, s\<lparr>trace := update_poll d m (write_events m (sec, mins, hour) (update_poll d m h))\<rparr>)"
proof -
  have "rtc \<noteq> 0" using assms(1) by (simp add: driver_ready_def)
  with writing.loop_returns [OF assms(1-5)] show ?thesis
    by (fastforce simp: write_rtc_time_def update_guarded_op_def)
qed

theorem write_rtc_time_guarded_witness:
  "\<exists>h. write_rtc_time 0x3000 30 45 11 (rtc_example cmos_clock)
     = Some (0, (rtc_example cmos_clock)\<lparr>trace := update_poll cmos_clock 0 (write_events 0 (30, 45, 11) (update_poll cmos_clock 0 h))\<rparr>)"
  using write_rtc_time_guarded [OF rtc_example_ready(1,3,2) cmos_clock_quiet, of 30 45 11] by blast

text \<open>
  C24 (opening the clock). \<^verbatim>\<open>init_rtc\<close> returns. When it fails (a CMOS port is taken,
  the handles are used up, the heap is full) it returns \<^verbatim>\<open>NULL\<close> with the port table
  exactly as it was: what it had acquired is released. When it succeeds the
  driver holds both ports and register B has been rewritten with the 24-hour
  and binary bits set.
\<close>

theorem init_rtc_releases_on_failure:
  fixes s :: "'z async_scheme"
  assumes "ports_ok s" and "uart_drains (device s)" and "heap_ok s"
  shows "\<exists>rtc u. init_rtc s = Some (rtc, u) \<and> ports_ok u
     \<and> (if rtc = 0 then held u = held s
        else driver_ready u rtc \<and> nmi_enabled (rtc_drivers u rtc)
          \<and> CMOS_CONTROL_PORT \<notin> ran (held s) \<and> CMOS_DATA_PORT \<notin> ran (held s)
          \<and> trace u = cmos_write 0 CMOS_REG_B (cmos_val (device s) 0 CMOS_REG_B (trace s) OR 6)
                       (cmos_read (device s) 0 CMOS_REG_B (trace s)))"
proof (cases "request_port CMOS_CONTROL_PORT s")
  case (Pair g s1)
  show ?thesis
  proof (cases g)
    case None
    with Pair init_rtc_refused [OF assms(1,2)] show ?thesis by auto
  next
    case (Some c)
    obtain k s2 where k: "request_port CMOS_DATA_PORT s1 = (k, s2)" by fastforce
    note c = Pair [unfolded Some]
    show ?thesis
    proof (cases k)
      case None
      with init_rtc_no_data_port [OF assms(1,2) c] k show ?thesis by auto
    next
      case (Some i)
      have "ports_ok s1" using ports_ok_request [OF assms(1), of CMOS_CONTROL_PORT] c by simp
      have "CMOS_CONTROL_PORT \<notin> ran (held s)" using request_port_granted [OF assms(1) c] by simp
      moreover have "CMOS_DATA_PORT \<notin> ran (held s)"
      proof
        assume "CMOS_DATA_PORT \<in> ran (held s)"
        then obtain j where j: "held s j = Some CMOS_DATA_PORT" by (auto simp: ran_def)
        then have "j \<noteq> c" using request_port_granted [OF assms(1) c] by auto
        with j have "held s1 j = Some CMOS_DATA_PORT" using request_port_granted [OF assms(1) c] by simp
        then show False
          using request_port_granted [OF \<open>ports_ok s1\<close>, of CMOS_DATA_PORT i s2] k Some by (auto simp: ran_def)
      qed
      moreover obtain rtc u where "init_rtc s = Some (rtc, u)" "ports_ok u"
        "if rtc = 0 then held u = held s
        else driver_ready u rtc \<and> nmi_enabled (rtc_drivers u rtc) \<and> held u = (held s)(c \<mapsto> CMOS_CONTROL_PORT, i \<mapsto> CMOS_DATA_PORT)
          \<and> trace u = cmos_write 0 CMOS_REG_B (cmos_val (device s) 0 CMOS_REG_B (trace s) OR 6)
                       (cmos_read (device s) 0 CMOS_REG_B (trace s))"
        using init_rtc_both_ports [OF assms c] k Some by blast
      ultimately show ?thesis by (intro exI [of _ rtc] exI [of _ u]) simp
    qed
  qed
qed

theorem init_rtc_releases_on_failure_witness:
  "\<exists>u. init_rtc (rtc_example cmos_clock) = Some (0, u) \<and> held u = [0 \<mapsto> CMOS_CONTROL_PORT, 1 \<mapsto> CMOS_DATA_PORT]"
proof -
  have held: "held (rtc_example cmos_clock) = [0 \<mapsto> CMOS_CONTROL_PORT, 1 \<mapsto> CMOS_DATA_PORT]"
    by (auto simp: rtc_example_def held_def fun_eq_iff)
  then have "ports_ok (rtc_example cmos_clock)" "CMOS_CONTROL_PORT \<in> ran (held (rtc_example cmos_clock))"
    by (auto simp: ports_ok_def rtc_example_def ran_def)
  moreover have "heap_ok (rtc_example cmos_clock)"
    unfolding heap_ok_def free_list_def by (rule exI [of _ "[]"]) (simp add: rtc_example_def)
  ultimately obtain rtc u where u: "init_rtc (rtc_example cmos_clock) = Some (rtc, u)"
    "if rtc = 0 then held u = held (rtc_example cmos_clock) else CMOS_CONTROL_PORT \<notin> ran (held (rtc_example cmos_clock))"
    using init_rtc_releases_on_failure [of "rtc_example cmos_clock"] rtc_example_ready(3) [of cmos_clock] by (auto split: if_splits)
  with \<open>CMOS_CONTROL_PORT \<in> _\<close> held show ?thesis by (auto split: if_splits)
qed

lemma driver_ready_cong:
  "port_registry s = port_registry t \<Longrightarrow> rtc_drivers s = rtc_drivers t \<Longrightarrow> driver_ready s rtc = driver_ready t rtc"
  using held_cong [of s t] by (simp add: driver_ready_def holds_def)

lemma register_handler_eq:
  "register_interrupt_handler v h s = (0, s\<lparr>interrupt_handlers :=
     (if handlers_initialized s then interrupt_handlers s else (\<lambda>_. 0))(v := h), handlers_initialized := True\<rparr>)"
  by (cases s) (simp add: registry_defs not_le)

lemma rtc_irq_vector: "irq_id_to_vector rtc_irq = 72"
  by (simp add: irq_id_to_vector_def rtc_irq_def)

lemma enable_rtc_interrupts_run:
  fixes s :: "'z async_scheme"
  assumes ready: "driver_ready s rtc" "nmi_enabled (rtc_drivers s rtc)" "pic_ready s"
    and d: "d = device s" and a: "a = cmos_val d 0 CMOS_REG_A (trace s)"
    and h1: "h1 = cmos_write 0 CMOS_REG_A ((a AND 0xF0) OR 0x08) (cmos_read d 0 CMOS_REG_A (trace s))"
    and b: "b = cmos_val d 0 CMOS_REG_B h1"
    and h2: "h2 = cmos_write 0 CMOS_REG_B (b OR 0x40) (cmos_read d 0 CMOS_REG_B h1)"
    and h3: "h3 = Out 0x21 (clear_mask_bit 2 (d h2 0x21)) # In 0x21 (d h2 0x21) # h2"
  shows "enable_rtc_interrupts rtc handler s = Some (0, s\<lparr>interrupt_handlers :=
       (if handlers_initialized s then interrupt_handlers s else (\<lambda>_. 0))(72 := handler), handlers_initialized := True,
       trace := Out 0xA1 (clear_mask_bit 0 (d h3 0xA1)) # In 0xA1 (d h3 0xA1) # h3\<rparr>)"
proof -
  define H where "H = (if handlers_initialized s then interrupt_handlers s else (\<lambda>_. 0))(72 := handler)"
  define r where "r = s\<lparr>interrupt_handlers := H, handlers_initialized := True\<rparr>"
  have reg: "register_interrupt_handler_irq rtc_irq handler s = (0, r)"
    by (simp add: register_interrupt_handler_irq_def rtc_irq_vector register_handler_eq r_def H_def)
  have r: "driver_ready r rtc" "pic_ready r" "driver_mask r rtc = 0" "device r = d" "trace r = trace s"
    using ready driver_ready_cong [of r s rtc] pic_ready_cong [of r s] by (simp_all add: r_def nmi_mask_def d)
  have "enable_rtc_interrupts rtc handler s = Some (0, pic_unmask_irq 8 (r\<lparr>trace := h2\<rparr>))"
    using reg r ready(1) by (simp add: enable_rtc_interrupts_def driver_events a h1 b h2) (simp add: driver_ready_def)
  moreover have "pic_unmask_irq 8 (r\<lparr>trace := h2\<rparr>)
      = r\<lparr>trace := Out 0xA1 (clear_mask_bit 0 (d h3 0xA1)) # In 0xA1 (d h3 0xA1) # h3\<rparr>"
    using pic_unmask_irq_clears [of "r\<lparr>trace := h2\<rparr>" 8] r by (simp add: Let_def h3)
  ultimately show ?thesis by (simp add: r_def H_def)
qed

text \<open>
  C26 (periodic interrupts). \<^verbatim>\<open>enable_rtc_interrupts\<close> registers the handler for
  vector 72, the remapped IRQ 8, sets the rate selector of register A to 8
  (256 Hz) and the periodic-interrupt bit of register B, keeping their other
  bits, and opens the cascade line of the master controller and line 0 of the
  slave.
\<close>

theorem enable_rtc_interrupts_programs:
  fixes s :: "'z async_scheme"
  assumes ready: "driver_ready s rtc" "nmi_enabled (rtc_drivers s rtc)" "pic_ready s" and "handler \<noteq> 0"
    and d: "d = device s" and a: "a = cmos_val d 0 CMOS_REG_A (trace s)"
    and h1: "h1 = cmos_write 0 CMOS_REG_A ((a AND 0xF0) OR 0x08) (cmos_read d 0 CMOS_REG_A (trace s))"
    and b: "b = cmos_val d 0 CMOS_REG_B h1"
    and h2: "h2 = cmos_write 0 CMOS_REG_B (b OR 0x40) (cmos_read d 0 CMOS_REG_B h1)"
    and h3: "h3 = Out 0x21 (clear_mask_bit 2 (d h2 0x21)) # In 0x21 (d h2 0x21) # h2"
  shows "\<exists>t. enable_rtc_interrupts rtc handler s = Some (0, t) \<and> handler_of t 72 = Some handler
     \<and> trace t = Out 0xA1 (clear_mask_bit 0 (d h3 0xA1)) # In 0xA1 (d h3 0xA1) # h3"
  using enable_rtc_interrupts_run [OF ready d a h1 b h2 h3, of handler] assms(4) by (simp add: handler_of_def)

definition kernel_example :: "device_fn \<Rightarrow> async" where
  "kernel_example d = (rtc_example d)\<lparr>port_registry := (port_registry (rtc_example d))
       (2 := \<lparr>port = 0x20, in_use = True, next_handle = None\<rparr>, 3 := \<lparr>port = 0x21, in_use = True, next_handle = None\<rparr>,
        4 := \<lparr>port = 0xA0, in_use = True, next_handle = None\<rparr>, 5 := \<lparr>port = 0xA1, in_use = True, next_handle = None\<rparr>),
     master_pic_cmd := Some 2, master_pic_data := Some 3, slave_pic_cmd := Some 4, slave_pic_data := Some 5\<rparr>"

lemma kernel_example_ready: "driver_ready (kernel_example d) 0x3000" "nmi_enabled (rtc_drivers (kernel_example d) 0x3000)"
  "pic_ready (kernel_example d)"
  by (simp_all add: kernel_example_def rtc_example_def driver_ready_def pic_ready_def holds_def held_def)

theorem enable_rtc_interrupts_programs_witness:
  "\<exists>t. enable_rtc_interrupts 0x3000 0x170 (kernel_example cmos_clock) = Some (0, t) \<and> handler_of t 72 = Some 0x170
     \<and> outs_to 0x71 (trace t) = [0x28, 0x66] \<and> outs_to 0xA1 (trace t) = [0x60]"
proof -
  have d: "device (kernel_example cmos_clock) = cmos_clock" "trace (kernel_example cmos_clock) = []"
    by (simp_all add: kernel_example_def rtc_example_def)
  show ?thesis
    using enable_rtc_interrupts_programs [OF kernel_example_ready, of "0x170" cmos_clock cmos_clock, OF _ _ refl refl refl refl refl] d
    by (auto simp: cmos_write_def cmos_read_def cmos_select_def cmos_val_def cmos_clock_def clear_mask_bit_def)
qed

text \<open>
  C31 (bounded sleep). \<^verbatim>\<open>sleep_ticks\<close> returns whatever interrupts do to the tick
  counter, as long as each of them returns: it returns at once for zero ticks,
  or with the counter at its target or beyond, or, after a million interrupts,
  with the timeout warning as the last output.
\<close>

theorem sleep_ticks_bounded:
  fixes s :: "'z async_scheme"
  assumes "\<forall>s. uart_drains (device s) \<longrightarrow> (\<exists>t. interrupt s = Some t \<and> uart_drains (device t))" and "uart_drains (device s)"
  shows "\<exists>t. sleep_ticks interrupt ticks s = Some t
     \<and> (ticks = 0 \<and> t = s \<or> system_tick_count s + ticks \<le> system_tick_count t
        \<or> (\<exists>out. sent t = out @ map of_char
             (crlf (''WARNING: Sleep function timeout - tick counter may not be working'' @ [LF]))))"
proof (cases "ticks = 0")
  case True
  then show ?thesis by (simp add: sleep_ticks_def)
next
  case False
  have sti: "system_tick_count (sti s) = system_tick_count s" "device (sti s) = device s" by (simp_all add: sti_def)
  have step: "\<And>s. uart_drains (device s) \<Longrightarrow> \<exists>t. interrupt s = Some t \<and> uart_drains (device t)" using assms(1) by blast
  have start: "uart_drains (device (sti s))" "(0 :: u32) \<le> MAX_LOOP_COUNT" "system_tick_count s = system_tick_count (sti s)"
    using assms(2) sti by simp_all
  from sleep_loop_ends [where P = "\<lambda>s. uart_drains (device s)" and interrupt = interrupt, OF step start] obtain k t where
    t: "sleep_loop interrupt (system_tick_count s + ticks) (system_tick_count s) 0 (sti s) = Some (k, t)"
      "uart_drains (device t)" "k < MAX_LOOP_COUNT \<longrightarrow> system_tick_count s + ticks \<le> system_tick_count t" by blast
  show ?thesis
  proof (cases "k < MAX_LOOP_COUNT")
    case True
    with t False show ?thesis by (auto simp: sleep_ticks_def Let_def leD)
  next
    case late: False
    define warning where "warning = ''WARNING: Sleep function timeout - tick counter may not be working'' @ [LF]"
    have "NUL \<notin> set warning" by (simp add: warning_def)
    from literal_runs [OF this t(2)] obtain u where
      "output_string warning t = Some u" "sent u = sent t @ map of_char (crlf warning)" by blast
    then show ?thesis using t(1) False late unfolding warning_def by (auto simp: sleep_ticks_def Let_def)
  qed
qed

theorem sleep_ticks_bounded_witness:
  "\<exists>t. sleep_ticks (\<lambda>s. Some (s\<lparr>system_tick_count := system_tick_count s + 1\<rparr>)) 5 (async_boot uart_ready) = Some t
     \<and> (5 \<le> system_tick_count t \<or> (\<exists>out. sent t = out @ map of_char
          (crlf (''WARNING: Sleep function timeout - tick counter may not be working'' @ [LF]))))"
  using sleep_ticks_bounded [of "\<lambda>s. Some (s\<lparr>system_tick_count := system_tick_count s + 1\<rparr>)" "async_boot uart_ready" 5]
  by (simp add: async_boot_def async.defs idt_state.defs boot_defs)

text \<open>Close to the end of the counter the target wraps and the sleep is skipped.\<close>

lemma sleep_ticks_wraps:
  assumes "ticks \<noteq> 0" and "system_tick_count s + ticks \<le> system_tick_count s"
  shows "sleep_ticks interrupt ticks s = Some (sti s)"
  using assms by (simp add: sleep_ticks_def Let_def sleep_loop.simps leD)

text \<open>
  Acknowledging without the driver. \<^verbatim>\<open>acknowledge_rtc_interrupt\<close> reads
  register C, which lets the clock raise its next interrupt, and releases the
  ports again, when the CMOS ports are free. While a driver holds the select
  port it touches no port at all, so the interrupt stays pending.
\<close>

theorem acknowledge_needs_free_ports:
  assumes "ports_ok s" and "card (dom (held s)) < 63"
  shows "(CMOS_CONTROL_PORT \<in> ran (held s) \<longrightarrow> trace (acknowledge_rtc_interrupt s) = trace s)
    \<and> (CMOS_CONTROL_PORT \<notin> ran (held s) \<longrightarrow> CMOS_DATA_PORT \<notin> ran (held s) \<longrightarrow>
        trace (acknowledge_rtc_interrupt s) = cmos_read (device s) 0 CMOS_REG_C (trace s)
        \<and> held (acknowledge_rtc_interrupt s) = held s)"
  using acknowledge_refused [OF assms(1)] acknowledge_reads [OF assms(1) _ _ assms(2)] by blast

theorem acknowledge_needs_free_ports_witness:
  "trace (acknowledge_rtc_interrupt (rtc_example cmos_clock)) = []
   \<and> trace (acknowledge_rtc_interrupt (async_boot cmos_clock)) = [In 0x71 0x26, Out 0x70 0x0C]"
proof -
  have held: "held (rtc_example cmos_clock) = [0 \<mapsto> CMOS_CONTROL_PORT, 1 \<mapsto> CMOS_DATA_PORT]" "held (async_boot cmos_clock) = Map.empty"
    by (auto simp: rtc_example_def held_def fun_eq_iff)
  then have "ports_ok (rtc_example cmos_clock)" "ports_ok (async_boot cmos_clock)"
    by (auto simp: ports_ok_def rtc_example_def)
  moreover have "CMOS_CONTROL_PORT \<in> ran (held (rtc_example cmos_clock))" by (auto simp: held ran_def)
  ultimately show ?thesis
    using acknowledge_needs_free_ports [of "rtc_example cmos_clock"] acknowledge_needs_free_ports [of "async_boot cmos_clock"] held
    by (simp add: cmos_read_def cmos_select_def cmos_val_def cmos_clock_def) (simp add: rtc_example_def)
qed

end
