(* ===== verification/Async_Executor.thy ===== *)
theory Async_Executor
  imports Rtc
begin

text \<open>
  The cooperative executor (\<^verbatim>\<open>src/async_executor.c\<close>) with its futures, those of
  \<^verbatim>\<open>rtc.c\<close> included. Tasks, futures and wakers are structures in heap blocks,
  reached through pointers and vtables. This theory has the definitions; the
  lemmas are in \<^verbatim>\<open>Task_Queue\<close>, the properties in \<^verbatim>\<open>Executor_Runs\<close>.
\<close>

section \<open>Structures\<close>

text \<open>
  The layout of the structures of \<^verbatim>\<open>async_executor.h\<close> in memory. A task is
  \<^verbatim>\<open>future\<close> at 0 and \<^verbatim>\<open>next\<close> at 4. A waker is \<^verbatim>\<open>wake\<close> at 0, \<^verbatim>\<open>ref_count\<close> at 4 and
  \<^verbatim>\<open>data\<close> at 8. A future begins with \<^verbatim>\<open>vtable\<close> at 0, the byte \<^verbatim>\<open>is_completed\<close> at 4
  and \<^verbatim>\<open>waker\<close> at 8; a sleep future adds \<^verbatim>\<open>target_tick\<close> at 12, a serial write
  future \<^verbatim>\<open>data\<close>, \<^verbatim>\<open>len\<close> and \<^verbatim>\<open>written\<close> at 12, 16 and 20, a clock future \<^verbatim>\<open>rtc\<close>,
  \<^verbatim>\<open>seconds\<close>, \<^verbatim>\<open>minutes\<close> and \<^verbatim>\<open>hours\<close> at 12, 16, 20 and 24. The executor is
  \<^verbatim>\<open>task_queue\<close> at 0, the byte \<^verbatim>\<open>should_poll\<close> at 4 and \<^verbatim>\<open>task_count\<close> at 8.
\<close>

datatype FutureState = FUTURE_READY | FUTURE_PENDING

definition get_byte :: "ptr \<Rightarrow> 'z mem_scheme \<Rightarrow> u8" where
  "get_byte p s = ram s p"

section \<open>Spawning\<close>

definition executor_init :: "ptr \<Rightarrow> 'z async_scheme \<Rightarrow> 'z async_scheme option" where
  "executor_init executor s =
     (let s = set_field executor 0 0 s;
          s = set_field executor 8 0 s;
          s = set_byte (executor + 4) 1 s
      in output_string (''Async executor initialized'' @ [LF]) s)"

definition waker_create :: "ptr \<Rightarrow> ptr \<Rightarrow> 'z async_scheme \<Rightarrow> (ptr \<times> 'z async_scheme) option" where
  "waker_create wake_func data s =
     do { (waker, s) \<leftarrow> malloc 12 s;
          Some (waker, if waker \<noteq> 0
                       then let s = set_field waker 0 wake_func s;
                                s = set_field waker 8 data s
                            in set_field waker 4 1 s
                       else s) }"

definition executor_waker_wake :: "ptr \<Rightarrow> 'z async_scheme \<Rightarrow> 'z async_scheme" where
  "executor_waker_wake waker s = s\<lparr>g_should_poll := True\<rparr>"

definition executor_spawn :: "linker_map \<Rightarrow> ptr \<Rightarrow> ptr \<Rightarrow> 'z async_scheme \<Rightarrow> 'z async_scheme option" where
  "executor_spawn L executor future s =
     do { (task, s) \<leftarrow> malloc 8 s;
          if task \<noteq> 0 then
            do { let s = set_field task 0 future s;
                 (waker, s) \<leftarrow> waker_create (sym_executor_waker_wake L) 0 s;
                 let s = set_field (field task 0 s) 8 waker s;
                 let s = set_field task 4 (field executor 0 s) s;
                 let s = set_field executor 0 task s;
                 let s = set_field executor 8 (field executor 8 s + 1) s;
                 let s = s\<lparr>g_should_poll := True\<rparr>;
                 output_string (''Task spawned'' @ [LF]) s }
          else Some s }"

section \<open>Futures\<close>

definition sleep_future_poll :: "ptr \<Rightarrow> 'z async_scheme \<Rightarrow> FutureState" where
  "sleep_future_poll future s =
     (let current_tick = monotonic_time_get_ticks_global s in
      if current_tick \<ge> field future 12 s then FUTURE_READY else FUTURE_PENDING)"

definition sleep_future_cleanup :: "ptr \<Rightarrow> 'z async_scheme \<Rightarrow> 'z async_scheme" where
  "sleep_future_cleanup future s = s"

definition sleep_future_create :: "linker_map \<Rightarrow> u32 \<Rightarrow> 'z async_scheme \<Rightarrow> (ptr \<times> 'z async_scheme) option" where
  "sleep_future_create L ticks s =
     do { (sleep_future, s) \<leftarrow> malloc 16 s;
          if sleep_future = 0 then Some (0, s)
          else do { let s = set_field sleep_future 0 (sym_sleep_future_vtable L) s;
                    let s = set_byte (sleep_future + 4) 0 s;
                    let s = set_field sleep_future 8 0 s;
                    let s = set_field sleep_future 12 (monotonic_time_get_ticks_global s + ticks) s;
                    s \<leftarrow> wake_up_list_add (field sleep_future 12 s) (sym_sleep_future_callback L) 0 s;
                    Some (sleep_future, s) } }"

definition async_serial_write_poll :: "ptr \<Rightarrow> 'z async_scheme \<Rightarrow> (FutureState \<times> 'z async_scheme) option" where
  "async_serial_write_poll future s =
     (if field future 20 s < field future 16 s then
        let (empty, s) = serial_is_transmit_empty s in
        if empty \<noteq> 0 then
          do { s \<leftarrow> write_serial (char_of (unat (get_byte (field future 12 s + field future 20 s) s))) s;
               let s = set_field future 20 (field future 20 s + 1) s;
               if field future 20 s < field future 16 s then Some (FUTURE_PENDING, s)
               else Some (FUTURE_READY, s) }
        else Some (FUTURE_PENDING, s)
      else Some (FUTURE_READY, s))"

definition async_serial_write_cleanup :: "ptr \<Rightarrow> 'z async_scheme \<Rightarrow> 'z async_scheme" where
  "async_serial_write_cleanup future s = s"

declare sleep_future_cleanup_def [simp] async_serial_write_cleanup_def [simp]

definition async_serial_write_create ::
    "linker_map \<Rightarrow> ptr \<Rightarrow> u32 \<Rightarrow> 'z async_scheme \<Rightarrow> (ptr \<times> 'z async_scheme) option" where
  "async_serial_write_create L data len s =
     do { (serial_future, s) \<leftarrow> malloc 24 s;
          if serial_future = 0 then Some (0, s)
          else let s = set_field serial_future 0 (sym_async_serial_write_vtable L) s;
                   s = set_byte (serial_future + 4) 0 s;
                   s = set_field serial_future 8 0 s;
                   s = set_field serial_future 12 data s;
                   s = set_field serial_future 16 len s
               in Some (serial_future, set_field serial_future 20 0 s) }"

definition async_rtc_future_poll :: "ptr \<Rightarrow> 'z async_scheme \<Rightarrow> (FutureState \<times> 'z async_scheme) option" where
  "async_rtc_future_poll future s =
     (if field future 12 s \<noteq> 0 \<and> field future 16 s \<noteq> 0 \<and> field future 20 s \<noteq> 0 \<and> field future 24 s \<noteq> 0 then
        do { (result, s) \<leftarrow> read_rtc_time (field future 12 s) (field future 16 s) (field future 20 s) (field future 24 s) s;
             Some (if result \<noteq> -1 then FUTURE_READY else FUTURE_PENDING, s) }
      else Some (FUTURE_PENDING, s))"

definition async_rtc_future_cleanup :: "ptr \<Rightarrow> 'z async_scheme \<Rightarrow> 'z async_scheme option" where
  "async_rtc_future_cleanup future s = free future s"

definition async_rtc_read_time_create ::
    "linker_map \<Rightarrow> ptr \<Rightarrow> ptr \<Rightarrow> ptr \<Rightarrow> ptr \<Rightarrow> 'z async_scheme \<Rightarrow> (ptr \<times> 'z async_scheme) option" where
  "async_rtc_read_time_create L rtc seconds minutes hours s =
     do { (async_rtc, s) \<leftarrow> malloc 28 s;
          if async_rtc = 0 then Some (0, s)
          else let s = set_field async_rtc 0 (sym_async_rtc_future_vtable L) s;
                   s = set_byte (async_rtc + 4) 0 s;
                   s = set_field async_rtc 8 0 s;
                   s = set_field async_rtc 12 rtc s;
                   s = set_field async_rtc 16 seconds s;
                   s = set_field async_rtc 20 minutes s
               in Some (async_rtc, set_field async_rtc 24 hours s) }"

text \<open>
  A call through the vtable of a future: the three tables of the sources, each
  with its \<^verbatim>\<open>poll\<close> and its \<^verbatim>\<open>cleanup\<close>. No table has a null \<^verbatim>\<open>cleanup\<close>, and those of the
  sleep and serial futures do nothing.
\<close>

definition vtable_poll :: "linker_map \<Rightarrow> ptr \<Rightarrow> 'z async_scheme \<Rightarrow> (FutureState \<times> 'z async_scheme) option" where
  "vtable_poll L future s =
     (let vtable = field future 0 s in
      if vtable = sym_sleep_future_vtable L then Some (sleep_future_poll future s, s)
      else if vtable = sym_async_serial_write_vtable L then async_serial_write_poll future s
      else if vtable = sym_async_rtc_future_vtable L then async_rtc_future_poll future s
      else None)"

definition vtable_cleanup :: "linker_map \<Rightarrow> ptr \<Rightarrow> 'z async_scheme \<Rightarrow> 'z async_scheme option" where
  "vtable_cleanup L future s =
     (let vtable = field future 0 s in
      if vtable = sym_sleep_future_vtable L then Some (sleep_future_cleanup future s)
      else if vtable = sym_async_serial_write_vtable L then Some (async_serial_write_cleanup future s)
      else if vtable = sym_async_rtc_future_vtable L then async_rtc_future_cleanup future s
      else None)"

section \<open>The executor\<close>

definition poll_task :: "linker_map \<Rightarrow> ptr \<Rightarrow> 'z async_scheme \<Rightarrow> (bool \<times> 'z async_scheme) option" where
  "poll_task L task s =
     (if get_byte (field task 0 s + 4) s \<noteq> 0 then Some (True, s)
      else do { (state, s) \<leftarrow> vtable_poll L (field task 0 s) s;
                if state = FUTURE_READY then Some (True, set_byte (field task 0 s + 4) 1 s)
                else Some (False, s) })"

definition remove_task :: "linker_map \<Rightarrow> ptr \<Rightarrow> ptr \<Rightarrow> 'z async_scheme \<Rightarrow> 'z async_scheme option" where
  "remove_task L executor to_remove s =
     do { s \<leftarrow> vtable_cleanup L (field to_remove 0 s) s;
          s \<leftarrow> (let waker = field (field to_remove 0 s) 8 s in
               if waker \<noteq> 0 then
                 let ref_count = field waker 4 s;
                     s = set_field waker 4 (ref_count - 1) s
                 in if ref_count = 1 then free (field (field to_remove 0 s) 8 s) s else Some s
               else Some s);
          s \<leftarrow> free (field to_remove 0 s) s;
          s \<leftarrow> free to_remove s;
          Some (set_field executor 8 (field executor 8 s - 1) s) }"

partial_function (option) poll_loop :: "linker_map \<Rightarrow> ptr \<Rightarrow> ptr \<Rightarrow> ptr \<Rightarrow> bool \<Rightarrow> 'z async_scheme
    \<Rightarrow> (bool \<times> 'z async_scheme) option" where
  "poll_loop L executor prev_ptr current has_ready_tasks s =
     (if current \<noteq> 0 then
        Option.bind (poll_task L current s) (\<lambda>(should_remove, s).
          if should_remove then
            let s = set_field prev_ptr 0 (field current 4 s) s;
                to_remove = current;
                current = field current 4 s
            in Option.bind (remove_task L executor to_remove s) (\<lambda>s.
                 poll_loop L executor prev_ptr current has_ready_tasks s)
          else poll_loop L executor (current + 4) (field current 4 s) True s)
      else Some (has_ready_tasks, s))"

text \<open>
  One round of the endless loop of \<^verbatim>\<open>executor_run\<close>: poll every task, then halt
  until the next interrupt or clear the flag. \<open>interrupt\<close> is what the interrupt
  that ends the halt does.
\<close>

definition poll_tasks :: "linker_map \<Rightarrow> ptr \<Rightarrow> 'z async_scheme \<Rightarrow> (bool \<times> 'z async_scheme) option" where
  "poll_tasks L executor s =
     (if field executor 0 s \<noteq> 0 then poll_loop L executor executor (field executor 0 s) False s
      else Some (False, s))"

definition executor_round :: "('z async_scheme \<Rightarrow> 'z async_scheme option) \<Rightarrow> linker_map \<Rightarrow> ptr
    \<Rightarrow> 'z async_scheme \<Rightarrow> 'z async_scheme option" where
  "executor_round interrupt L executor s =
     do { (has_ready_tasks, s) \<leftarrow> poll_tasks L executor s;
          let should_poll_current = g_should_poll s;
          if \<not> has_ready_tasks \<and> \<not> should_poll_current
          then do { s \<leftarrow> interrupt (sti s); Some (cli s) }
          else Some (s\<lparr>g_should_poll := False\<rparr>) }"

text \<open>
  \<^verbatim>\<open>executor_run\<close> never returns: it is the relation that leads from the state at
  its call to the states at the head of its loop, with an interrupt delivered
  between two rounds whenever interrupts are enabled.
\<close>

inductive executor_run :: "('z async_scheme \<Rightarrow> 'z async_scheme option) \<Rightarrow> linker_map \<Rightarrow> ptr
    \<Rightarrow> 'z async_scheme \<Rightarrow> 'z async_scheme \<Rightarrow> bool"
  for interrupt L executor s where
  start: "output_string (''Starting async executor loop'' @ [LF]) s = Some t \<Longrightarrow> executor_run interrupt L executor s t"
| round: "executor_run interrupt L executor s t \<Longrightarrow> executor_round interrupt L executor t = Some u
    \<Longrightarrow> executor_run interrupt L executor s u"
| irq: "executor_run interrupt L executor s t \<Longrightarrow> if_flag t \<Longrightarrow> interrupt t = Some u
    \<Longrightarrow> executor_run interrupt L executor s u"

definition get_global_executor :: "linker_map \<Rightarrow> ptr" where
  "get_global_executor L = sym_g_executor L"

definition async_init :: "linker_map \<Rightarrow> 'z async_scheme \<Rightarrow> 'z async_scheme option" where
  "async_init L s =
     do { s \<leftarrow> executor_init (sym_g_executor L) s;
          s \<leftarrow> monotonic_time_init s;
          output_string (''Async system initialized'' @ [LF]) s }"

definition async_serial_interrupt_handler :: "'z async_scheme \<Rightarrow> 'z async_scheme" where
  "async_serial_interrupt_handler s = executor_wake_up s"

definition sleep_seconds_async :: "linker_map \<Rightarrow> u32 \<Rightarrow> 'z async_scheme \<Rightarrow> 'z async_scheme option" where
  "sleep_seconds_async L seconds s =
     (let ticks = seconds * 256 in
      do { (sleep_future, s) \<leftarrow> sleep_future_create L ticks s;
           if sleep_future \<noteq> 0 then executor_spawn L (get_global_executor L) sleep_future s
           else Some s })"

end
