(* ===== verification/Task_Queue.thy ===== *)
theory Task_Queue
  imports Async_Executor
begin

text \<open>
  The task queue in memory: what a task, its future and its waker look like, what
  polling and removing a task write, and from there what a pass over the whole
  queue does, and what spawning a task does.
\<close>

section \<open>Tasks in memory\<close>

text \<open>
  A task: the address of the task, of its future, the size of the future's
  block (16 for a sleep, 24 for a serial write) and the address of its waker, 0
  when there was no memory for one.
\<close>

type_synonym task = "ptr \<times> ptr \<times> nat \<times> ptr"

fun task_blocks :: "task \<Rightarrow> block list" where
  "task_blocks (a, f, n, w) = (if w = 0 then [] else [(w, 12)]) @ [(f, n), (a, 8)]"

definition blocks_of :: "task list \<Rightarrow> block list" where
  "blocks_of ts = concat (map task_blocks ts)"

lemma blocks_of_simps [simp]: "blocks_of [] = []" "blocks_of (t # ts) = task_blocks t @ blocks_of ts"
  by (simp_all add: blocks_of_def)

fun task_in :: "linker_map \<Rightarrow> 'z async_scheme \<Rightarrow> task \<Rightarrow> bool" where
  "task_in L s (a, f, n, w) \<longleftrightarrow> field a 0 s = f \<and> get_byte (f + 4) s = 0 \<and> field f 8 s = w \<and> (w \<noteq> 0 \<longrightarrow> field w 4 s = 1)
     \<and> (n = 16 \<and> field f 0 s = sym_sleep_future_vtable L \<or> n = 24 \<and> field f 0 s = sym_async_serial_write_vtable L)"

fun task_path :: "linker_map \<Rightarrow> 'z async_scheme \<Rightarrow> ptr \<Rightarrow> task list \<Rightarrow> bool" where
  "task_path L s p [] \<longleftrightarrow> p = 0"
| "task_path L s p (tk # ts) \<longleftrightarrow> p = fst tk \<and> task_in L s tk \<and> task_path L s (field (fst tk) 4 s) ts"

text \<open>Distinct tables have distinct addresses.\<close>

definition vtables_distinct :: "linker_map \<Rightarrow> bool" where
  "vtables_distinct L \<longleftrightarrow> distinct [sym_sleep_future_vtable L, sym_async_serial_write_vtable L, sym_async_rtc_future_vtable L]"

definition same_but_run :: "'z async_scheme \<Rightarrow> 'z async_scheme \<Rightarrow> bool" where
  "same_but_run s t \<longleftrightarrow> t = s\<lparr>ram := ram t, first_free := first_free t, trace := trace t\<rparr>
     \<and> other_io (trace t) = other_io (trace s)"

lemma same_but_run_refl [simp]: "same_but_run s s"
  by (simp add: same_but_run_def)

lemma same_but_run_trans: "same_but_run s t \<Longrightarrow> same_but_run t u \<Longrightarrow> same_but_run s u"
  by (cases s; cases t; cases u) (simp add: same_but_run_def)

lemma same_but_heap_run: "same_but_heap s t \<Longrightarrow> same_but_run s t"
  by (cases s; cases t) (simp add: same_but_heap_def same_but_run_def)

lemma same_but_serial_run: "same_but_serial s t \<Longrightarrow> same_but_run s t"
  by (cases s; cases t) (simp add: same_but_serial_def same_but_run_def)

lemma same_but_serial_ram:
  "same_but_serial s t \<Longrightarrow> ram (t :: 'z async_scheme) = ram s \<and> first_free t = first_free s \<and> device t = device s"
  by (cases s; cases t) (simp add: same_but_serial_def)

lemma same_but_run_simps:
  "same_but_run s t \<Longrightarrow> device t = device s \<and> monotonic_time t = monotonic_time s \<and> g_should_poll t = g_should_poll s"
  by (cases s; cases t) (simp add: same_but_run_def)

text \<open>What a poll may write: the flag of the future and, for a serial write, its position.\<close>

definition poll_area :: "ptr \<Rightarrow> nat \<Rightarrow> nat set" where
  "poll_area f n = {unat f + 4} \<union> (if n = 24 then {unat f + 20..<unat f + 24} else {})"

lemma poll_serial_runs:
  fixes s :: "'z async_scheme"
  assumes "uart_drains (device s)" and top: "unat f + 24 \<le> 2 ^ 32"
  shows "\<exists>r t. async_serial_write_poll f s = Some (r, t) \<and> same_outside {unat f + 20..<unat f + 24} (ram s) (ram t)
     \<and> first_free t = first_free s \<and> same_but_run s t"
proof -
  obtain v s1 where e: "serial_is_transmit_empty s = (v, s1)" by fastforce
  then have s1: "same_but_serial s s1"
    by (auto simp: serial_is_transmit_empty_def in_b_def same_but_serial_def Let_def)
  note r1 = same_but_serial_ram [OF s1]
  obtain t where t: "write_serial (char_of (unat (get_byte (field f 12 s1 + field f 20 s1) s1))) s1 = Some t" "same_but_serial s1 t"
    using write_serial_returns [of s1] assms(1) r1 by metis
  note rt = same_but_serial_ram [OF t(2)]
  let ?u = "set_field f 20 (field f 20 t + 1) t"
  have out: "same_outside {unat f + 20..<unat f + 24} (ram s) (ram ?u)"
  proof -
    have "bytes_of f 20 = {unat f + 20..<unat f + 24}" by (auto simp: bytes_of_def)
    then show ?thesis using set_field_outside [of f 20 t] top rt r1 by simp
  qed
  have fr: "same_but_run s ?u"
    using same_but_serial_run [OF s1] same_but_serial_run [OF t(2)] same_but_heap_run [OF set_field_frame] same_but_run_trans by metis
  have ff: "first_free ?u = first_free s" using rt r1 by (simp add: set_field_def)
  show ?thesis
  proof (cases "field f 20 s < field f 16 s \<and> v \<noteq> 0")
    case True
    then show ?thesis using e t(1) out fr ff by (auto simp: async_serial_write_poll_def Let_def)
  next
    case False
    then show ?thesis
      using e s1 same_but_serial_run [OF s1] r1 by (auto simp: async_serial_write_poll_def)
  qed
qed

lemma get_byte_same_outside:
  "same_outside A (ram s) (ram t) \<Longrightarrow> unat p \<notin> A \<Longrightarrow> get_byte p t = get_byte p s"
  by (simp add: same_outside_def get_byte_def)

lemma task_bounds:
  assumes "in_use_blocks s segs (task_blocks (a, f, n, w) @ bs)" and "n = 16 \<or> n = 24"
  shows "5 \<le> unat a" "unat a + 8 \<le> 2 ^ 32" "5 \<le> unat f" "unat f + n \<le> 2 ^ 32" "unat (f + 4) = unat f + 4"
    and "w \<noteq> 0 \<Longrightarrow> 5 \<le> unat w \<and> unat w + 12 \<le> 2 ^ 32"
proof -
  have "live segs (ram s) (a, 8)" "live segs (ram s) (f, n)" "w \<noteq> 0 \<Longrightarrow> live segs (ram s) (w, 12)"
    using assms(1) by (auto simp: in_use_blocks_def)
  then show b: "5 \<le> unat a" "unat a + 8 \<le> 2 ^ 32" "5 \<le> unat f" "unat f + n \<le> 2 ^ 32"
    "w \<noteq> 0 \<Longrightarrow> 5 \<le> unat w \<and> unat w + 12 \<le> 2 ^ 32" by (simp_all add: live_def)
  have "unat f + 4 < 2 ^ 32" using b(4) assms(2) by auto
  then show "unat (f + 4) = unat f + 4" by (simp add: unat_add_no_wrap)
qed

text \<open>
  Polling a task returns, writes at most its future's flag and position, and
  keeps the future's table and waker. A sleep is done exactly when its tick has
  come; a task that is not removed has its flag still clear.
\<close>

lemma poll_task_runs:
  fixes s :: "'z async_scheme"
  assumes use: "in_use_blocks s segs (task_blocks (a, f, n, w) @ bs)" and tk: "task_in L s (a, f, n, w)"
    and L: "vtables_distinct L" and uart: "uart_drains (device s)"
  shows "\<exists>r t. poll_task L a s = Some (r, t) \<and> same_outside (poll_area f n) (ram s) (ram t)
     \<and> first_free t = first_free s \<and> same_but_run s t \<and> (\<not> r \<longrightarrow> get_byte (f + 4) t = 0)
     \<and> (n = 16 \<longrightarrow> (r \<longleftrightarrow> field f 12 s \<le> monotonic_time_get_ticks_global s))"
proof -
  have n: "n = 16 \<or> n = 24" using tk by auto
  note bd = task_bounds [OF use n]
  have f: "field a 0 s = f" "get_byte (f + 4) s = 0" using tk by simp_all
  have flag: "same_outside (poll_area f n) (ram u) (ram (set_byte (f + 4) 1 u))" for u :: "'z async_scheme"
    using bd(5) by (auto simp: same_outside_def set_byte_def poll_area_def)
  have byte_run: "same_but_run u (set_byte p v u)" for u :: "'z async_scheme" and p v
    by (rule same_but_heap_run [OF set_byte_frame])
  show ?thesis
  proof (cases "n = 16")
    case True
    then have "field f 0 s = sym_sleep_future_vtable L" using tk by auto
    then have "poll_task L a s = Some (if field f 12 s \<le> monotonic_time_get_ticks_global s
        then (True, set_byte (f + 4) 1 s) else (False, s))"
      using f by (simp add: poll_task_def vtable_poll_def sleep_future_poll_def Let_def)
    with f(2) True flag [of s] byte_run show ?thesis by (auto simp: set_byte_def)
  next
    case False
    then have n24: "n = 24" using n by simp
    then have "field f 0 s = sym_async_serial_write_vtable L" "sym_async_serial_write_vtable L \<noteq> sym_sleep_future_vtable L"
      using tk L by (auto simp: vtables_distinct_def)
    then have vp: "vtable_poll L f s = async_serial_write_poll f s" by (simp add: vtable_poll_def Let_def)
    have top: "unat f + 24 \<le> 2 ^ 32" using bd(4) n24 by simp
    from poll_serial_runs [OF uart top] obtain r t where
      t: "async_serial_write_poll f s = Some (r, t)" "same_outside {unat f + 20..<unat f + 24} (ram s) (ram t)"
        "first_free t = first_free s" "same_but_run s t" by blast
    have "{unat f + 20..<unat f + 24} \<subseteq> extent (f, n)" "bytes_of a 0 \<subseteq> extent (a, 8)"
      using n24 by (auto simp: extent_def bytes_of_def)
    moreover have "extent (f, n) \<inter> extent (a, 8) = {}" using use by (auto simp: in_use_blocks_def pairwise_disjoint_append)
    ultimately have "field a 0 t = f"
      using field_same_outside [OF t(2), of a 0] bd(2) f(1) by (simp, blast)
    moreover have "get_byte (f + 4) t = 0" using get_byte_same_outside [OF t(2), of "f + 4"] f(2) bd(5) by simp
    moreover have out: "same_outside (poll_area f n) (ram s) (ram t)"
      by (rule same_outside_mono [OF t(2)]) (auto simp: poll_area_def n24)
    ultimately show ?thesis
      using f t vp n24 same_outside_trans [OF out flag [of t]] same_but_run_trans [OF t(4) byte_run]
      by (auto simp: poll_task_def set_byte_def)
  qed
qed

text \<open>
  The executor is a static object apart from every block; \<open>exec_apart\<close> says so.
\<close>

definition exec_apart :: "ptr \<Rightarrow> seg list \<Rightarrow> block list \<Rightarrow> bool" where
  "exec_apart E segs bs \<longleftrightarrow> E \<noteq> 0 \<and> unat E + 12 \<le> 2 ^ 32
     \<and> bytes_at E 12 \<inter> headers segs = {} \<and> bytes_at E 12 \<inter> area bs = {}"

lemma exec_bytes: "off = 0 \<or> off = 8 \<Longrightarrow> bytes_of E off \<subseteq> bytes_at E 12"
  by (auto simp: bytes_of_def bytes_at_def)

text \<open>
  Removing a task drops the only reference to its waker, then frees the waker, the
  future and the task, and lowers the count.
\<close>

abbreviation waker_dropped :: "ptr \<Rightarrow> 'z async_scheme \<Rightarrow> 'z async_scheme" where
  "waker_dropped w s \<equiv> if w \<noteq> 0 then set_field w 4 0 s else s"

lemma waker_dropped_in_use:
  fixes s :: "'z async_scheme"
  assumes use: "in_use_blocks s segs (task_blocks (a, f, n, w) @ bs)" and n: "n = 16 \<or> n = 24"
  shows "in_use_blocks (waker_dropped w s) segs (task_blocks (a, f, n, w) @ bs)"
    and "same_outside (area (task_blocks (a, f, n, w))) (ram s) (ram (waker_dropped w s))"
    and "field a 0 (waker_dropped w s) = field a 0 s" and "field f 8 (waker_dropped w s) = field f 8 s"
proof -
  have "in_use_blocks (set_field w 4 0 s) segs (task_blocks (a, f, n, w) @ bs)
      \<and> same_outside (area (task_blocks (a, f, n, w))) (ram s) (ram (set_field w 4 0 s))
      \<and> field a 0 (set_field w 4 0 s) = field a 0 s \<and> field f 8 (set_field w 4 0 s) = field f 8 s" if w: "w \<noteq> 0"
  proof -
    have wb: "(w, 12) \<in> set (task_blocks (a, f, n, w) @ bs)" using w by simp
    have dj: "extent (w, 12) \<inter> extent (f, n) = {}" "extent (w, 12) \<inter> extent (a, 8) = {}" using use w by (auto simp: in_use_blocks_def)
    have sub: "bytes_of w 4 \<subseteq> area (task_blocks (a, f, n, w))" using bytes_in_extent [of 4 12 w] w by auto
    have "same_outside (area (task_blocks (a, f, n, w))) (ram s) (ram (set_field w 4 0 s))"
      by (rule same_outside_mono [OF set_field_outside sub]) (use task_bounds(6) [OF use n w] in simp)
    moreover have "field a 0 (set_field w 4 0 s) = field a 0 s" by (rule field_set_disjoint [OF use wb _ dj(2)]) simp_all
    moreover have "field f 8 (set_field w 4 0 s) = field f 8 s" by (rule field_set_disjoint [OF use wb _ dj(1)]) (use n in auto)
    moreover have "in_use_blocks (set_field w 4 0 s) segs (task_blocks (a, f, n, w) @ bs)" by (rule set_field_in_use [OF use wb]) simp
    ultimately show ?thesis by blast
  qed
  then show "in_use_blocks (waker_dropped w s) segs (task_blocks (a, f, n, w) @ bs)"
    "same_outside (area (task_blocks (a, f, n, w))) (ram s) (ram (waker_dropped w s))"
    "field a 0 (waker_dropped w s) = field a 0 s" "field f 8 (waker_dropped w s) = field f 8 s"
    using use by (cases "w = 0"; simp)+
qed

lemma remove_task_frees:
  fixes s :: "'z async_scheme"
  assumes use: "in_use_blocks s segs (task_blocks (a, f, n, w) @ bs)" and n: "n = 16 \<or> n = 24"
    and f: "field a 0 s = f" and w: "field f 8 s = w" "w \<noteq> 0 \<Longrightarrow> field w 4 s = 1"
    and vt: "field f 0 s = sym_sleep_future_vtable L \<or> field f 0 s = sym_async_serial_write_vtable L"
  shows "remove_task L E a s = Option.bind (free_all (task_blocks (a, f, n, w)) (waker_dropped w s))
     (\<lambda>s. Some (set_field E 8 (field E 8 s - 1) s))"
proof -
  have cl: "vtable_cleanup L f s = Some s" using vt by (auto simp: vtable_cleanup_def Let_def)
  note dr = waker_dropped_in_use [OF use n]
  show ?thesis
  proof (cases "w = 0")
    case True
    then show ?thesis using f w cl by (simp add: remove_task_def)
  next
    case False
    with dr(1) have "in_use_blocks (set_field w 4 0 s) segs ((w, 12) # (f, n) # (a, 8) # bs)" by simp
    from free_fields [OF this] obtain u where "free w (set_field w 4 0 s) = Some u" "field a 0 u = field a 0 (set_field w 4 0 s)" by fastforce
    then show ?thesis using False f w cl dr(3,4) by (simp add: remove_task_def Let_def)
  qed
qed

lemma remove_task_runs:
  fixes s :: "'z async_scheme"
  assumes use: "in_use_blocks s segs (task_blocks (a, f, n, w) @ bs)" and n: "n = 16 \<or> n = 24"
    and f: "field a 0 s = f" and w: "field f 8 s = w" "w \<noteq> 0 \<Longrightarrow> field w 4 s = 1"
    and vt: "field f 0 s = sym_sleep_future_vtable L \<or> field f 0 s = sym_async_serial_write_vtable L"
    and E: "exec_apart E segs (task_blocks (a, f, n, w) @ bs)"
  shows "\<exists>t segs'. remove_task L E a s = Some t \<and> in_use_blocks t segs' bs \<and> same_but_heap s t
     \<and> headers segs' \<subseteq> area (task_blocks (a, f, n, w)) \<union> headers segs
     \<and> same_outside (area (task_blocks (a, f, n, w)) \<union> headers segs \<union> bytes_of E 8) (ram s) (ram t)
     \<and> field E 8 t = field E 8 s - 1"
proof -
  let ?X = "area (task_blocks (a, f, n, w))" and ?s = "waker_dropped w s"
  note dr = waker_dropped_in_use [OF use n]
  from free_all_outside [OF dr(1)] obtain t segs' where t: "free_all (task_blocks (a, f, n, w)) ?s = Some t"
    "in_use_blocks t segs' bs" "same_but_heap ?s t" "headers segs' \<subseteq> ?X \<union> headers segs"
    "same_outside (?X \<union> headers segs) (ram ?s) (ram t)" unfolding area_def by blast
  let ?u = "set_field E 8 (field E 8 t - 1) t"
  have out: "same_outside (?X \<union> headers segs) (ram s) (ram t)"
    by (rule same_outside_trans [OF same_outside_mono [OF dr(2)] t(5)]) blast
  have Eb: "bytes_of E 8 \<inter> (?X \<union> headers segs) = {}" "unat E + unat (8 :: u32) + 4 \<le> 2 ^ 32" "bytes_of E 8 \<inter> area bs = {}"
    using E exec_bytes [of 8 E] unfolding exec_apart_def area_simps by (blast, simp, blast)
  have "field E 8 t = field E 8 s" by (rule field_same_outside [OF out Eb(1,2)])
  moreover have outu: "same_outside (bytes_of E 8) (ram t) (ram ?u)" by (rule set_field_outside [OF Eb(2)])
  moreover have "in_use_blocks ?u segs' bs" by (rule set_field_static [OF t(2) Eb(2,3)]) (use Eb(1) t(4) in blast)
  moreover have "same_but_heap s ?u"
  proof -
    have "same_but_heap s ?s" by (simp add: set_field_frame)
    with t(3) set_field_frame show ?thesis by (blast intro: same_but_heap_trans)
  qed
  moreover have "same_outside (?X \<union> headers segs \<union> bytes_of E 8) (ram s) (ram ?u)"
    by (rule same_outside_trans [OF same_outside_mono [OF out] same_outside_mono [OF outu]]) blast+
  ultimately show ?thesis using remove_task_frees [OF use n f w vt] t(1,4) by (intro exI [of _ ?u] exI [of _ segs']) simp
qed

lemma task_in_same_outside:
  assumes use: "in_use_blocks s segs (task_blocks tk @ bs)" and tk: "task_in L s tk"
    and out: "same_outside A (ram s) (ram t)" and dj: "A \<inter> area (task_blocks tk) = {}"
  shows "task_in L t tk" and "field (fst tk) 4 t = field (fst tk) 4 s"
    and "field (fst (snd tk)) 12 t = field (fst (snd tk)) 12 s"
proof -
  obtain a f n w where tkd: "tk = (a, f, n, w)" by (metis prod_cases4)
  have n: "n = 16 \<or> n = 24" using tk tkd by auto
  note bd = task_bounds [OF use [unfolded tkd] n]
  have keep: "field q off t = field q off s" if "(q, m) \<in> set (task_blocks tk)" "unat off + 4 \<le> m" "unat q + m \<le> 2 ^ 32" for q m off
  proof (rule field_same_outside [OF out])
    have "extent (q, m) \<subseteq> area (task_blocks tk)" using that(1) by (auto simp: area_def)
    with bytes_in_extent [OF that(2), of q] dj show "bytes_of q off \<inter> A = {}" by blast
    show "unat q + unat off + 4 \<le> 2 ^ 32" using that(2,3) by simp
  qed
  have a: "field a off t = field a off s" if "unat off + 4 \<le> 8" for off
    by (rule keep [of a 8]) (use bd that tkd in simp_all)
  have f: "field f off t = field f off s" if "unat off + 4 \<le> 16" for off
    by (rule keep [of f n]) (use bd n that tkd in auto)
  have w: "field w 4 t = field w 4 s" if "w \<noteq> 0"
    by (rule keep [of w 12]) (use bd(6) [OF that] that tkd in simp_all)
  have "unat f + 4 \<in> extent (f, n)" using n by (auto simp: extent_def)
  then have "unat (f + 4) \<notin> A" using dj bd(5) tkd by auto
  then have b: "get_byte (f + 4) t = get_byte (f + 4) s" by (rule get_byte_same_outside [OF out])
  show "task_in L t tk" using tk a [of 0] f [of 0] f [of 8] w b tkd by auto
  show "field (fst tk) 4 t = field (fst tk) 4 s" "field (fst (snd tk)) 12 t = field (fst (snd tk)) 12 s"
    using a [of 4] f [of 12] tkd by simp_all
qed

lemma task_path_same_outside:
  assumes "in_use_blocks s segs (blocks_of ts @ bs)" and "task_path L s p ts"
    and "same_outside A (ram s) (ram t)" and "A \<inter> area (blocks_of ts) = {}"
  shows "task_path L t p ts" and "\<forall>tk \<in> set ts. field (fst (snd tk)) 12 t = field (fst (snd tk)) 12 s"
proof -
  have "task_path L t p ts \<and> (\<forall>tk \<in> set ts. field (fst (snd tk)) 12 t = field (fst (snd tk)) 12 s)"
    using assms
  proof (induction ts arbitrary: p bs)
    case (Cons tk ts)
    have u: "in_use_blocks s segs (task_blocks tk @ (blocks_of ts @ bs))" using Cons.prems(1) by simp
    have dj: "A \<inter> area (task_blocks tk) = {}" "A \<inter> area (blocks_of ts) = {}" using Cons.prems(4) by auto
    have tk: "task_in L s tk" using Cons.prems(2) by simp
    note one = task_in_same_outside [OF u tk Cons.prems(3) dj(1)]
    have "task_path L t (field (fst tk) 4 s) ts \<and> (\<forall>tk \<in> set ts. field (fst (snd tk)) 12 t = field (fst (snd tk)) 12 s)"
      by (rule Cons.IH [OF in_use_subset [OF u] _ Cons.prems(3) dj(2)]) (use Cons.prems(2) in simp)
    then show ?case using Cons.prems(2) one by simp
  qed simp
  then show "task_path L t p ts" "\<forall>tk \<in> set ts. field (fst (snd tk)) 12 t = field (fst (snd tk)) 12 s" by blast+
qed

text \<open>
  The state at the head of the loop over the tasks: the tasks \<open>ts\<close> are still to
  be polled, \<open>bs\<close> are the other blocks in use (those of tasks already passed
  among them), and \<open>pb + poff\<close> is the pointer that leads to the first of \<open>ts\<close>.
\<close>

definition pass_inv :: "linker_map \<Rightarrow> ptr \<Rightarrow> 'z async_scheme \<Rightarrow> seg list \<Rightarrow> task list \<Rightarrow> block list \<Rightarrow> ptr \<Rightarrow> u32 \<Rightarrow> ptr \<Rightarrow> bool" where
  "pass_inv L E s segs ts bs pb poff cur \<longleftrightarrow>
     in_use_blocks s segs (blocks_of ts @ bs) \<and> exec_apart E segs (blocks_of ts @ bs)
     \<and> task_path L s cur ts \<and> field pb poff s = cur \<and> unat pb + unat poff + 4 \<le> 2 ^ 32
     \<and> bytes_of pb poff \<inter> (headers segs \<union> area (blocks_of ts) \<union> bytes_of E 8 \<union> bytes_of (monotonic_time s) 0) = {}
     \<and> (\<forall>(q, n) \<in> set bs. bytes_of pb poff \<inter> {unat q - 4..<unat q} = {})
     \<and> (monotonic_time s, 4) \<in> set bs \<and> uart_drains (device s)"

text \<open>The clock does not move when only other bytes are written.\<close>

lemma clock_same_outside:
  assumes "in_use_blocks s segs bs" and "(monotonic_time s, 4) \<in> set bs" and "same_outside A (ram s) (ram t)"
    and "A \<inter> bytes_of (monotonic_time s) 0 = {}" and "monotonic_time t = monotonic_time s"
  shows "monotonic_time_get_ticks_global t = monotonic_time_get_ticks_global s"
proof -
  have "unat (monotonic_time s) + unat (0 :: u32) + 4 \<le> 2 ^ 32" by (rule in_use_bounds [OF assms(1,2)]) simp
  then have "field (monotonic_time s) 0 t = field (monotonic_time s) 0 s"
    using assms(4) by (intro field_same_outside [OF assms(3)]) blast+
  then show ?thesis using assms(5) by (simp add: monotonic_time_get_ticks_global_def)
qed

lemma poll_area_extent: "n = 16 \<or> n = 24 \<Longrightarrow> poll_area f n \<subseteq> extent (f, n)"
  by (auto simp: poll_area_def extent_def)

lemma poll_area_header: "poll_area f n \<inter> {unat f - 4..<unat f} = {}"
  by (auto simp: poll_area_def)

text \<open>A poll, and a write to the slot, leave all blocks in use.\<close>

lemma in_use_after_poll:
  assumes use: "in_use_blocks s segs (task_blocks (a, f, n, w) @ bs)" and n: "n = 16 \<or> n = 24"
    and out: "same_outside (poll_area f n \<union> A) (ram s) (ram t)" and ff: "first_free t = first_free s"
    and A: "A \<inter> headers segs = {}" "\<forall>(q, m) \<in> set (task_blocks (a, f, n, w) @ bs). A \<inter> {unat q - 4..<unat q} = {}"
  shows "in_use_blocks t segs (task_blocks (a, f, n, w) @ bs)"
proof (rule in_use_same_outside [OF use out ff])
  have fin: "(f, n) \<in> set (task_blocks (a, f, n, w) @ bs)" by simp
  have "live segs (ram s) (f, n)" using use fin by (simp add: in_use_blocks_def)
  from live_headers [OF this] have hf: "extent (f, n) \<inter> headers segs = {}" .
  then show "(poll_area f n \<union> A) \<inter> headers segs = {}" using poll_area_extent [OF n, of f] A(1) by blast
  fix q m assume q: "(q, m) \<in> set (task_blocks (a, f, n, w) @ bs)"
  have "poll_area f n \<inter> {unat q - 4..<unat q} = {}"
  proof (cases "(q, m) = (f, n)")
    case True
    then show ?thesis using poll_area_header by simp
  next
    case False
    with use q fin have "extent (q, m) \<inter> extent (f, n) = {}"
      unfolding in_use_blocks_def by (blast dest: pairwise_disjointD)
    moreover have "{unat q - 4..<unat q} \<subseteq> extent (q, m)" by (auto simp: extent_def)
    ultimately show ?thesis using poll_area_extent [OF n, of f] by blast
  qed
  moreover have "A \<inter> {unat q - 4..<unat q} = {}" using A(2) q by blast
  ultimately show "(poll_area f n \<union> A) \<inter> {unat q - 4..<unat q} = {}" by blast
qed

text \<open>What a poll of a task, and a write elsewhere, leave of the task's own fields.\<close>

lemma task_own_apart:
  assumes "in_use_blocks s segs (task_blocks (a, f, n, w) @ bs)"
  shows "extent (f, n) \<inter> extent (a, 8) = {}" "w \<noteq> 0 \<Longrightarrow> extent (f, n) \<inter> extent (w, 12) = {}"
  using assms by (auto simp: in_use_blocks_def pairwise_disjoint_append)

lemma polled_fields:
  assumes use: "in_use_blocks s segs (task_blocks (a, f, n, w) @ bs)" and n: "n = 16 \<or> n = 24"
    and out: "same_outside (poll_area f n \<union> S) (ram s) (ram t)" and S: "S \<inter> area (task_blocks (a, f, n, w)) = {}"
  shows "unat off + 4 \<le> 8 \<Longrightarrow> field a off t = field a off s" and "off' = 0 \<or> off' = 8 \<Longrightarrow> field f off' t = field f off' s"
    and "w \<noteq> 0 \<Longrightarrow> field w 4 t = field w 4 s"
proof -
  note bd = task_bounds [OF use n] and own = task_own_apart [OF use]
  have PX: "poll_area f n \<subseteq> extent (f, n)" by (rule poll_area_extent [OF n])
  have ef: "extent (f, n) \<inter> S = {}" "extent (a, 8) \<inter> S = {}" "w \<noteq> 0 \<Longrightarrow> extent (w, 12) \<inter> S = {}" using S by auto
  show "field a off t = field a off s" if "unat off + 4 \<le> 8"
    by (rule field_block_kept [OF out _ that bd(2)]) (use PX own(1) ef(2) in blast)
  show "field f off' t = field f off' s" if "off' = 0 \<or> off' = 8"
  proof (rule field_same_outside [OF out])
    have "bytes_of f off' \<subseteq> extent (f, n)" by (rule bytes_in_extent) (use that n in auto)
    moreover have "bytes_of f off' \<inter> poll_area f n = {}" using that by (auto simp: bytes_of_def poll_area_def)
    ultimately show "bytes_of f off' \<inter> (poll_area f n \<union> S) = {}" using ef(1) by blast
  qed (use bd that n in auto)
  show "field w 4 t = field w 4 s" if "w \<noteq> 0"
    by (rule field_block_kept [OF out _ _ conjunct2 [OF bd(6) [OF that]]]) (use PX own(2) [OF that] ef(3) [OF that] in auto)
qed

text \<open>The slot is written after the poll: all blocks are still in use.\<close>

lemma pass_slot_written:
  fixes s :: "'z async_scheme" and v :: u32
  assumes inv: "pass_inv L E s segs ((a, f, n, w) # ts) bs pb poff cur"
    and t: "same_outside (poll_area f n) (ram s) (ram t)" "first_free t = first_free s"
  defines "s1 \<equiv> set_field pb poff v t" and "S \<equiv> bytes_of pb poff"
  shows "same_outside (poll_area f n \<union> S) (ram s) (ram s1)" and "in_use_blocks s1 segs (task_blocks (a, f, n, w) @ blocks_of ts @ bs)"
proof -
  let ?B = "task_blocks (a, f, n, w)"
  from inv have use: "in_use_blocks s segs (?B @ blocks_of ts @ bs)" and tk: "task_in L s (a, f, n, w)"
    and top: "unat pb + unat poff + 4 \<le> 2 ^ 32" and S: "S \<inter> headers segs = {}" "S \<inter> area (?B @ blocks_of ts) = {}"
      "\<forall>(q, n) \<in> set bs. S \<inter> {unat q - 4..<unat q} = {}"
    unfolding pass_inv_def S_def by auto
  have outS: "same_outside S (ram t) (ram s1)" unfolding s1_def S_def by (rule set_field_outside [OF top])
  show out1: "same_outside (poll_area f n \<union> S) (ram s) (ram s1)"
    by (rule same_outside_trans [OF same_outside_mono [OF t(1)] same_outside_mono [OF outS]]) blast+
  show "in_use_blocks s1 segs (?B @ blocks_of ts @ bs)"
  proof (rule in_use_after_poll [OF use _ out1 _ S(1)])
    have "S \<inter> {unat q - 4..<unat q} = {}" if "(q, m) \<in> set (?B @ blocks_of ts)" for q m
      using block_header_area [OF that] S(2) by blast
    with S(3) show "\<forall>(q, m) \<in> set (?B @ blocks_of ts @ bs). S \<inter> {unat q - 4..<unat q} = {}" unfolding set_append by blast
  qed (use tk t(2) in \<open>auto simp: s1_def set_field_def\<close>)
qed

lemma pass_remove:
  fixes s :: "'z async_scheme"
  assumes inv: "pass_inv L E s segs ((a, f, n, w) # ts) bs pb poff cur"
    and poll: "poll_task L a s = Some (True, t)" "same_outside (poll_area f n) (ram s) (ram t)"
      "first_free t = first_free s" "same_but_run s t"
  defines "X \<equiv> area (task_blocks (a, f, n, w))" and "S \<equiv> bytes_of pb poff"
  shows "\<exists>u segs'. poll_loop L E (pb + poff) cur hr s = poll_loop L E (pb + poff) (field a 4 s) hr u
     \<and> pass_inv L E u segs' ts bs pb poff (field a 4 s) \<and> headers segs' \<subseteq> X \<union> headers segs
     \<and> same_outside (X \<union> headers segs \<union> S \<union> bytes_of E 8) (ram s) (ram u)
     \<and> field E 8 u = field E 8 s - 1 \<and> same_but_run s u"
proof -
  let ?B = "task_blocks (a, f, n, w)" and ?A = "X \<union> headers segs \<union> S \<union> bytes_of E 8"
  from inv have use: "in_use_blocks s segs (?B @ blocks_of ts @ bs)" and E: "exec_apart E segs (?B @ blocks_of ts @ bs)"
    and tk: "task_in L s (a, f, n, w)" and path: "task_path L s (field a 4 s) ts" and cur: "cur = a"
    and top: "unat pb + unat poff + 4 \<le> 2 ^ 32" and clk: "(monotonic_time s, 4) \<in> set bs" and uart: "uart_drains (device s)"
    and S: "S \<inter> headers segs = {}" "S \<inter> X = {}" "S \<inter> area (blocks_of ts) = {}" "S \<inter> bytes_of E 8 = {}"
      "S \<inter> bytes_of (monotonic_time s) 0 = {}" "\<forall>(q, n) \<in> set bs. S \<inter> {unat q - 4..<unat q} = {}"
    unfolding pass_inv_def X_def S_def by auto
  have n: "n = 16 \<or> n = 24" using tk by auto
  define s1 where "s1 = set_field pb poff (field a 4 t) t"
  note w1 = pass_slot_written [OF inv poll(2,3), where v = "field a 4 t", folded s1_def S_def]
  have PX: "poll_area f n \<subseteq> X" using poll_area_extent [OF n, of f] by (auto simp: X_def)
  note f1 = polled_fields [OF use n w1(1) S(2) [unfolded X_def]]
  have t1: "field a 4 t = field a 4 s" by (rule polled_fields(1) [OF use n, of "{}"]) (use poll(2) in simp_all)
  from remove_task_runs [OF w1(2) n _ _ _ _ E, of L] f1 tk
  obtain u segs' where u: "remove_task L E a s1 = Some u" "in_use_blocks u segs' (blocks_of ts @ bs)" "same_but_heap s1 u"
    "headers segs' \<subseteq> X \<union> headers segs" "same_outside (X \<union> headers segs \<union> bytes_of E 8) (ram s1) (ram u)"
    "field E 8 u = field E 8 s1 - 1" unfolding X_def by auto
  have out: "same_outside ?A (ram s) (ram u)"
    by (rule same_outside_trans [OF same_outside_mono [OF w1(1)] same_outside_mono [OF u(5)]]) (use PX in blast)+
  have "same_but_run t s1" unfolding s1_def by (rule same_but_heap_run [OF set_field_frame])
  with poll(4) same_but_heap_run [OF u(3)] have run: "same_but_run s u" by (blast intro: same_but_run_trans)
  note fr = same_but_run_simps [OF run]
  have loop: "poll_loop L E (pb + poff) cur hr s = poll_loop L E (pb + poff) (field a 4 s) hr u"
    using task_bounds(1) [OF use n] poll(1) u(1) f1(1) [of 4] t1 cur
    by (subst poll_loop.simps) (auto simp: set_field_slot s1_def Let_def)
  have EA: "bytes_at E 12 \<inter> X = {}" "bytes_at E 12 \<inter> area (blocks_of ts @ bs) = {}" "bytes_at E 12 \<inter> headers segs = {}"
    using E unfolding exec_apart_def X_def by auto
  have E8: "bytes_of E 8 \<subseteq> bytes_at E 12" by (rule exec_bytes) simp
  have "X \<inter> area (blocks_of ts @ bs) = {}" "area (blocks_of ts) \<inter> headers segs = {}"
    using extents_disjoint [OF use] extents_headers [OF use] unfolding X_def area_def by auto
  then have "?A \<inter> area (blocks_of ts) = {}" using S(3) EA(2) E8 unfolding area_simps by blast
  from task_path_same_outside(1) [OF in_use_subset [OF use] path out this] have "task_path L u (field a 4 s) ts" .
  moreover have "exec_apart E segs' (blocks_of ts @ bs)" using E EA u(4) unfolding exec_apart_def by blast
  moreover have "field pb poff u = field pb poff s1"
    by (rule field_same_outside [OF u(5) _ top]) (use S in \<open>auto simp: S_def\<close>)
  then have "field pb poff u = field a 4 s" by (simp add: s1_def t1)
  moreover have "S \<inter> headers segs' = {}" using u(4) S(1,2) by blast
  ultimately have "pass_inv L E u segs' ts bs pb poff (field a 4 s)"
    using u(2) top S clk uart fr unfolding pass_inv_def S_def by auto
  moreover have "field E 8 s1 = field E 8 s"
    by (rule field_same_outside [OF w1(1)]) (use PX EA(1) E8 S(4) E in \<open>blast, simp add: exec_apart_def\<close>)
  ultimately show ?thesis using loop u(4,6) out run by (intro exI [of _ u] exI [of _ segs']) simp
qed

text \<open>The link of a task that stays is a slot for the rest of the pass.\<close>

lemma task_link_slot:
  assumes use: "in_use_blocks s segs (task_blocks (a, f, n, w) @ blocks_of ts @ bs)"
    and E: "exec_apart E segs (task_blocks (a, f, n, w) @ blocks_of ts @ bs)" and clk: "(M, 4) \<in> set bs"
  shows "bytes_of a 4 \<inter> (headers segs \<union> area (blocks_of ts) \<union> bytes_of E 8 \<union> bytes_of M 0) = {}"
    and "\<forall>(q, m) \<in> set (task_blocks (a, f, n, w) @ bs). bytes_of a 4 \<inter> {unat q - 4..<unat q} = {}"
proof -
  let ?B = "task_blocks (a, f, n, w)"
  have sub: "bytes_of a 4 \<subseteq> extent (a, 8)" by (rule bytes_in_extent) simp
  have aB: "extent (a, 8) \<subseteq> area ?B" by auto
  have disj: "area ?B \<inter> area (blocks_of ts @ bs) = {}" using extents_disjoint [OF use] unfolding area_def .
  have "bytes_of M 0 \<subseteq> extent (M, 4)" by (rule bytes_in_extent) simp
  then have "bytes_of M 0 \<subseteq> area (blocks_of ts @ bs)" using area_member [of M 4 "blocks_of ts @ bs"] clk by auto
  moreover have "area ?B \<inter> headers segs = {}" using extents_headers [OF use] by (auto simp: area_def)
  moreover have "area ?B \<inter> bytes_of E 8 = {}" using E exec_bytes [of 8 E] unfolding exec_apart_def area_simps by blast
  ultimately show "bytes_of a 4 \<inter> (headers segs \<union> area (blocks_of ts) \<union> bytes_of E 8 \<union> bytes_of M 0) = {}"
    using disj sub aB unfolding area_simps by blast
  have "bytes_of a 4 \<inter> {unat q - 4..<unat q} = {}" if q: "(q, m) \<in> set (?B @ bs)" for q m
  proof (cases "(q, m) = (a, 8)")
    case False
    have "extent (q, m) \<inter> extent (a, 8) = {}" by (rule block_apart [OF use]) (use q False in auto)
    moreover have "{unat q - 4..<unat q} \<subseteq> extent (q, m)" by (auto simp: extent_def)
    ultimately show ?thesis using sub by blast
  qed (auto simp: bytes_of_def)
  then show "\<forall>(q, m) \<in> set (?B @ bs). bytes_of a 4 \<inter> {unat q - 4..<unat q} = {}" by blast
qed

lemma pass_keep:
  fixes s :: "'z async_scheme"
  assumes inv: "pass_inv L E s segs ((a, f, n, w) # ts) bs pb poff cur"
    and poll: "poll_task L a s = Some (False, t)" "same_outside (poll_area f n) (ram s) (ram t)"
      "first_free t = first_free s" "same_but_run s t" "get_byte (f + 4) t = 0"
  shows "poll_loop L E (pb + poff) cur hr s = poll_loop L E (a + 4) (field a 4 s) True t"
    and "pass_inv L E t segs ts (task_blocks (a, f, n, w) @ bs) a 4 (field a 4 s)"
    and "task_in L t (a, f, n, w)" and "field pb poff t = a"
proof -
  let ?B = "task_blocks (a, f, n, w)" and ?S = "bytes_of pb poff"
  from inv have use: "in_use_blocks s segs (?B @ blocks_of ts @ bs)" and E: "exec_apart E segs (?B @ blocks_of ts @ bs)"
    and tk: "task_in L s (a, f, n, w)" and path: "task_path L s (field a 4 s) ts" and cur: "cur = a" "field pb poff s = a"
    and top: "unat pb + unat poff + 4 \<le> 2 ^ 32" and clk: "(monotonic_time s, 4) \<in> set bs" and uart: "uart_drains (device s)"
    and S: "?S \<inter> area ?B = {}"
    unfolding pass_inv_def by auto
  have n: "n = 16 \<or> n = 24" using tk by auto
  note bd = task_bounds [OF use n] and fr = same_but_run_simps [OF poll(4)]
  have f1: "unat off + 4 \<le> 8 \<Longrightarrow> field a off t = field a off s" "off' = 0 \<or> off' = 8 \<Longrightarrow> field f off' t = field f off' s"
    "w \<noteq> 0 \<Longrightarrow> field w 4 t = field w 4 s" for off off'
    by (rule polled_fields [OF use n, of "{}"]; use poll(2) in simp)+
  have PX: "poll_area f n \<subseteq> area ?B" using poll_area_extent [OF n, of f] by auto
  have use1: "in_use_blocks t segs (?B @ blocks_of ts @ bs)" by (rule in_use_after_poll [OF use n, of "{}"]) (use poll in simp_all)
  show "poll_loop L E (pb + poff) cur hr s = poll_loop L E (a + 4) (field a 4 s) True t"
    using bd(1) poll(1) f1(1) [of 4] cur by (subst poll_loop.simps) auto
  show "task_in L t (a, f, n, w)" using tk f1(1) [of 0] f1(2,3) poll(5) by auto
  show "field pb poff t = a" using field_same_outside [OF poll(2) _ top] S PX cur by blast
  have "area ?B \<inter> area (blocks_of ts @ bs) = {}" using extents_disjoint [OF use] unfolding area_def .
  then have "poll_area f n \<inter> area (blocks_of ts) = {}" using PX by auto
  from task_path_same_outside(1) [OF in_use_subset [OF use] path poll(2) this] have "task_path L t (field a 4 s) ts" .
  moreover have "exec_apart E segs (blocks_of ts @ ?B @ bs)" using E unfolding exec_apart_def by auto
  moreover have "in_use_blocks t segs (blocks_of ts @ ?B @ bs)" by (rule in_use_append_swap [OF use1])
  moreover note task_link_slot [OF use E clk]
  moreover have "(monotonic_time t, 4) \<in> set (?B @ bs)" "uart_drains (device t)" "field a 4 t = field a 4 s"
      "unat a + unat (4 :: u32) + 4 \<le> 2 ^ 32" "monotonic_time t = monotonic_time s"
    using f1(1) [of 4] bd(2) clk uart fr by simp_all
  ultimately show "pass_inv L E t segs ts (?B @ bs) a 4 (field a 4 s)" unfolding pass_inv_def by simp
qed

text \<open>A task stays what it is when of its blocks only the link to the next task is written.\<close>

lemma task_in_link:
  assumes use: "in_use_blocks s segs (task_blocks tk @ bs)" and tk: "task_in L s tk"
    and out: "same_outside A (ram s) (ram t)" and dj: "A \<inter> area (task_blocks tk) \<subseteq> bytes_of (fst tk) 4"
  shows "task_in L t tk"
proof -
  obtain a f n w where tkd: "tk = (a, f, n, w)" by (metis prod_cases4)
  have n: "n = 16 \<or> n = 24" using tk tkd by auto
  note bd = task_bounds [OF use [unfolded tkd] n]
  have own: "extent (f, n) \<inter> extent (a, 8) = {}" "w \<noteq> 0 \<Longrightarrow> extent (w, 12) \<inter> extent (a, 8) = {}"
    using use tkd by (auto simp: in_use_blocks_def pairwise_disjoint_append)
  have sub: "bytes_of a 4 \<subseteq> extent (a, 8)" by (rule bytes_in_extent) simp
  have A: "A \<inter> extent (f, n) = {}" "w \<noteq> 0 \<Longrightarrow> A \<inter> extent (w, 12) = {}" "A \<inter> bytes_of a 0 = {}"
  proof -
    have "extent (f, n) \<subseteq> area (task_blocks tk)" "w \<noteq> 0 \<Longrightarrow> extent (w, 12) \<subseteq> area (task_blocks tk)"
      "extent (a, 8) \<subseteq> area (task_blocks tk)" by (auto simp: tkd)
    moreover have "bytes_of a 0 \<subseteq> extent (a, 8)" by (rule bytes_in_extent) simp
    moreover have "bytes_of a 0 \<inter> bytes_of a 4 = {}" by (auto simp: bytes_of_def)
    moreover have "fst tk = a" by (simp add: tkd)
    ultimately show "A \<inter> extent (f, n) = {}" "w \<noteq> 0 \<Longrightarrow> A \<inter> extent (w, 12) = {}" "A \<inter> bytes_of a 0 = {}"
      using dj own sub by blast+
  qed
  have "field a 0 t = field a 0 s" by (rule field_same_outside [OF out]) (use A bd in auto)
  moreover have "field f off t = field f off s" if "off = 0 \<or> off = 8" for off
    by (rule field_block_kept [OF out A(1)]) (use that n bd in auto)
  moreover have "field w 4 t = field w 4 s" if "w \<noteq> 0"
    by (rule field_block_kept [OF out A(2) [OF that]]) (use that bd(6) in simp_all)
  moreover have "get_byte (f + 4) t = get_byte (f + 4) s"
  proof (rule get_byte_same_outside [OF out])
    have "unat (f + 4) \<in> extent (f, n)" using n bd(5) by (auto simp: extent_def)
    then show "unat (f + 4) \<notin> A" using A(1) by blast
  qed
  ultimately show ?thesis using tk tkd by auto
qed

text \<open>
  The tasks that remain when \<open>rs\<close> says which were done, and the state after a
  pass over all tasks.
\<close>

definition remaining :: "task list \<Rightarrow> bool list \<Rightarrow> task list" where
  "remaining ts rs = map fst (filter (\<lambda>(tk, r). \<not> r) (zip ts rs))"

lemma remaining_simps [simp]:
  "remaining [] rs = []" "remaining (tk # ts) (r # rs) = (if r then remaining ts rs else tk # remaining ts rs)"
  by (simp_all add: remaining_def)

definition sleep_right :: "'z async_scheme \<Rightarrow> task \<Rightarrow> bool \<Rightarrow> bool" where
  "sleep_right s tk r \<longleftrightarrow> (fst (snd (snd tk)) = 16
     \<longrightarrow> (r \<longleftrightarrow> field (fst (snd tk)) 12 s \<le> monotonic_time_get_ticks_global s))"

definition pass_done :: "linker_map \<Rightarrow> ptr \<Rightarrow> 'z async_scheme \<Rightarrow> seg list \<Rightarrow> task list \<Rightarrow> block list \<Rightarrow> ptr \<Rightarrow> u32
    \<Rightarrow> bool list \<Rightarrow> seg list \<Rightarrow> 'z async_scheme \<Rightarrow> bool" where
  "pass_done L E s segs ts bs pb poff rs segs' t \<longleftrightarrow> list_all2 (sleep_right s) ts rs
     \<and> in_use_blocks t segs' (blocks_of (remaining ts rs) @ bs) \<and> headers segs' \<subseteq> area (blocks_of ts) \<union> headers segs
     \<and> same_outside (area (blocks_of ts) \<union> headers segs \<union> bytes_of pb poff \<union> bytes_of E 8) (ram s) (ram t)
     \<and> task_path L t (field pb poff t) (remaining ts rs)
     \<and> field E 8 t = field E 8 s - of_nat (length (filter id rs)) \<and> same_but_run s t"

lemma pass_clock:
  assumes "pass_inv L E s segs (tk # ts) bs pb poff cur" and "same_but_run s t"
    and "same_outside (area (task_blocks tk) \<union> headers segs \<union> bytes_of pb poff \<union> bytes_of E 8) (ram s) (ram t)"
  shows "monotonic_time_get_ticks_global t = monotonic_time_get_ticks_global s"
    and "\<forall>tk \<in> set ts. field (fst (snd tk)) 12 t = field (fst (snd tk)) 12 s"
proof -
  let ?A = "area (task_blocks tk) \<union> headers segs \<union> bytes_of pb poff \<union> bytes_of E 8" and ?M = "monotonic_time s"
  from assms(1) have use: "in_use_blocks s segs (task_blocks tk @ (blocks_of ts @ bs))"
    and E: "exec_apart E segs (task_blocks tk @ blocks_of ts @ bs)" and path: "task_path L s (field (fst tk) 4 s) ts"
    and clk: "(?M, 4) \<in> set bs" and S: "bytes_of pb poff \<inter> bytes_of ?M 0 = {}" "bytes_of pb poff \<inter> area (blocks_of ts) = {}"
    unfolding pass_inv_def by auto
  have disj: "area (task_blocks tk) \<inter> area (blocks_of ts @ bs) = {}" using extents_disjoint [OF use] unfolding area_def .
  have H: "area (blocks_of ts @ bs) \<inter> headers segs = {}" using extents_headers [OF in_use_subset [OF use]] unfolding area_def .
  have X: "area (blocks_of ts @ bs) \<inter> bytes_of E 8 = {}"
    using E exec_bytes [of 8 E] unfolding exec_apart_def area_simps by blast
  have M: "bytes_of ?M 0 \<subseteq> area (blocks_of ts @ bs)"
  proof -
    have "bytes_of ?M 0 \<subseteq> extent (?M, 4)" by (rule bytes_in_extent) simp
    then show ?thesis using clk by (auto simp: area_def)
  qed
  show "monotonic_time_get_ticks_global t = monotonic_time_get_ticks_global s"
    by (rule clock_same_outside [OF in_use_subset [OF in_use_subset [OF use]] clk assms(3)])
      (use disj H X M S same_but_run_simps [OF assms(2)] in blast)+
  show "\<forall>tk \<in> set ts. field (fst (snd tk)) 12 t = field (fst (snd tk)) 12 s"
    by (rule task_path_same_outside(2) [OF in_use_subset [OF use] path assms(3)])
      (use disj H X S in \<open>unfold area_simps, blast\<close>)
qed

lemma pass_done_remove:
  assumes inv: "pass_inv L E s segs (tk # ts) bs pb poff cur" and run: "same_but_run s u"
    and u: "headers segs1 \<subseteq> area (task_blocks tk) \<union> headers segs" "field E 8 u = field E 8 s - 1"
      "same_outside (area (task_blocks tk) \<union> headers segs \<union> bytes_of pb poff \<union> bytes_of E 8) (ram s) (ram u)"
    and sl: "sleep_right s tk True"
    and dn: "pass_done L E u segs1 ts bs pb poff rs segs' t"
  shows "pass_done L E s segs (tk # ts) bs pb poff (True # rs) segs' t"
proof -
  note clock = pass_clock [OF inv run u(3)]
  let ?A = "area (blocks_of (tk # ts)) \<union> headers segs \<union> bytes_of pb poff \<union> bytes_of E 8"
  from dn have d: "list_all2 (sleep_right u) ts rs" "in_use_blocks t segs' (blocks_of (remaining ts rs) @ bs)"
    "headers segs' \<subseteq> area (blocks_of ts) \<union> headers segs1"
    "same_outside (area (blocks_of ts) \<union> headers segs1 \<union> bytes_of pb poff \<union> bytes_of E 8) (ram u) (ram t)"
    "task_path L t (field pb poff t) (remaining ts rs)" "field E 8 t = field E 8 u - of_nat (length (filter id rs))"
    "same_but_run u t" unfolding pass_done_def by blast+
  have "same_outside ?A (ram s) (ram t)"
    by (rule same_outside_trans [OF same_outside_mono [OF u(3)] same_outside_mono [OF d(4)]])
      (use u(1) in \<open>auto simp: Int_commute\<close>)
  moreover have "headers segs' \<subseteq> area (blocks_of (tk # ts)) \<union> headers segs" using d(3) u(1) by auto
  moreover have "same_but_run s t" by (rule same_but_run_trans [OF run d(7)])
  moreover have "list_all2 (sleep_right s) ts rs"
    by (rule list.rel_mono_strong [OF d(1)]) (use clock in \<open>auto simp: sleep_right_def\<close>)
  ultimately show ?thesis using d(2,5,6) u(2) sl unfolding pass_done_def by simp
qed

lemma pass_done_keep:
  assumes inv: "pass_inv L E s segs (tk # ts) bs pb poff cur"
    and u: "same_but_run s u" "same_outside (area (task_blocks tk)) (ram s) (ram u)" "field pb poff u = fst tk"
    and inv': "pass_inv L E u segs ts (task_blocks tk @ bs) (fst tk) 4 nxt" and tk: "task_in L u tk" and sl: "sleep_right s tk False"
    and dn: "pass_done L E u segs ts (task_blocks tk @ bs) (fst tk) 4 rs segs' t"
  shows "pass_done L E s segs (tk # ts) bs pb poff (False # rs) segs' t"
proof -
  let ?X = "area (task_blocks tk)" and ?T = "area (blocks_of ts)" and ?H = "headers segs" and ?S = "bytes_of pb poff" and ?E = "bytes_of E 8"
  let ?A = "area (blocks_of (tk # ts)) \<union> ?H \<union> ?S \<union> ?E"
  from inv have use: "in_use_blocks s segs (task_blocks tk @ (blocks_of ts @ bs))"
    and E: "exec_apart E segs (task_blocks tk @ blocks_of ts @ bs)"
    and top: "unat pb + unat poff + 4 \<le> 2 ^ 32" and S: "?S \<inter> (?H \<union> area (blocks_of (tk # ts)) \<union> ?E) = {}"
    unfolding pass_inv_def by auto
  from inv' have useu: "in_use_blocks u segs (task_blocks tk @ blocks_of ts @ bs)"
    unfolding pass_inv_def by (blast intro: in_use_append_swap)
  obtain a f n w where tkd: "tk = (a, f, n, w)" by (metis prod_cases4)
  have link: "bytes_of (fst tk) 4 \<subseteq> ?X" using bytes_in_extent [of 4 8 a] by (auto simp: tkd)
  from dn have d: "list_all2 (sleep_right u) ts rs" "in_use_blocks t segs' (blocks_of (remaining ts rs) @ task_blocks tk @ bs)"
    "headers segs' \<subseteq> ?T \<union> ?H" "same_outside (?T \<union> ?H \<union> bytes_of (fst tk) 4 \<union> ?E) (ram u) (ram t)"
    "task_path L t (field (fst tk) 4 t) (remaining ts rs)" "field E 8 t = field E 8 u - of_nat (length (filter id rs))"
    "same_but_run u t" unfolding pass_done_def by blast+
  have uA: "same_outside (?X \<union> ?H \<union> ?S \<union> ?E) (ram s) (ram u)" by (rule same_outside_mono [OF u(2)]) blast
  note clock = pass_clock [OF inv u(1) uA]
  have disj: "?X \<inter> area (blocks_of ts @ bs) = {}" using extents_disjoint [OF use] unfolding area_def .
  have XH: "?X \<inter> ?H = {}" using extents_headers [OF use] unfolding area_def by auto
  have XE: "?X \<inter> ?E = {}" using E exec_bytes [of 8 E] unfolding exec_apart_def by auto
  have "task_in L t tk"
    by (rule task_in_link [OF useu tk d(4)]) (use disj XH XE in \<open>unfold area_simps, blast\<close>)
  moreover have "field pb poff t = fst tk"
  proof -
    have "field pb poff t = field pb poff u"
      by (rule field_same_outside [OF d(4) _ top]) (use S link in \<open>unfold blocks_of_simps area_simps, blast\<close>)
    with u(3) show ?thesis by simp
  qed
  moreover have "field E 8 u = field E 8 s"
    by (rule field_same_outside [OF u(2)]) (use XE E in \<open>auto simp: exec_apart_def\<close>)
  moreover have "same_outside ?A (ram s) (ram t)"
    by (rule same_outside_trans [OF same_outside_mono [OF u(2)] same_outside_mono [OF d(4)]])
      (use link in \<open>unfold blocks_of_simps area_simps, blast+\<close>)
  moreover have "in_use_blocks t segs' (blocks_of (remaining (tk # ts) (False # rs)) @ bs)"
    using in_use_append_swap [OF d(2)] by simp
  moreover have "headers segs' \<subseteq> area (blocks_of (tk # ts)) \<union> ?H" using d(3) by auto
  moreover have "same_but_run s t" by (rule same_but_run_trans [OF u(1) d(7)])
  moreover have "list_all2 (sleep_right s) ts rs"
    by (rule list.rel_mono_strong [OF d(1)]) (use clock in \<open>auto simp: sleep_right_def\<close>)
  ultimately show ?thesis using d(5,6) sl unfolding pass_done_def by simp
qed

lemma poll_loop_runs:
  fixes s :: "'z async_scheme"
  assumes "vtables_distinct L" and "pass_inv L E s segs ts bs pb poff cur"
  shows "\<exists>rs segs' t. poll_loop L E (pb + poff) cur hr s = Some (hr \<or> False \<in> set rs, t)
     \<and> pass_done L E s segs ts bs pb poff rs segs' t"
  using assms(2)
proof (induction ts arbitrary: s segs bs pb poff cur hr)
  case Nil
  then have "poll_loop L E (pb + poff) cur hr s = Some (hr, s)" by (subst poll_loop.simps) (simp add: pass_inv_def)
  moreover have "pass_done L E s segs [] bs pb poff [] segs s"
    using Nil by (simp add: pass_done_def pass_inv_def)
  ultimately show ?case by (intro exI [of _ "[]"] exI [of _ segs] exI [of _ s]) simp
next
  case (Cons tk ts)
  obtain a f n w where tk: "tk = (a, f, n, w)" by (metis prod_cases4)
  note inv = Cons.prems [unfolded tk]
  from inv have use: "in_use_blocks s segs (task_blocks (a, f, n, w) @ (blocks_of ts @ bs))" and ti: "task_in L s (a, f, n, w)"
    and uart: "uart_drains (device s)" by (auto simp: pass_inv_def)
  have n: "n = 16 \<or> n = 24" using ti by auto
  from poll_task_runs [OF use ti assms(1) uart] obtain r t where
    t: "poll_task L a s = Some (r, t)" "same_outside (poll_area f n) (ram s) (ram t)" "first_free t = first_free s"
      "same_but_run s t" "\<not> r \<longrightarrow> get_byte (f + 4) t = 0"
      "n = 16 \<longrightarrow> (r \<longleftrightarrow> field f 12 s \<le> monotonic_time_get_ticks_global s)" by blast
  have sl: "sleep_right s (a, f, n, w) r" using t(6) by (simp add: sleep_right_def)
  show ?case
  proof (cases r)
    case True
    have pt: "poll_task L a s = Some (True, t)" using t(1) True by simp
    from pass_remove [OF inv pt t(2-4), of hr] obtain u segs1 where
      u: "poll_loop L E (pb + poff) cur hr s = poll_loop L E (pb + poff) (field a 4 s) hr u"
        "pass_inv L E u segs1 ts bs pb poff (field a 4 s)" "headers segs1 \<subseteq> area (task_blocks (a, f, n, w)) \<union> headers segs"
        "same_outside (area (task_blocks (a, f, n, w)) \<union> headers segs \<union> bytes_of pb poff \<union> bytes_of E 8) (ram s) (ram u)"
        "field E 8 u = field E 8 s - 1" "same_but_run s u" by auto
    from Cons.IH [OF u(2), of hr] obtain rs segs' v where
      v: "poll_loop L E (pb + poff) (field a 4 s) hr u = Some (hr \<or> False \<in> set rs, v)"
        "pass_done L E u segs1 ts bs pb poff rs segs' v" by blast
    from pass_done_remove [OF inv u(6,3,5,4) _ v(2)] sl True u(1) v(1) tk show ?thesis
      by (intro exI [of _ "True # rs"] exI [of _ segs'] exI [of _ v]) simp
  next
    case False
    have pt: "poll_task L a s = Some (False, t)" and fl: "get_byte (f + 4) t = 0" using t(1,5) False by simp_all
    note keep = pass_keep [OF inv pt t(2-4) fl]
    from Cons.IH [OF keep(2), of True] obtain rs segs' v where
      v: "poll_loop L E (a + 4) (field a 4 s) True t = Some (True, v)"
        "pass_done L E t segs ts (task_blocks (a, f, n, w) @ bs) a 4 rs segs' v" by auto
    have out: "same_outside (area (task_blocks (a, f, n, w))) (ram s) (ram t)"
      by (rule same_outside_mono [OF t(2)]) (use poll_area_extent [OF n, of f] in auto)
    have "pass_done L E s segs ((a, f, n, w) # ts) bs pb poff (False # rs) segs' v"
      by (rule pass_done_keep [OF inv t(4) out, of "field a 4 s"]) (use keep(2-4) v(2) sl False in simp_all)
    with keep(1) [of hr] v(1) tk show ?thesis
      by (intro exI [of _ "False # rs"] exI [of _ segs'] exI [of _ v]) simp
  qed
qed

text \<open>The executor between two rounds.\<close>

definition exec_ok :: "linker_map \<Rightarrow> ptr \<Rightarrow> 'z async_scheme \<Rightarrow> seg list \<Rightarrow> task list \<Rightarrow> block list \<Rightarrow> bool" where
  "exec_ok L E s segs ts bs \<longleftrightarrow> in_use_blocks s segs (blocks_of ts @ bs) \<and> exec_apart E segs (blocks_of ts @ bs)
     \<and> task_path L s (field E 0 s) ts \<and> field E 8 s = of_nat (length ts)
     \<and> (monotonic_time s, 4) \<in> set bs \<and> uart_drains (device s)"

lemma exec_ok_pass_inv:
  assumes "exec_ok L E s segs ts bs"
  shows "pass_inv L E s segs ts bs E 0 (field E 0 s)"
proof -
  from assms have E: "E \<noteq> 0" "unat E + 12 \<le> 2 ^ 32" "bytes_at E 12 \<inter> headers segs = {}"
    "bytes_at E 12 \<inter> area (blocks_of ts) = {}" "bytes_at E 12 \<inter> area bs = {}" and clk: "(monotonic_time s, 4) \<in> set bs"
    by (auto simp: exec_ok_def exec_apart_def)
  have S: "bytes_of E 0 \<subseteq> bytes_at E 12" by (rule exec_bytes) simp
  have "bytes_of (monotonic_time s) 0 \<subseteq> area bs" using bytes_in_extent [of 0 4 "monotonic_time s"] area_member [OF clk] by auto
  moreover have "bytes_of E 0 \<inter> bytes_of E 8 = {}" by (auto simp: bytes_of_def)
  ultimately have "bytes_of E 0 \<inter> (headers segs \<union> area (blocks_of ts) \<union> bytes_of E 8 \<union> bytes_of (monotonic_time s) 0) = {}"
    using S E(3-5) by blast
  moreover have "bytes_of E 0 \<inter> {unat q - 4..<unat q} = {}" if "(q, m) \<in> set bs" for q m
  proof -
    have "{unat q - 4..<unat q} \<subseteq> extent (q, m)" by (auto simp: extent_def)
    then show ?thesis using area_member [OF that] S E(5) by blast
  qed
  ultimately show ?thesis using assms E(2) unfolding exec_ok_def pass_inv_def by auto
qed

lemma area_remaining: "area (blocks_of (remaining ts rs)) \<subseteq> area (blocks_of ts)"
proof (induction ts arbitrary: rs)
  case (Cons tk ts)
  then show ?case by (cases rs) (auto simp: remaining_def)
qed simp

lemma length_remaining_tasks: "length rs = length ts \<Longrightarrow>
  of_nat (length ts) - of_nat (length (filter id rs)) = (of_nat (length (remaining ts rs)) :: u32)"
proof (induction ts arbitrary: rs)
  case (Cons tk ts)
  then obtain r rs' where "rs = r # rs'" "length rs' = length ts" by (cases rs) auto
  with Cons.IH [of rs'] show ?case by (auto simp: algebra_simps)
qed simp

lemma remaining_Nil_iff: "length rs = length ts \<Longrightarrow> remaining ts rs = [] \<longleftrightarrow> False \<notin> set rs"
proof (induction ts arbitrary: rs)
  case (Cons tk ts)
  then obtain r rs' where "rs = r # rs'" "length rs' = length ts" by (cases rs) auto
  with Cons.IH [of rs'] show ?case by auto
qed simp

lemma poll_tasks_runs:
  fixes s :: "'z async_scheme"
  assumes L: "vtables_distinct L" and ok: "exec_ok L E s segs ts bs"
  shows "\<exists>rs segs' t. poll_tasks L E s = Some (remaining ts rs \<noteq> [], t) \<and> list_all2 (sleep_right s) ts rs
     \<and> exec_ok L E t segs' (remaining ts rs) bs \<and> same_but_run s t
     \<and> same_outside (area (blocks_of ts) \<union> headers segs \<union> bytes_at E 12) (ram s) (ram t)"
proof -
  note inv = exec_ok_pass_inv [OF ok]
  from poll_loop_runs [OF L inv, of False] obtain rs segs' t where
    t: "poll_loop L E E (field E 0 s) False s = Some (False \<in> set rs, t)" and dn: "pass_done L E s segs ts bs E 0 rs segs' t"
    by auto
  from dn have d: "list_all2 (sleep_right s) ts rs" "in_use_blocks t segs' (blocks_of (remaining ts rs) @ bs)"
    "headers segs' \<subseteq> area (blocks_of ts) \<union> headers segs" "task_path L t (field E 0 t) (remaining ts rs)"
    "field E 8 t = field E 8 s - of_nat (length (filter id rs))" "same_but_run s t"
    "same_outside (area (blocks_of ts) \<union> headers segs \<union> bytes_of E 0 \<union> bytes_of E 8) (ram s) (ram t)" unfolding pass_done_def by blast+
  have len: "length rs = length ts" using d(1) by (simp add: list_all2_lengthD)
  have "exec_apart E segs' (blocks_of (remaining ts rs) @ bs)"
    using ok d(3) area_remaining [of ts rs] unfolding exec_ok_def exec_apart_def area_simps by blast
  moreover have "field E 8 t = of_nat (length (remaining ts rs))"
    using d(5) ok length_remaining_tasks [OF len] by (simp add: exec_ok_def)
  ultimately have "exec_ok L E t segs' (remaining ts rs) bs"
    using d(2,4) ok same_but_run_simps [OF d(6)] by (simp add: exec_ok_def)
  moreover have "poll_tasks L E s = Some (False \<in> set rs, t)"
  proof (cases "field E 0 s = 0")
    case True
    with t have "Some (False, s) = Some (False \<in> set rs, t)" by (subst (asm) poll_loop.simps) simp
    with True show ?thesis by (simp add: poll_tasks_def)
  qed (use t in \<open>simp add: poll_tasks_def\<close>)
  moreover have "same_outside (area (blocks_of ts) \<union> headers segs \<union> bytes_at E 12) (ram s) (ram t)"
    by (rule same_outside_mono [OF d(7)]) (use exec_bytes [of 0 E] exec_bytes [of 8 E] in blast)
  ultimately show ?thesis using d(1,6) remaining_Nil_iff [OF len] by (intro exI [of _ rs] exI [of _ segs'] exI [of _ t]) simp
qed

section \<open>Spawning\<close>

abbreviation waker_block :: "ptr \<Rightarrow> block list" where
  "waker_block w \<equiv> if w = 0 then [] else [(w, 12)]"

lemma waker_create_runs:
  fixes s :: "'z async_scheme"
  assumes hb: "heap_blocks s segs bs"
  obtains w t segs' where "waker_create wk dat s = Some (w, t)" "same_but_heap s t"
    "heap_blocks t segs' (waker_block w @ bs)" "same_outside (seg_bytes segs) (ram s) (ram t)" "seg_bytes segs' \<subseteq> seg_bytes segs"
    "w \<noteq> 0 \<longrightarrow> extent (w, 12) \<subseteq> seg_bytes segs \<and> field w 0 t = wk \<and> field w 4 t = 1"
    "has_room 24 segs \<longrightarrow> w \<noteq> 0" "leaves_room 24 segs segs'"
proof -
  have sz: "malloc_served 12" "4 \<le> unat (12 :: u32)" by (simp_all add: malloc_served_def)
  show thesis
  proof (rule malloc_block [OF hb sz], goal_cases full block)
    case full
    with hb show thesis
      by (intro that [of 0 s segs]) (auto simp: waker_create_def leaves_room_def intro: has_room_mono)
  next
    case (block w u segs')
    let ?ws = "[(w, 0, wk), (w, 8, dat), (w, 4, 1)]"
    have hu: "heap_blocks u segs' ((w, 12) # bs)" and ext: "extent (w, 12) \<subseteq> seg_bytes segs" using block by simp_all
    have ws: "within ((w, 12) # bs) ?ws" by auto
    note fits = within_fits [OF heap_blocks_in_use [OF hu] ws]
    have "written ?ws \<subseteq> extent (w, 12)" by (auto simp: bytes_of_def extent_def)
    then have "written ?ws \<subseteq> seg_bytes segs" using ext by blast
    then have out: "same_outside (seg_bytes segs) (ram s) (ram (set_fields ?ws u))"
      using block(5) same_outside_mono [OF set_fields_outside [OF fits]] same_outside_trans by blast
    have "field p off (set_fields ?ws u) = v" if "(p, off, v) \<in> set ?ws" for p off v
      by (rule field_set_fields [OF fits that]) (simp add: bytes_same_apart)
    then have "field w 0 (set_fields ?ws u) = wk" "field w 4 (set_fields ?ws u) = 1" by auto
    moreover have "waker_create wk dat s = Some (w, set_fields ?ws u)"
      using block(1,2) by (simp add: waker_create_def Let_def)
    moreover have "heap_blocks (set_fields ?ws u) segs' ((w, 12) # bs)" by (rule set_fields_heap_blocks [OF hu ws])
    ultimately show thesis
      using block(2,6,8) ext out same_but_heap_trans [OF block(3) set_fields_frame]
      by (intro that [of w "set_fields ?ws u" segs']) (simp_all del: set_fields.simps)
  qed
qed

lemma exec_ok_cong:
  assumes "ram s = ram t" "first_free s = first_free t" "monotonic_time s = monotonic_time t" "device s = device t"
  shows "exec_ok L E s segs ts bs = exec_ok L E t segs ts bs"
proof -
  have f: "field p off s = field p off t" for p off using assms(1) by (rule field_cong)
  have "task_path L s p ts = task_path L t p ts" for p
    by (induction ts arbitrary: p) (auto simp: f get_byte_def assms(1))
  then show ?thesis using assms in_use_ram [OF assms(1,2)] by (simp add: exec_ok_def f)
qed

lemma exec_ok_perm:
  assumes "exec_ok L E s segs ts bs" and "mset bs = mset bs'"
  shows "exec_ok L E s segs ts bs'"
proof -
  have "area bs' = area bs" "set bs' = set bs" using mset_eq_setD [OF assms(2)] by (simp_all add: area_def)
  then show ?thesis using assms in_use_perm [of s segs "blocks_of ts @ bs" "blocks_of ts @ bs'"]
    by (simp add: exec_ok_def exec_apart_def)
qed

text \<open>
  The queue is kept by whatever leaves the tasks and the executor alone, even if
  it frees or takes other blocks.
\<close>

lemma exec_ok_kept:
  fixes s :: "'z async_scheme"
  assumes ok: "exec_ok L E s segs ts bs" and out: "same_outside A (ram s) (ram t)"
    and use: "in_use_blocks t segs' (blocks_of ts @ bs')" and apart: "exec_apart E segs' (blocks_of ts @ bs')"
    and clk: "(monotonic_time t, 4) \<in> set bs'"
    and A: "A \<inter> area (blocks_of ts) = {}" "A \<inter> bytes_at E 12 = {}" and dev: "device t = device s"
  shows "exec_ok L E t segs' ts bs'"
proof -
  from ok have E: "exec_apart E segs (blocks_of ts @ bs)" and path: "task_path L s (field E 0 s) ts"
    and cnt: "field E 8 s = of_nat (length ts)" and use0: "in_use_blocks s segs (blocks_of ts @ bs)"
    and uart: "uart_drains (device s)" by (simp_all add: exec_ok_def)
  have f: "field E off t = field E off s" if "off = 0 \<or> off = 8" for off
    by (rule field_same_outside [OF out]) (use exec_bytes [OF that] A(2) E that in \<open>auto simp: exec_apart_def\<close>)
  have "task_path L t (field E 0 t) ts"
    using task_path_same_outside(1) [OF use0 path out A(1)] f by simp
  then show ?thesis using use apart cnt uart dev clk f by (simp add: exec_ok_def)
qed

lemma exec_ok_moves:
  fixes s :: "'z async_scheme"
  assumes ok: "exec_ok L E s segs ts bs" and out: "same_outside A (ram s) (ram t)"
    and use: "in_use_blocks t segs' (blocks_of ts @ bs')" and hd: "headers segs' \<subseteq> headers segs \<union> area bs"
    and bs': "area bs' \<subseteq> area bs" "(monotonic_time t, 4) \<in> set bs'"
    and A: "A \<inter> area (blocks_of ts) = {}" "A \<inter> bytes_at E 12 = {}" and dev: "device t = device s"
  shows "exec_ok L E t segs' ts bs'"
proof (rule exec_ok_kept [OF ok out use _ bs'(2) A dev])
  have "exec_apart E segs (blocks_of ts @ bs)" using ok by (simp add: exec_ok_def)
  then show "exec_apart E segs' (blocks_of ts @ bs')" using hd bs'(1) unfolding exec_apart_def area_simps by blast
qed

lemma same_but_console_async:
  "same_but_console s t \<Longrightarrow> monotonic_time (t :: 'z async_scheme) = monotonic_time s \<and> g_should_poll t = g_should_poll s"
  by (cases s; cases t) (simp add: same_but_console_def)

lemma exec_ok_console:
  "same_but_console s t \<Longrightarrow> exec_ok L E (t :: 'z async_scheme) segs ts bs = exec_ok L E s segs ts bs"
  using same_but_console_heap [of s t] same_but_console_async [of s t] same_but_console_device [of s t]
  by (intro exec_ok_cong) simp_all

text \<open>The future a spawn takes over: not completed, with one of the two tables that own nothing.\<close>

definition future_in :: "linker_map \<Rightarrow> 'z async_scheme \<Rightarrow> ptr \<Rightarrow> nat \<Rightarrow> bool" where
  "future_in L s f n \<longleftrightarrow> get_byte (f + 4) s = 0
     \<and> (n = 16 \<and> field f 0 s = sym_sleep_future_vtable L \<or> n = 24 \<and> field f 0 s = sym_async_serial_write_vtable L)"

text \<open>
  Spawning needs a heap the queue and the future are clear of. \<open>spawn_alloc\<close> is the
  state after its two allocations: the task at \<open>a\<close> points to the future, the waker,
  if there was room for it, is at \<open>w\<close>, and only free bytes have been written.
\<close>

definition spawn_ready :: "linker_map \<Rightarrow> ptr \<Rightarrow> 'z async_scheme \<Rightarrow> seg list \<Rightarrow> task list \<Rightarrow> ptr \<Rightarrow> nat \<Rightarrow> block list \<Rightarrow> bool" where
  "spawn_ready L E s segs ts f n bs \<longleftrightarrow> exec_ok L E s segs ts ((f, n) # bs) \<and> heap_blocks s segs (blocks_of ts @ (f, n) # bs)
     \<and> bytes_at E 12 \<inter> seg_bytes segs = {} \<and> future_in L s f n \<and> (monotonic_time s, 4) \<in> set bs"

definition spawn_alloc :: "'z async_scheme \<Rightarrow> seg list \<Rightarrow> block list \<Rightarrow> ptr \<Rightarrow> ptr \<Rightarrow> ptr \<Rightarrow> 'z async_scheme \<Rightarrow> seg list \<Rightarrow> bool" where
  "spawn_alloc s segs bs f a w t segs' \<longleftrightarrow> same_but_heap s t \<and> heap_blocks t segs' (waker_block w @ (a, 8) # bs)
     \<and> same_outside (seg_bytes segs) (ram s) (ram t) \<and> seg_bytes segs' \<subseteq> seg_bytes segs
     \<and> field a 0 t = f \<and> (w \<noteq> 0 \<longrightarrow> field w 4 t = 1) \<and> area (waker_block w @ [(a, 8)]) \<subseteq> seg_bytes segs
     \<and> (has_room 44 segs \<longrightarrow> w \<noteq> 0) \<and> leaves_room 44 segs segs'"

definition spawned :: "linker_map \<Rightarrow> ptr \<Rightarrow> 'z async_scheme \<Rightarrow> seg list \<Rightarrow> task list \<Rightarrow> task \<Rightarrow> block list \<Rightarrow> 'z async_scheme
    \<Rightarrow> seg list \<Rightarrow> bool" where
  "spawned L E s segs ts tk bs t segs' \<longleftrightarrow> exec_ok L E t segs' (tk # ts) bs \<and> heap_blocks t segs' (blocks_of (tk # ts) @ bs)
     \<and> same_outside (seg_bytes segs \<union> bytes_of (fst (snd tk)) 8 \<union> bytes_at E 12) (ram s) (ram t) \<and> seg_bytes segs' \<subseteq> seg_bytes segs
     \<and> (has_room 44 segs \<longrightarrow> snd (snd (snd tk)) \<noteq> 0) \<and> leaves_room 44 segs segs'"

abbreviation spawn_writes :: "ptr \<Rightarrow> ptr \<Rightarrow> ptr \<Rightarrow> ptr \<Rightarrow> ptr \<Rightarrow> u32 \<Rightarrow> field_write list" where
  "spawn_writes E f a w nxt cnt \<equiv> [(f, 8, w), (a, 4, nxt), (E, 0, a), (E, 8, cnt)]"

lemma spawn_alloc_runs:
  fixes s :: "'z async_scheme"
  assumes hb: "heap_blocks s segs bs"
  obtains (full) "malloc 8 s = Some (0, s)" "\<not> has_room 20 segs"
  | (task) a w s0 u segs' where "malloc 8 s = Some (a, s0)" "a \<noteq> 0" "waker_create wk 0 (set_field a 0 f s0) = Some (w, u)"
      "spawn_alloc s segs bs f a w u segs'"
proof -
  have sz: "malloc_served 8" "4 \<le> unat (8 :: u32)" by (simp_all add: malloc_served_def)
  show thesis
  proof (rule malloc_block [OF hb sz], goal_cases full' block)
    case full'
    then show thesis by (intro full) simp_all
  next
    case (block a s0 segs1)
    let ?s1 = "set_field a 0 f s0"
    have am: "(a, 8) \<in> set ((a, 8) # bs)" and a0: "unat (0 :: u32) + 4 \<le> 8" by simp_all
    have h0: "heap_blocks s0 segs1 ((a, 8) # bs)" and ext: "extent (a, 8) \<subseteq> seg_bytes segs" using block by simp_all
    note h1 = set_field_heap_blocks [OF h0 am a0, of f] and ends = block_end [OF heap_blocks_in_use [OF h0] am]
    obtain w u segs2 where w: "waker_create wk 0 ?s1 = Some (w, u)" "same_but_heap ?s1 u"
        "heap_blocks u segs2 (waker_block w @ (a, 8) # bs)" "same_outside (seg_bytes segs1) (ram ?s1) (ram u)"
        "seg_bytes segs2 \<subseteq> seg_bytes segs1" "w \<noteq> 0 \<longrightarrow> extent (w, 12) \<subseteq> seg_bytes segs1 \<and> field w 0 u = wk \<and> field w 4 u = 1"
        "has_room 24 segs1 \<longrightarrow> w \<noteq> 0" "leaves_room 24 segs1 segs2"
      by (rule waker_create_runs [OF h1])
    have room: "leaves_room 20 segs segs1" using block(8) by simp
    then have rooms: "has_room 44 segs \<longrightarrow> w \<noteq> 0" "leaves_room 44 segs segs2"
      using w(7) leaves_roomD [OF room, of 24] leaves_room_trans [OF room w(8)] by simp_all
    have "same_outside (seg_bytes segs) (ram s0) (ram ?s1)"
      by (rule same_outside_mono [OF set_field_outside]) (use bytes_in_extent [OF a0, of a] ext ends in auto)
    with block(5) same_outside_mono [OF w(4) block(6)] have o: "same_outside (seg_bytes segs) (ram s) (ram u)"
      by (blast intro: same_outside_trans)
    have "field a 0 u = f"
      using field_block_kept [OF w(4) _ a0 ends] heap_blocks_area [OF h1] by (auto simp: area_def)
    moreover have "area (waker_block w @ [(a, 8)]) \<subseteq> seg_bytes segs" using w(6) block(6) ext by auto
    moreover have "seg_bytes segs2 \<subseteq> seg_bytes segs" using w(5) block(6) by blast
    moreover have "same_but_heap s u" by (rule same_but_heap_trans [OF same_but_heap_trans [OF block(3) set_field_frame] w(2)])
    ultimately have "spawn_alloc s segs bs f a w u segs2" using w(3,6) o rooms by (simp add: spawn_alloc_def)
    with task block(1,2) w(1) show thesis by blast
  qed
qed

text \<open>The executor, the task, the future and the waker do not overlap.\<close>

lemma spawn_apart:
  fixes s :: "'z async_scheme"
  assumes ready: "spawn_ready L E s segs ts f n bs" and u: "spawn_alloc s segs (blocks_of ts @ (f, n) # bs) f a w u segs'"
  defines "B \<equiv> waker_block w @ (a, 8) # blocks_of ts @ (f, n) # bs"
  shows "bytes_at E 12 \<inter> area B = {}" "bytes_at E 12 \<inter> headers segs' = {}" "unat E + 12 \<le> 2 ^ 32"
    and "extent (f, n) \<inter> extent (a, 8) = {}" "extent (f, n) \<inter> seg_bytes segs = {}"
    and "w \<noteq> 0 \<Longrightarrow> extent (w, 12) \<inter> (extent (f, n) \<union> extent (a, 8)) = {}" and "12 \<le> n"
proof -
  from u have hb: "heap_blocks u segs' B" and ext: "area (waker_block w @ [(a, 8)]) \<subseteq> seg_bytes segs"
    and sub: "seg_bytes segs' \<subseteq> seg_bytes segs" by (simp_all add: spawn_alloc_def B_def)
  from ready have E: "bytes_at E 12 \<inter> seg_bytes segs = {}" "bytes_at E 12 \<inter> area (blocks_of ts @ (f, n) # bs) = {}"
    and fn: "future_in L s f n" and hs: "heap_blocks s segs (blocks_of ts @ (f, n) # bs)"
    by (simp_all add: spawn_ready_def exec_ok_def exec_apart_def)
  show "12 \<le> n" using fn by (auto simp: future_in_def)
  show "unat E + 12 \<le> 2 ^ 32" using ready by (simp add: spawn_ready_def exec_ok_def exec_apart_def)
  show "bytes_at E 12 \<inter> headers segs' = {}" using E(1) sub headers_seg_bytes [of segs'] by blast
  show "bytes_at E 12 \<inter> area B = {}" using E ext unfolding B_def area_simps by blast
  show fQ: "extent (f, n) \<inter> seg_bytes segs = {}" using heap_blocks_area [OF hs] by auto
  show "extent (f, n) \<inter> extent (a, 8) = {}" using fQ ext by auto
  assume w: "w \<noteq> 0"
  then have "extent (w, 12) \<inter> extent (a, 8) = {}" using heap_blocks_in_use [OF hb] by (simp add: B_def in_use_blocks_def)
  moreover have "extent (w, 12) \<subseteq> seg_bytes segs" using ext w by simp
  ultimately show "extent (w, 12) \<inter> (extent (f, n) \<union> extent (a, 8)) = {}" using fQ by blast
qed

lemma spawn_written:
  fixes s :: "'z async_scheme"
  assumes ready: "spawn_ready L E s segs ts f n bs" and u: "spawn_alloc s segs (blocks_of ts @ (f, n) # bs) f a w u segs'"
  defines "ws \<equiv> spawn_writes E f a w (field E 0 u) (field E 8 u + 1)"
  shows "heap_blocks (set_fields ws u) segs' (blocks_of ((a, f, n, w) # ts) @ bs)"
    and "fits ws" and "pairwise_disjoint (map (\<lambda>(p, off, v). bytes_of p off) ws)"
    and "written ws \<subseteq> bytes_of f 8 \<union> bytes_of a 4 \<union> bytes_at E 12"
proof -
  let ?B = "waker_block w @ (a, 8) # blocks_of ts @ (f, n) # bs"
  let ?w1 = "[(f, 8, w), (a, 4, field E 0 u)]" and ?w2 = "[(E, 0, a), (E, 8, field E 8 u + 1)]"
  note ap = spawn_apart [OF ready u]
  from u have hu: "heap_blocks u segs' ?B" by (simp add: spawn_alloc_def)
  have ends: "unat q + m \<le> 2 ^ 32" if "(q, m) \<in> set ?B" for q m by (rule block_end [OF heap_blocks_in_use [OF hu] that])
  have w12: "within ?B ?w1" "fits ?w1" "fits ?w2" "written ?w2 \<subseteq> bytes_at E 12"
    using ap(3,7) ends [of f n] ends [of a 8] by (auto simp: bytes_of_def bytes_at_def)
  have "heap_blocks (set_fields ?w2 (set_fields ?w1 u)) segs' ?B"
    by (rule set_fields_static [OF set_fields_heap_blocks [OF hu w12(1)] w12(3)]) (use w12(4) ap(1,2) in blast)+
  then have h: "heap_blocks (set_fields ws u) segs' ?B" by (simp add: ws_def)
  from heap_blocks_perm [OF h] show "heap_blocks (set_fields ws u) segs' (blocks_of ((a, f, n, w) # ts) @ bs)" by simp
  show "fits ws" using w12(2,3) by (simp add: ws_def)
  show "written ws \<subseteq> bytes_of f 8 \<union> bytes_of a 4 \<union> bytes_at E 12" using w12(4) by (auto simp: ws_def)
  have "bytes_of f 8 \<subseteq> area ?B" "bytes_of a 4 \<subseteq> area ?B" using bytes_in_extent [of 8 n f] bytes_in_extent [of 4 8 a] ap(7) by auto
  then have "bytes_of p off \<inter> bytes_of E off' = {}" if "(p, off) \<in> {(f, 8), (a, 4)}" "off' = 0 \<or> off' = 8" for p off off'
    using that ap(1) exec_bytes [OF that(2), of E] by auto
  moreover have "bytes_of f 8 \<inter> bytes_of a 4 = {}" by (rule bytes_apart [OF ap(4)]) (use ap(7) in simp_all)
  ultimately show "pairwise_disjoint (map (\<lambda>(p, off, v). bytes_of p off) ws)" by (simp add: ws_def bytes_same_apart)
qed

text \<open>What the structures read after the writes.\<close>

lemma spawn_fields:
  fixes s :: "'z async_scheme"
  assumes ready: "spawn_ready L E s segs ts f n bs" and u: "spawn_alloc s segs (blocks_of ts @ (f, n) # bs) f a w u segs'"
  defines "t \<equiv> set_fields (spawn_writes E f a w (field E 0 u) (field E 8 u + 1)) u"
  shows "same_outside (seg_bytes segs \<union> bytes_of f 8 \<union> bytes_at E 12) (ram s) (ram t)"
    and "task_in L t (a, f, n, w)" and "field a 4 t = field E 0 s" and "field E 0 t = a" and "field E 8 t = of_nat (length ts) + 1"
proof -
  let ?Q = "seg_bytes segs" and ?U = "bytes_of f 8 \<union> bytes_of a 4 \<union> bytes_at E 12"
  note ap = spawn_apart [OF ready u] and ws = spawn_written [OF ready u]
  from u have out: "same_outside ?Q (ram s) (ram u)" and hu: "heap_blocks u segs' (waker_block w @ (a, 8) # blocks_of ts @ (f, n) # bs)"
    and al: "field a 0 u = f" "w \<noteq> 0 \<longrightarrow> field w 4 u = 1" "extent (a, 8) \<subseteq> ?Q" by (simp_all add: spawn_alloc_def)
  from ready have fn: "future_in L s f n" and E: "bytes_at E 12 \<inter> ?Q = {}" and cnt: "field E 8 s = of_nat (length ts)"
    by (simp_all add: spawn_ready_def exec_ok_def)
  have bs: "bytes_of f 8 \<subseteq> extent (f, n)" "bytes_of a 4 \<subseteq> extent (a, 8)" using ap(7) by (auto intro!: bytes_in_extent)
  have outU: "same_outside ?U (ram u) (ram t)" unfolding t_def by (rule same_outside_mono [OF set_fields_outside [OF ws(2)] ws(4)])
  show o: "same_outside (?Q \<union> bytes_of f 8 \<union> bytes_at E 12) (ram s) (ram t)"
    by (rule same_outside_trans [OF same_outside_mono [OF out] same_outside_mono [OF outU]]) (use bs(2) al(3) in blast)+
  have get: "field p off t = v" if "(p, off, v) \<in> set (spawn_writes E f a w (field E 0 u) (field E 8 u + 1))" for p off v
    unfolding t_def by (rule field_set_fields [OF ws(2) that ws(3)])
  have Eu: "field E off u = field E off s" if "off = 0 \<or> off = 8" for off
    by (rule field_same_outside [OF out]) (use exec_bytes [OF that, of E] E ap(3) that in auto)
  show "field a 4 t = field E 0 s" "field E 0 t = a" "field E 8 t = of_nat (length ts) + 1"
    using get Eu cnt by simp_all
  have ef: "extent (f, n) \<inter> bytes_at E 12 = {}" "extent (a, 8) \<inter> bytes_at E 12 = {}" "w \<noteq> 0 \<Longrightarrow> extent (w, 12) \<inter> bytes_at E 12 = {}"
    using ap(1) unfolding area_simps by auto
  have ends: "unat a + 8 \<le> 2 ^ 32" "unat f + n \<le> 2 ^ 32" "w \<noteq> 0 \<Longrightarrow> unat w + 12 \<le> 2 ^ 32"
    by (rule block_end [OF heap_blocks_in_use [OF hu]], simp)+
  have "field a 0 t = field a 0 u"
  proof (rule field_same_outside [OF outU])
    have "bytes_of a 0 \<subseteq> extent (a, 8)" "bytes_of a 0 \<inter> bytes_of a 4 = {}" by (auto intro!: bytes_in_extent bytes_same_apart)
    then show "bytes_of a 0 \<inter> ?U = {}" using bs(1) ap(4) ef(2) by blast
  qed (use ends in simp)
  moreover have "field w 4 t = field w 4 u" if "w \<noteq> 0"
    by (rule field_block_kept [OF outU _ _ ends(3) [OF that]]) (use ap(6) [OF that] ef(3) [OF that] bs in auto)
  moreover have "field f 0 t = field f 0 s"
  proof (rule field_same_outside [OF o])
    have "bytes_of f 0 \<subseteq> extent (f, n)" "bytes_of f 0 \<inter> bytes_of f 8 = {}" using ap(7) by (auto intro!: bytes_in_extent bytes_same_apart)
    then show "bytes_of f 0 \<inter> (?Q \<union> bytes_of f 8 \<union> bytes_at E 12) = {}" using ap(5) ef(1) by blast
  qed (use ends ap(7) in simp)
  moreover have "get_byte (f + 4) t = get_byte (f + 4) s"
  proof (rule get_byte_same_outside [OF o])
    have "unat (f + 4) = unat f + 4" using ends(2) ap(7) by (simp add: unat_add_no_wrap)
    then have "unat (f + 4) \<in> extent (f, n)" "unat (f + 4) \<notin> bytes_of f 8" using ap(7) by (auto simp: extent_def bytes_of_def)
    then show "unat (f + 4) \<notin> ?Q \<union> bytes_of f 8 \<union> bytes_at E 12" using ap(5) ef(1) by blast
  qed
  ultimately show "task_in L t (a, f, n, w)" using al get fn by (auto simp: future_in_def)
qed

lemma spawn_links:
  fixes s :: "'z async_scheme"
  assumes ready: "spawn_ready L E s segs ts f n bs" and u: "spawn_alloc s segs (blocks_of ts @ (f, n) # bs) f a w u segs'"
  defines "t \<equiv> set_fields (spawn_writes E f a w (field E 0 u) (field E 8 u + 1)) u"
  shows "spawned L E s segs ts (a, f, n, w) bs t segs'" and "same_but_heap s t"
proof -
  let ?A = "seg_bytes segs \<union> bytes_of f 8 \<union> bytes_at E 12"
  note ap = spawn_apart [OF ready u] and hb = spawn_written(1) [OF ready u, folded t_def]
    and fields = spawn_fields [OF ready u, folded t_def]
  from ready have ok: "exec_ok L E s segs ts ((f, n) # bs)" and hs: "heap_blocks s segs (blocks_of ts @ (f, n) # bs)"
    and clk: "(monotonic_time s, 4) \<in> set bs" by (simp_all add: spawn_ready_def)
  from u show fr: "same_but_heap s t" unfolding t_def spawn_alloc_def using same_but_heap_trans [OF _ set_fields_frame] by blast
  have "task_path L t (field E 0 s) ts"
  proof (rule task_path_same_outside(1) [OF _ _ fields(1)])
    show use: "in_use_blocks s segs (blocks_of ts @ (f, n) # bs)" and "task_path L s (field E 0 s) ts" using ok by (simp_all add: exec_ok_def)
    have "bytes_of f 8 \<subseteq> extent (f, n)" using ap(7) by (intro bytes_in_extent) simp
    moreover have "area (blocks_of ts) \<inter> extent (f, n) = {}" using extents_disjoint [OF use] by (auto simp: area_def)
    moreover have "bytes_at E 12 \<inter> area (blocks_of ts) = {}" using ap(1) unfolding area_simps by blast
    ultimately show "?A \<inter> area (blocks_of ts) = {}" using heap_blocks_area [OF hs] unfolding area_simps by blast
  qed
  moreover have "exec_apart E segs' (blocks_of ((a, f, n, w) # ts) @ bs)"
    using ok ap(1,2) by (auto simp: exec_ok_def exec_apart_def)
  ultimately have "exec_ok L E t segs' ((a, f, n, w) # ts) bs"
    using heap_blocks_in_use [OF hb] fields(2-5) clk ok same_but_heap_device [OF fr] same_but_heap_async [OF fr]
    unfolding exec_ok_def by (simp add: add.commute del: blocks_of_simps task_in.simps)
  with hb fields(1) u show "spawned L E s segs ts (a, f, n, w) bs t segs'" by (simp add: spawned_def spawn_alloc_def)
qed

text \<open>
  Spawning returns: nothing happens when there is no room for the task, and
  otherwise the task is at the head of the queue and a poll is asked for.
\<close>

lemma spawn_writes_eq:
  fixes s :: "'z async_scheme"
  assumes ready: "spawn_ready L E s segs ts f n bs" and u: "spawn_alloc s segs (blocks_of ts @ (f, n) # bs) f a w u segs'"
  defines "s3 \<equiv> set_field f 8 w u"
  defines "s5 \<equiv> set_field E 0 a (set_field a 4 (field E 0 s3) s3)"
  shows "set_field E 8 (field E 8 s5 + 1) s5 = set_fields (spawn_writes E f a w (field E 0 u) (field E 8 u + 1)) u"
proof -
  note ws = spawn_written [OF ready u] and ap = spawn_apart [OF ready u]
  from ws(3) have dj: "bytes_of E 0 \<inter> bytes_of f 8 = {}" "bytes_of E 8 \<inter> written [(f, 8, w), (a, 4, v), (E, 0, a)] = {}" for v
    by (simp_all add: Int_Un_distrib Int_commute)
  have "field E 0 s3 = field E 0 u"
    unfolding s3_def by (rule field_set_other [OF dj(1)]) (use ws(2) ap(3) in simp_all)
  moreover have "field E 8 (set_fields [(f, 8, w), (a, 4, field E 0 u), (E, 0, a)] u) = field E 8 u"
    by (rule field_set_fields_other [OF _ dj(2)]) (use ws(2) ap(3) in simp_all)
  ultimately show ?thesis by (simp add: s5_def s3_def)
qed

lemma executor_spawn_runs:
  fixes s :: "'z async_scheme"
  assumes ready: "spawn_ready L E s segs ts f n bs"
  obtains (full) "executor_spawn L E f s = Some s" "malloc 8 s = Some (0, s)" "\<not> has_room 20 segs"
  | (task) a w t u segs' where "executor_spawn L E f s = Some t" "spawned L E s segs ts (a, f, n, w) bs u segs'"
      "same_but_heap s u" "same_but_console (u\<lparr>g_should_poll := True\<rparr>) t"
proof -
  from ready have hs: "heap_blocks s segs (blocks_of ts @ (f, n) # bs)" by (simp add: spawn_ready_def)
  show thesis
  proof (rule spawn_alloc_runs [OF hs, where wk = "sym_executor_waker_wake L" and f = f], goal_cases full' task')
    case full'
    then show thesis by (intro full) (simp_all add: executor_spawn_def)
  next
    case (task' a w s0 u segs')
    define t where "t = set_fields (spawn_writes E f a w (field E 0 u) (field E 8 u + 1)) u"
    let ?u = "t\<lparr>g_should_poll := True\<rparr>"
    note links = spawn_links [OF ready task'(4), folded t_def]
    have "uart_drains (device ?u)" using links(1) by (simp add: spawned_def exec_ok_def)
    then obtain v where v: "output_string (''Task spawned'' @ [LF]) ?u = Some v" "same_but_console ?u v"
      using literal_runs [of "''Task spawned'' @ [LF]" ?u] by auto
    have "field a 0 u = f" using task'(4) by (simp add: spawn_alloc_def)
    then have "executor_spawn L E f s = Some v"
      using task'(1-3) v(1) spawn_writes_eq [OF ready task'(4), folded t_def]
      by (simp add: executor_spawn_def Let_def del: set_fields.simps)
    with task links v(2) show thesis by blast
  qed
qed

lemma spawned_console:
  fixes s :: "'z async_scheme"
  assumes "spawned L E s segs ts tk bs u segs'" and "same_but_console (u\<lparr>g_should_poll := True\<rparr>) t"
  shows "spawned L E s segs ts tk bs t segs'" "g_should_poll t"
proof -
  let ?u = "u\<lparr>g_should_poll := True\<rparr>"
  have "exec_ok L E t segs' (tk # ts) bs = exec_ok L E u segs' (tk # ts) bs"
    using exec_ok_console [OF assms(2)] exec_ok_cong [of ?u u] by simp
  moreover have "heap_blocks t segs' cs = heap_blocks u segs' cs" for cs
    using same_but_console_heap [OF assms(2)] heap_blocks_cong [of t u] by simp
  moreover have "ram t = ram u" using same_but_console_heap [OF assms(2)] by simp
  ultimately show "spawned L E s segs ts tk bs t segs'" using assms(1) by (simp add: spawned_def)
  show "g_should_poll t" using same_but_console_async [OF assms(2)] by simp
qed

section \<open>The serial write future\<close>

text \<open>
  The bytes a serial future has still to send, and one poll: with a free
  transmitter it sends the next of them, without one it sends nothing; it is
  done exactly when none is left.
\<close>

definition to_send :: "ptr \<Rightarrow> 'z async_scheme \<Rightarrow> u8 list" where
  "to_send f s = map (\<lambda>i. get_byte (field f 12 s + of_nat i) s) [unat (field f 20 s)..<unat (field f 16 s)]"

lemma of_char_byte: "of_char (char_of (unat (b :: u8))) = b"
proof -
  have "unat b < 256" by (rule unat_u8_less)
  then have "(of_char (char_of (unat b)) :: nat) = unat b" by simp
  moreover have "of_nat (unat b) = b" by simp
  ultimately show ?thesis by (metis of_nat_of_char)
qed

lemma to_send_Cons:
  assumes "field f 20 s < field f 16 s"
  shows "to_send f s = get_byte (field f 12 s + field f 20 s) s
    # map (\<lambda>i. get_byte (field f 12 s + of_nat i) s) [unat (field f 20 s) + 1..<unat (field f 16 s)]"
proof -
  have "unat (field f 20 s) < unat (field f 16 s)" using assms by (simp add: word_less_nat_alt)
  then show ?thesis by (simp add: to_send_def upt_conv_Cons)
qed

lemma serial_poll_sends:
  fixes s :: "'z async_scheme"
  assumes uart: "uart_drains (device s)" and top: "unat f + 24 \<le> 2 ^ 32" "unat (field f 12 s) + unat (field f 16 s) \<le> 2 ^ 32"
    and apart: "bytes_at (field f 12 s) (unat (field f 16 s)) \<inter> bytes_of f 20 = {}"
    and more: "field f 20 s < field f 16 s" and ready: "tx_empty (device s) (trace s)"
  shows "\<exists>r t. async_serial_write_poll f s = Some (r, t) \<and> sent t = sent s @ [hd (to_send f s)]
     \<and> to_send f t = tl (to_send f s) \<and> (r = FUTURE_READY \<longleftrightarrow> tl (to_send f s) = []) \<and> same_but_run s t"
proof -
  obtain v s1 where e: "serial_is_transmit_empty s = (v, s1)" by fastforce
  have s1: "same_but_serial s s1" "v \<noteq> 0" "sent s1 = sent s"
    using e ready by (auto simp: serial_is_transmit_empty_def in_b_def same_but_serial_def tx_empty_def sent_def Let_def)
  note r1 = same_but_serial_ram [OF s1(1)]
  have f1: "field p off s1 = field p off s" "get_byte p s1 = get_byte p s" for p off
    using r1 by (simp_all add: field_def get_byte_def)
  let ?b = "get_byte (field f 12 s + field f 20 s) s"
  obtain t where t: "write_serial (char_of (unat ?b)) s1 = Some t" "sent t = sent s1 @ [?b]" "same_but_serial s1 t"
    using write_serial_returns [of s1 "char_of (unat ?b)"] uart r1 by (auto simp: of_char_byte)
  have ft: "field p off t = field p off s" for p off using same_but_serial_ram [OF t(3)] r1 by (simp add: field_def)
  let ?u = "set_field f 20 (field f 20 s + 1) t"
  have b20: "unat f + unat (20 :: u32) + 4 \<le> 2 ^ 32" using top by simp
  have out: "same_outside (bytes_of f 20) (ram s) (ram ?u)"
    using set_field_outside [OF b20, of t] same_but_serial_ram [OF t(3)] r1 by simp
  have g: "field f off ?u = field f off s" if "off = 12 \<or> off = 16" for off
    by (rule field_same_outside [OF out]) (use that top in \<open>auto simp: bytes_of_def\<close>)
  have lt: "unat (field f 20 s) < unat (field f 16 s)" using more by (simp add: word_less_nat_alt)
  then have u1: "unat (field f 20 s + 1) = unat (field f 20 s) + 1" using unat_u32_less [of "field f 16 s"] by (simp add: unat_add_no_wrap)
  have "get_byte (field f 12 s + of_nat i) ?u = get_byte (field f 12 s + of_nat i) s" if "i < unat (field f 16 s)" for i
  proof (rule get_byte_same_outside [OF out])
    have i: "unat (of_nat i :: u32) = i" using that unat_u32_less [of "field f 16 s"] by (simp add: unat_of_nat)
    have "unat (field f 12 s + of_nat i) = unat (field f 12 s) + i" using that top(2) i by (simp add: unat_add_no_wrap)
    then have "unat (field f 12 s + of_nat i) \<in> bytes_at (field f 12 s) (unat (field f 16 s))" using that by (simp add: bytes_at_def)
    then show "unat (field f 12 s + of_nat i) \<notin> bytes_of f 20" using apart by blast
  qed
  then have rest: "to_send f ?u = tl (to_send f s)"
    using to_send_Cons [OF more] g [of 12] g [of 16] u1 by (simp add: to_send_def)
  have "async_serial_write_poll f s = Some (if field f 20 s + 1 < field f 16 s then FUTURE_PENDING else FUTURE_READY, ?u)"
    using e s1(2) more t(1) f1 ft g [of 16] by (simp add: async_serial_write_poll_def Let_def)
  moreover have "tl (to_send f s) = [] \<longleftrightarrow> \<not> field f 20 s + 1 < field f 16 s"
    using rest u1 lt g [of 16] by (auto simp: to_send_def word_less_nat_alt)
  moreover have "sent ?u = sent s @ [hd (to_send f s)]"
    using t(2) s1(3) to_send_Cons [OF more] by (simp add: sent_def set_field_def)
  moreover have "same_but_run s ?u"
    using same_but_serial_run [OF s1(1)] same_but_serial_run [OF t(3)] same_but_heap_run [OF set_field_frame] same_but_run_trans by metis
  ultimately show ?thesis using rest by auto
qed

end
