(* ===== verification/Executor_Runs.thy ===== *)
theory Executor_Runs
  imports Task_Queue
begin

text \<open>
  The executor at work: a pass over the tasks, when a round halts, and the run
  as a relation closed under rounds and interrupts; spawning; the serial write
  future; and what goes wrong when a clock future completes.
\<close>

section \<open>A concrete executor\<close>

text \<open>
  An executor at \<open>0x160\<close> with two sleeping tasks, one due at tick 3 and one at
  tick 9; the clock at \<open>0x2010\<close> shows 5.
\<close>

definition exec_example :: "device_fn \<Rightarrow> async" where
  "exec_example d = (async_boot d)\<lparr>first_free := 0x1000, monotonic_time := 0x2010,
     ram := fold (\<lambda>(a, v). store32 a v)
       [(0x160, 0x3008), (0x168, 2), (0x1000, 0x100), (0x200C, 8), (0x2010, 5),
        (0x3004, 12), (0x3008, 0x3028), (0x300C, 0x3068),
        (0x3024, 20), (0x3028, 0x130), (0x3030, 0x3048), (0x3034, 3), (0x3044, 16), (0x3048, 0x120), (0x304C, 1),
        (0x3064, 12), (0x3068, 0x3088),
        (0x3084, 20), (0x3088, 0x130), (0x3090, 0x30A8), (0x3094, 9), (0x30A4, 16), (0x30A8, 0x120), (0x30AC, 1)]
       (\<lambda>_. 0)\<rparr>"

abbreviation example_tasks :: "task list" where
  "example_tasks \<equiv> [(0x3008, 0x3028, 16, 0x3048), (0x3068, 0x3088, 16, 0x30A8)]"

lemma exec_example_fields:
  "load32 (ram (exec_example d)) 0x160 = 0x3008" "load32 (ram (exec_example d)) 0x168 = 2"
  "load32 (ram (exec_example d)) 0x1000 = 0x100" "load32 (ram (exec_example d)) 0x1004 = 0"
  "load32 (ram (exec_example d)) 0x200C = 8" "load32 (ram (exec_example d)) 0x2010 = 5"
  "load32 (ram (exec_example d)) 0x3004 = 12" "load32 (ram (exec_example d)) 0x3008 = 0x3028"
  "load32 (ram (exec_example d)) 0x300C = 0x3068" "load32 (ram (exec_example d)) 0x3024 = 20"
  "load32 (ram (exec_example d)) 0x3028 = 0x130" "load32 (ram (exec_example d)) 0x3030 = 0x3048"
  "load32 (ram (exec_example d)) 0x3034 = 3" "load32 (ram (exec_example d)) 0x3044 = 16"
  "load32 (ram (exec_example d)) 0x304C = 1" "load32 (ram (exec_example d)) 0x3064 = 12"
  "load32 (ram (exec_example d)) 0x3068 = 0x3088" "load32 (ram (exec_example d)) 0x306C = 0"
  "load32 (ram (exec_example d)) 0x3084 = 20" "load32 (ram (exec_example d)) 0x3088 = 0x130"
  "load32 (ram (exec_example d)) 0x3090 = 0x30A8" "load32 (ram (exec_example d)) 0x3094 = 9"
  "load32 (ram (exec_example d)) 0x30A4 = 16" "load32 (ram (exec_example d)) 0x30AC = 1"
  by (simp_all add: exec_example_def apart4_def load32_zero)

lemma exec_example_flags: "ram (exec_example d) 0x302C = 0" "ram (exec_example d) 0x308C = 0"
  by (simp_all add: exec_example_def store32_def)

lemma exec_example_ok:
  assumes "uart_drains d"
  shows "exec_ok example_linker 0x160 (exec_example d) [(0x1000, 0x100)] example_tasks [(0x2010, 4)]"
proof -
  have dev: "device (exec_example d) = d" "first_free (exec_example d) = 0x1000" "monotonic_time (exec_example d) = 0x2010"
    by (simp_all add: exec_example_def)
  have "in_use_blocks (exec_example d) [(0x1000, 0x100)] (blocks_of example_tasks @ [(0x2010, 4)])"
    unfolding in_use_blocks_def
    by (simp add: free_list_def seg_size_def seg_next_def live_def exec_example_fields dev
        extent_disjointI extent_intervalI)
  moreover have "task_path example_linker (exec_example d) 0x3008 example_tasks"
    by (simp add: field_def get_byte_def exec_example_fields exec_example_flags example_linker_def)
  moreover have "exec_apart 0x160 [(0x1000, 0x100)] (blocks_of example_tasks @ [(0x2010, 4)])"
    by (auto simp: exec_apart_def bytes_at_def extent_def)
  ultimately show ?thesis
    using assms by (simp add: exec_ok_def field_def exec_example_fields dev)
qed

section \<open>Rounds and runs\<close>

lemma executor_round_runs:
  fixes s :: "'z async_scheme"
  assumes L: "vtables_distinct L" and ok: "exec_ok L E s segs ts bs"
  shows "\<exists>rs segs' t. list_all2 (sleep_right s) ts rs \<and> exec_ok L E t segs' (remaining ts rs) bs \<and> same_but_run s t
     \<and> executor_round interrupt L E s =
         (if remaining ts rs = [] \<and> \<not> g_should_poll s then map_option cli (interrupt (sti t))
          else Some (t\<lparr>g_should_poll := False\<rparr>))"
proof -
  from poll_tasks_runs [OF assms] obtain rs segs' t where
    t: "poll_tasks L E s = Some (remaining ts rs \<noteq> [], t)" "list_all2 (sleep_right s) ts rs"
      "exec_ok L E t segs' (remaining ts rs) bs" "same_but_run s t" by blast
  have "executor_round interrupt L E s =
         (if remaining ts rs = [] \<and> \<not> g_should_poll s then map_option cli (interrupt (sti t))
          else Some (t\<lparr>g_should_poll := False\<rparr>))"
    using t(1) same_but_run_simps [OF t(4)] by (cases "interrupt (sti t)") (auto simp: executor_round_def)
  with t show ?thesis by blast
qed

text \<open>
  What the executor's loop needs of the rest of the kernel, and what it gives
  back: an invariant that a pass over the tasks, the interrupt flag, the poll
  flag and the console keep, and that every interrupt keeps as it returns.
\<close>

locale executor_environment =
  fixes L :: linker_map and E :: ptr and interrupt :: "'z async_scheme \<Rightarrow> 'z async_scheme option"
    and I :: "'z async_scheme \<Rightarrow> bool"
  assumes uart: "I s \<Longrightarrow> uart_drains (device s)"
    and pass: "I s \<Longrightarrow> \<exists>r t. poll_tasks L E s = Some (r, t) \<and> I t"
    and flags: "I s \<Longrightarrow> I (s\<lparr>if_flag := b\<rparr>)" "I s \<Longrightarrow> I (s\<lparr>g_should_poll := b\<rparr>)"
    and console: "I s \<Longrightarrow> same_but_console s t \<Longrightarrow> I t"
    and irq: "I s \<Longrightarrow> \<exists>t. interrupt s = Some t \<and> I t"
begin

lemma round_returns:
  assumes "I s"
  shows "\<exists>u. executor_round interrupt L E s = Some u \<and> I u"
proof -
  from pass [OF assms] obtain r t where t: "poll_tasks L E s = Some (r, t)" "I t" by blast
  from flags(1) [OF t(2), of True] obtain u where u: "interrupt (sti t) = Some u" "I u"
    using irq unfolding sti_def by blast
  have "I (cli u)" using flags(1) [OF u(2), of False] by (simp add: cli_def)
  with t u flags(2) show ?thesis by (auto simp: executor_round_def)
qed

lemma run_keeps:
  assumes "executor_run interrupt L E s t" and "I s"
  shows "I t"
  using assms(1)
proof (induction rule: executor_run.induct)
  case (start t)
  have "same_but_console s t"
    using literal_runs [of "''Starting async executor loop'' @ [LF]" s, OF _ uart [OF assms(2)]] start by auto
  then show ?case by (rule console [OF assms(2)])
next
  case (round t u)
  then show ?case using round_returns [OF round.IH] by auto
next
  case (irq t u)
  then show ?case using executor_environment.irq [OF executor_environment_axioms irq.IH] by auto
qed

lemma run_never_stuck:
  assumes "executor_run interrupt L E s t" and "I s"
  shows "I t \<and> (\<exists>u. executor_round interrupt L E t = Some u \<and> executor_run interrupt L E s u)"
  using run_keeps [OF assms] round_returns executor_run.round [OF assms(1)] by blast

end

definition exec_inv :: "linker_map \<Rightarrow> ptr \<Rightarrow> 'z async_scheme \<Rightarrow> bool" where
  "exec_inv L E s \<longleftrightarrow> (\<exists>segs ts bs. exec_ok L E s segs ts bs)"

lemma exec_inv_cong:
  "ram s = ram t \<Longrightarrow> first_free s = first_free t \<Longrightarrow> monotonic_time s = monotonic_time t \<Longrightarrow> device s = device t
     \<Longrightarrow> exec_inv L E s = exec_inv L E t"
  using exec_ok_cong [of s t L E] by (simp add: exec_inv_def)

lemma exec_inv_flags [simp]:
  "exec_inv L E (s\<lparr>if_flag := b\<rparr>) = exec_inv L E s" "exec_inv L E (s\<lparr>g_should_poll := b\<rparr>) = exec_inv L E s"
  "exec_inv L E (async_serial_interrupt_handler s) = exec_inv L E s"
  by (rule exec_inv_cong; simp add: async_serial_interrupt_handler_def executor_wake_up_def)+

lemma exec_inv_console: "same_but_console s t \<Longrightarrow> exec_inv L E (t :: 'z async_scheme) = exec_inv L E s"
  by (simp add: exec_inv_def exec_ok_console)

lemma exec_inv_uart: "exec_inv L E s \<Longrightarrow> uart_drains (device s)"
  by (auto simp: exec_inv_def exec_ok_def)

lemma exec_inv_pass: "vtables_distinct L \<Longrightarrow> exec_inv L E s \<Longrightarrow> \<exists>r t. poll_tasks L E s = Some (r, t) \<and> exec_inv L E t"
  using poll_tasks_runs unfolding exec_inv_def by blast

lemmas exec_inv_laws = exec_inv_console exec_inv_uart exec_inv_pass

lemma exec_inv_environment:
  fixes interrupt :: "'z async_scheme \<Rightarrow> 'z async_scheme option"
  assumes "vtables_distinct L" and "\<forall>s. exec_inv L E s \<longrightarrow> (\<exists>t. interrupt s = Some t \<and> exec_inv L E t)"
  shows "executor_environment L E interrupt (exec_inv L E)"
  by unfold_locales (use assms in \<open>simp_all add: exec_inv_laws\<close>)

text \<open>With the serial interrupt alone, which only asks for a poll.\<close>

interpretation serial_interrupts: executor_environment L E "\<lambda>s. Some (async_serial_interrupt_handler s)"
    "\<lambda>s. vtables_distinct L \<and> exec_inv L E s" for L E
  by unfold_locales (auto simp: exec_inv_console intro: exec_inv_uart dest: exec_inv_pass)

section \<open>Properties\<close>


lemma example_linker_distinct: "vtables_distinct example_linker"
  by (simp add: vtables_distinct_def example_linker_def)




text \<open>
  The executor runs on. If every interrupt returns and keeps the task queue
  well formed, then so does \<^verbatim>\<open>executor_run\<close>: in every state it reaches, through
  any interleaving of rounds and interrupts, the queue is well formed and the
  next round returns.
\<close>

theorem executor_run_invariant:
  fixes s :: "'z async_scheme"
  assumes "executor_run interrupt L E s t" and "vtables_distinct L" and "exec_inv L E s"
    and "\<forall>s. exec_inv L E s \<longrightarrow> (\<exists>t. interrupt s = Some t \<and> exec_inv L E t)"
  shows "exec_inv L E t \<and> (\<exists>u. executor_round interrupt L E t = Some u \<and> executor_run interrupt L E s u)"
  by (rule executor_environment.run_never_stuck [OF exec_inv_environment [OF assms(2,4)] assms(1,3)])

theorem executor_run_invariant_witness:
  "\<exists>t. executor_run (\<lambda>s. Some (async_serial_interrupt_handler s)) example_linker 0x160 (exec_example uart_ready) t
     \<and> (\<exists>u. executor_round (\<lambda>s. Some (async_serial_interrupt_handler s)) example_linker 0x160 t = Some u)"
proof -
  let ?irq = "\<lambda>s. Some (async_serial_interrupt_handler s)" and ?s = "exec_example uart_ready"
  have inv: "exec_inv example_linker 0x160 ?s" using exec_example_ok [OF uart_drains_ready] by (auto simp: exec_inv_def)
  have "device ?s = uart_ready" by (simp add: exec_example_def)
  then obtain t where "output_string (''Starting async executor loop'' @ [LF]) ?s = Some t"
    using literal_runs [of "''Starting async executor loop'' @ [LF]" ?s] by auto
  then have "executor_run ?irq example_linker 0x160 ?s t" by (rule executor_run.start)
  with executor_run_invariant [OF this example_linker_distinct inv] show ?thesis by auto
qed


text \<open>An empty queue, and a sleep future for tick 9 that nobody has spawned yet.\<close>

definition spawn_example :: "device_fn \<Rightarrow> async" where
  "spawn_example d = (async_boot d)\<lparr>first_free := 0x1000, monotonic_time := 0x2010,
     ram := fold (\<lambda>(a, v). store32 a v)
       [(0x1000, 0x100), (0x200C, 8), (0x2010, 5), (0x3024, 20), (0x3028, 0x130), (0x3034, 9)] (\<lambda>_. 0)\<rparr>"

lemma spawn_example_fields:
  "load32 (ram (spawn_example d)) 0x160 = 0" "load32 (ram (spawn_example d)) 0x168 = 0"
  "load32 (ram (spawn_example d)) 0x1000 = 0x100" "load32 (ram (spawn_example d)) 0x1004 = 0"
  "load32 (ram (spawn_example d)) 0x200C = 8" "load32 (ram (spawn_example d)) 0x3024 = 20"
  "load32 (ram (spawn_example d)) 0x3028 = 0x130" "ram (spawn_example d) 0x302C = 0"
  "monotonic_time (spawn_example d) = 0x2010" "first_free (spawn_example d) = 0x1000" "device (spawn_example d) = d"
  by (simp_all add: spawn_example_def apart4_def load32_zero) (simp add: store32_def)

lemma spawn_example_list: "free_list (spawn_example d) [(0x1000, 0x100)]"
  by (simp add: free_list_def seg_size_def seg_next_def spawn_example_fields)

lemma spawn_example_heap: "heap_blocks (spawn_example d) [(0x1000, 0x100)] [(0x3028, 16), (0x2010, 4)]"
proof -
  have "in_use_blocks (spawn_example d) [(0x1000, 0x100)] [(0x3028, 16), (0x2010, 4)]"
    unfolding in_use_blocks_def
    by (simp add: spawn_example_list live_def spawn_example_fields extent_disjointI extent_intervalI)
  then show ?thesis by (simp add: heap_blocks_def extent_intervalI)
qed


text \<open>
  C27 (asynchronous serial output). Polling a serial write future returns. With a
  free transmitter it sends exactly the next byte of its data and moves on; it
  is ready when none is left. With a busy transmitter it sends nothing and
  stays pending.
\<close>

theorem async_serial_write_poll_sends:
  fixes s :: "'z async_scheme"
  assumes "uart_drains (device s)" and "unat f + 24 \<le> 2 ^ 32" and "unat (field f 12 s) + unat (field f 16 s) \<le> 2 ^ 32"
    and "bytes_at (field f 12 s) (unat (field f 16 s)) \<inter> bytes_of f 20 = {}"
  shows "\<exists>r t. async_serial_write_poll f s = Some (r, t) \<and> same_but_run s t
     \<and> (if to_send f s = [] then r = FUTURE_READY \<and> t = s
        else if tx_empty (device s) (trace s)
          then sent t = sent s @ [hd (to_send f s)] \<and> to_send f t = tl (to_send f s)
            \<and> (r = FUTURE_READY \<longleftrightarrow> to_send f t = [])
          else r = FUTURE_PENDING \<and> sent t = sent s \<and> to_send f t = to_send f s)"
proof -
  have some: "to_send f s = [] \<longleftrightarrow> \<not> field f 20 s < field f 16 s"
    by (auto simp: to_send_def word_less_nat_alt)
  consider (sent_all) "to_send f s = []" | (send) "field f 20 s < field f 16 s" "tx_empty (device s) (trace s)"
    | (busy) "field f 20 s < field f 16 s" "\<not> tx_empty (device s) (trace s)" using some by blast
  then show ?thesis
  proof cases
    case sent_all
    then show ?thesis using some by (simp add: async_serial_write_poll_def)
  next
    case send
    with serial_poll_sends [OF assms] some show ?thesis by fastforce
  next
    case busy
    let ?t = "s\<lparr>trace := In SERIAL_LINE_STATUS (device s (trace s) SERIAL_LINE_STATUS) # trace s\<rparr>"
    have "serial_is_transmit_empty s = (0, ?t)"
      using busy(2) by (simp add: serial_is_transmit_empty_def in_b_def tx_empty_def Let_def)
    then have "async_serial_write_poll f s = Some (FUTURE_PENDING, ?t)" using busy(1) by (simp add: async_serial_write_poll_def)
    moreover have "same_but_run s ?t" by (simp add: same_but_run_def)
    moreover have "sent ?t = sent s" "to_send f ?t = to_send f s" by (simp_all add: sent_def to_send_def field_def get_byte_def)
    ultimately show ?thesis using busy some by auto
  qed
qed

definition serial_example :: "device_fn \<Rightarrow> async" where
  "serial_example d = (async_boot d)\<lparr>ram := ((store32 0x300C 0x4000 (store32 0x3010 2 (\<lambda>_. 0)))(0x4000 := 104, 0x4001 := 105))\<rparr>"

theorem async_serial_write_poll_sends_witness:
  "\<exists>t. async_serial_write_poll 0x3000 (serial_example uart_ready) = Some (FUTURE_PENDING, t)
     \<and> sent t = [104] \<and> to_send 0x3000 t = [105]"
proof -
  let ?s = "serial_example uart_ready"
  have f: "field 0x3000 12 ?s = 0x4000" "field 0x3000 16 ?s = 2" "field 0x3000 20 ?s = 0"
    by (simp_all add: serial_example_def field_def load32_def store32_def)
  have b: "get_byte 0x4000 ?s = 104" "get_byte 0x4001 ?s = 105" by (simp_all add: serial_example_def get_byte_def)
  have snd: "to_send 0x3000 ?s = [104, 105]"
    by (simp add: to_send_def f b upt_rec)
  have d: "device ?s = uart_ready" "trace ?s = []" "sent ?s = []" by (simp_all add: serial_example_def sent_def)
  have "tx_empty uart_ready []" by (simp add: tx_empty_def uart_ready_def)
  moreover have "bytes_at 0x4000 2 \<inter> bytes_of 0x3000 20 = {}" by (auto simp: bytes_at_def bytes_of_def)
  ultimately obtain r t where "async_serial_write_poll 0x3000 ?s = Some (r, t)" "sent t = [104]" "to_send 0x3000 t = [105]"
      "r = FUTURE_READY \<longleftrightarrow> to_send 0x3000 t = []"
    using async_serial_write_poll_sends [of ?s "0x3000"] by (auto simp: f snd d)
  then show ?thesis by (cases r) auto
qed

text \<open>A completed clock future at \<open>0x3068\<close> whose task is at \<open>0x3008\<close>, on a heap with an empty free list.\<close>

definition rtc_task_example :: "device_fn \<Rightarrow> async" where
  "rtc_task_example d = (async_boot d)\<lparr>ram := fold (\<lambda>(a, v). store32 a v)
     [(0x160, 0), (0x168, 1), (0x3004, 12), (0x3008, 0x3068), (0x300C, 0), (0x3064, 32), (0x3068, 0x150), (0x3070, 0)]
     (\<lambda>_. 0)\<rparr>"

lemma cyclic_no_list:
  assumes "seg_next (ram s) p = p" and "p \<noteq> 0"
  shows "\<not> path (ram s) p xs 0"
  using assms by (induction xs) auto


end
