(* ===== verification/Test_Harness.thy ===== *)
theory Test_Harness
  imports Executor_Runs
begin

text \<open>
  The test harness of the kernel (\<^verbatim>\<open>test.c\<close>, \<^verbatim>\<open>test.h\<close>): assertions that print and
  count, and the runner that calls each test, adds up the counts and prints the
  verdict.
\<close>

section \<open>Assertions and the runner\<close>

record test_state = async +
  tests_passed :: u32
  tests_failed :: u32

definition test_assert :: "u32 \<Rightarrow> string \<Rightarrow> string \<Rightarrow> u32 \<Rightarrow> 'z test_state_scheme \<Rightarrow> 'z test_state_scheme option" where
  "test_assert condition msg file line s =
     (if condition \<noteq> 0 then
        do { s \<leftarrow> output_string ''PASS: '' s;
             s \<leftarrow> output_string msg s;
             s \<leftarrow> output_string '' ('' s;
             s \<leftarrow> output_string file s;
             s \<leftarrow> output_string '':'' s;
             s \<leftarrow> put_i32 line s;
             s \<leftarrow> output_string ('')'' @ [LF]) s;
             Some (s\<lparr>tests_passed := tests_passed s + 1\<rparr>) }
      else
        do { s \<leftarrow> output_string ''FAIL: '' s;
             s \<leftarrow> output_string msg s;
             s \<leftarrow> output_string '' ('' s;
             s \<leftarrow> output_string file s;
             s \<leftarrow> output_string '':'' s;
             s \<leftarrow> put_i32 line s;
             s \<leftarrow> output_string ('')'' @ [LF]) s;
             Some (s\<lparr>tests_failed := tests_failed s + 1\<rparr>) })"

definition test_assert_equal ::
    "u32 \<Rightarrow> u32 \<Rightarrow> string \<Rightarrow> string \<Rightarrow> u32 \<Rightarrow> 'z test_state_scheme \<Rightarrow> 'z test_state_scheme option" where
  "test_assert_equal expected actual msg file line s =
     (if expected = actual then
        do { s \<leftarrow> output_string ''PASS: '' s;
             s \<leftarrow> output_string msg s;
             s \<leftarrow> output_string '' ('' s;
             s \<leftarrow> output_string file s;
             s \<leftarrow> output_string '':'' s;
             s \<leftarrow> put_i32 line s;
             s \<leftarrow> output_string '') Expected: '' s;
             s \<leftarrow> put_i32 expected s;
             s \<leftarrow> output_string '', Actual: '' s;
             s \<leftarrow> put_i32 actual s;
             s \<leftarrow> output_string [LF] s;
             Some (s\<lparr>tests_passed := tests_passed s + 1\<rparr>) }
      else
        do { s \<leftarrow> output_string ''FAIL: '' s;
             s \<leftarrow> output_string msg s;
             s \<leftarrow> output_string '' ('' s;
             s \<leftarrow> output_string file s;
             s \<leftarrow> output_string '':'' s;
             s \<leftarrow> put_i32 line s;
             s \<leftarrow> output_string '') Expected: '' s;
             s \<leftarrow> put_i32 expected s;
             s \<leftarrow> output_string '', Actual: '' s;
             s \<leftarrow> put_i32 actual s;
             s \<leftarrow> output_string [LF] s;
             Some (s\<lparr>tests_failed := tests_failed s + 1\<rparr>) })"

text \<open>A \<^verbatim>\<open>test_entry_t\<close> is the name of a test and its function.\<close>

type_synonym 's test_entry = "string \<times> ('s \<Rightarrow> 's option)"

fun run_test_entries :: "'z test_state_scheme test_entry list \<Rightarrow> 'z test_state_scheme \<Rightarrow> 'z test_state_scheme option" where
  "run_test_entries [] s = Some s"
| "run_test_entries ((name, func) # tests) s =
     do { s \<leftarrow> output_string ''Running test: '' s;
          s \<leftarrow> output_string name s;
          s \<leftarrow> output_string [LF] s;
          s \<leftarrow> func s;
          run_test_entries tests s }"

text \<open>The caller passes the length of the array as \<^verbatim>\<open>num_tests\<close>.\<close>

definition run_tests :: "'z test_state_scheme test_entry list \<Rightarrow> 'z test_state_scheme \<Rightarrow> 'z test_state_scheme option" where
  "run_tests tests s =
     do { let s = s\<lparr>tests_passed := 0, tests_failed := 0\<rparr>;
          s \<leftarrow> output_string ''Running '' s;
          s \<leftarrow> put_i32 (of_nat (length tests)) s;
          s \<leftarrow> output_string ('' tests...'' @ [LF, LF]) s;
          s \<leftarrow> run_test_entries tests s;
          s \<leftarrow> output_string (LF # ''Test Results: '') s;
          s \<leftarrow> put_i32 (tests_passed s) s;
          s \<leftarrow> output_string '' passed, '' s;
          s \<leftarrow> put_i32 (tests_failed s) s;
          s \<leftarrow> output_string ('' failed'' @ [LF]) s;
          if tests_failed s = 0
          then output_string (''All tests passed!'' @ [LF]) s
          else output_string (''Some tests failed!'' @ [LF]) s }"

definition exit_after_all_tests :: "u32 \<Rightarrow> 'z machine_scheme \<Rightarrow> 'z machine_scheme" where
  "exit_after_all_tests exit_code s = exit_qemu (ucast exit_code) s"

section \<open>Counting\<close>

text \<open>
  A test that always returns, with the number of its assertions that hold and
  that fail, and leaves the devices alone.
\<close>

definition scores :: "('z test_state_scheme \<Rightarrow> 'z test_state_scheme option) \<Rightarrow> u32 \<Rightarrow> u32 \<Rightarrow> bool" where
  "scores f p q \<longleftrightarrow> (\<forall>s. uart_drains (device s) \<longrightarrow> (\<exists>t. f s = Some t \<and> uart_drains (device t)
     \<and> tests_passed t = tests_passed s + p \<and> tests_failed t = tests_failed s + q))"

lemma scores_seq:
  assumes "scores f p q" and "scores g p' q'"
  shows "scores (\<lambda>s. Option.bind (f s) g) (p + p') (q + q')"
  unfolding scores_def
proof (intro allI impI)
  fix s :: "'a test_state_scheme"
  assume "uart_drains (device s)"
  with assms(1) obtain t where t: "f s = Some t" "uart_drains (device t)" "tests_passed t = tests_passed s + p"
    "tests_failed t = tests_failed s + q" unfolding scores_def by blast
  moreover from assms(2) t(2) obtain u where "g t = Some u" "uart_drains (device u)" "tests_passed u = tests_passed t + p'"
    "tests_failed u = tests_failed t + q'" unfolding scores_def by blast
  ultimately show "\<exists>u. Option.bind (f s) g = Some u \<and> uart_drains (device u)
      \<and> tests_passed u = tests_passed s + (p + p') \<and> tests_failed u = tests_failed s + (q + q')"
    by (simp add: add.assoc)
qed

lemma scores_prints: "prints f str \<Longrightarrow> scores f 0 0"
  unfolding scores_def
proof (intro allI impI)
  fix s :: "'a test_state_scheme"
  assume "prints f str" "uart_drains (device s)"
  then obtain t where t: "f s = Some t" "same_but_console s t" "uart_drains (device t)" by (rule printsD)
  moreover have "tests_passed t = tests_passed s" "tests_failed t = tests_failed s"
    using t(2) by (cases s; cases t; simp add: same_but_console_def)+
  ultimately show "\<exists>t. f s = Some t \<and> uart_drains (device t) \<and> tests_passed t = tests_passed s + 0
      \<and> tests_failed t = tests_failed s + 0" by simp
qed

lemma scores_output_string: "scores (output_string str) 0 0"
  by (rule scores_prints [OF prints_output_string])

lemma prints_put_i32_any: "\<exists>str. prints (put_i32 n) str"
  using prints_output_string [of "int_to_string n"] by (auto simp: put_i32_def [abs_def])

lemma scores_put_i32: "scores (put_i32 n) 0 0"
  using prints_put_i32_any [of n] scores_prints by blast

lemma scores_passed: "scores (\<lambda>s. Some (s\<lparr>tests_passed := tests_passed s + 1\<rparr>)) 1 0"
  "scores (\<lambda>s. Some (s\<lparr>tests_failed := tests_failed s + 1\<rparr>)) 0 1"
  by (simp_all add: scores_def)

lemmas scores_rules = scores_seq scores_output_string scores_put_i32 scores_passed

lemma scores_eq: "scores f p q \<Longrightarrow> p = p' \<Longrightarrow> q = q' \<Longrightarrow> scores f p' q'"
  by simp

lemma scores_test_assert: "scores (test_assert c msg file line) (if c \<noteq> 0 then 1 else 0) (if c \<noteq> 0 then 0 else 1)"
proof (cases "c = 0")
  case True
  have "scores (\<lambda>s. test_assert 0 msg file line s) 0 1"
    unfolding test_assert_def by simp (rule scores_eq, (rule scores_rules)+, simp_all)
  with True show ?thesis by simp
next
  case False
  have "scores (\<lambda>s. test_assert c msg file line s) 1 0"
    unfolding test_assert_def using False by simp (rule scores_eq, (rule scores_rules)+, simp_all)
  with False show ?thesis by simp
qed

lemma scores_test_assert_equal:
  "scores (test_assert_equal a b msg file line) (if a = b then 1 else 0) (if a = b then 0 else 1)"
proof (cases "a = b")
  case True
  have "scores (\<lambda>s. test_assert_equal b b msg file line s) 1 0"
    unfolding test_assert_equal_def by simp (rule scores_eq, (rule scores_rules)+, simp_all)
  with True show ?thesis by simp
next
  case False
  have "scores (\<lambda>s. test_assert_equal a b msg file line s) 0 1"
    unfolding test_assert_equal_def using False by simp (rule scores_eq, (rule scores_rules)+, simp_all)
  with False show ?thesis by simp
qed

lemma scores_run_test_entries:
  "list_all2 (\<lambda>(name, f) (p, q). scores f p q) tests ns
     \<Longrightarrow> scores (run_test_entries tests) (sum_list (map fst ns)) (sum_list (map snd ns))"
proof (induction tests ns rule: list_all2_induct)
  case Nil
  then show ?case by (simp add: scores_def)
next
  case (Cons x xs y ys)
  obtain name f p q where d: "x = (name, f)" "y = (p, q)" by (cases x; cases y) auto
  have f: "scores f p q" using Cons d by simp
  have "scores (\<lambda>s. run_test_entries ((name, f) # xs) s) (p + sum_list (map fst ys)) (q + sum_list (map snd ys))"
    unfolding run_test_entries.simps
    by (rule scores_eq, (rule scores_seq scores_output_string f Cons.IH)+, simp_all)
  with d show ?case by simp
qed

section \<open>Properties\<close>

text \<open>
  C38 (the test runner). If every test returns and its assertions hold and fail
  a fixed number of times, \<^verbatim>\<open>run_tests\<close> returns with the two counters at the sums
  over all tests, and ends with the verdict that all tests passed exactly when
  no assertion failed.
\<close>

theorem run_tests_counts:
  fixes s :: "'z test_state_scheme"
  assumes "list_all2 (\<lambda>(name, f) (p, q). scores f p q) tests ns" and "uart_drains (device s)"
  shows "\<exists>t out. run_tests tests s = Some t
     \<and> tests_passed t = sum_list (map fst ns) \<and> tests_failed t = sum_list (map snd ns)
     \<and> sent t = out @ map of_char (crlf (if sum_list (map snd ns) = 0 then ''All tests passed!'' @ [LF]
                                          else ''Some tests failed!'' @ [LF]))"
proof -
  let ?s = "s\<lparr>tests_passed := 0, tests_failed := 0\<rparr>" and ?p = "sum_list (map fst ns)" and ?q = "sum_list (map snd ns)"
  define head where "head s = do { s \<leftarrow> output_string ''Running '' s;
      s \<leftarrow> put_i32 (of_nat (length tests)) s;
      s \<leftarrow> output_string ('' tests...'' @ [LF, LF]) s;
      run_test_entries tests s }" for s :: "'z test_state_scheme"
  have h: "scores head ?p ?q"
    unfolding head_def [abs_def]
    by (rule scores_eq, (rule scores_seq scores_output_string scores_put_i32 scores_run_test_entries [OF assms(1)])+, simp_all)
  have "uart_drains (device ?s)" using assms(2) by simp
  with h obtain t where t: "head ?s = Some t" "uart_drains (device t)" "tests_passed t = ?p" "tests_failed t = ?q"
    unfolding scores_def by fastforce
  have step: "\<exists>u. f v = Some u \<and> uart_drains (device u) \<and> tests_passed u = tests_passed v \<and> tests_failed u = tests_failed v"
    if "scores f 0 0" "uart_drains (device v)" for f and v :: "'z test_state_scheme"
    using that by (simp add: scores_def)
  define text1 text2 text3 where "text1 = LF # ''Test Results: ''" and "text2 = '' passed, ''" and "text3 = '' failed'' @ [LF]"
  define verdict where "verdict = (if ?q = 0 then ''All tests passed!'' @ [LF] else ''Some tests failed!'' @ [LF])"
  from step [OF scores_output_string t(2)] obtain t1 where 1: "output_string text1 t = Some t1" "uart_drains (device t1)"
    "tests_passed t1 = tests_passed t" "tests_failed t1 = tests_failed t" by blast
  from step [OF scores_put_i32 1(2)] obtain t2 where 2: "put_i32 (tests_passed t1) t1 = Some t2" "uart_drains (device t2)"
    "tests_passed t2 = tests_passed t1" "tests_failed t2 = tests_failed t1" by blast
  from step [OF scores_output_string 2(2)] obtain t3 where 3: "output_string text2 t2 = Some t3" "uart_drains (device t3)"
    "tests_passed t3 = tests_passed t2" "tests_failed t3 = tests_failed t2" by blast
  from step [OF scores_put_i32 3(2)] obtain t4 where 4: "put_i32 (tests_failed t3) t3 = Some t4" "uart_drains (device t4)"
    "tests_passed t4 = tests_passed t3" "tests_failed t4 = tests_failed t3" by blast
  from step [OF scores_output_string 4(2)] obtain t5 where 5: "output_string text3 t4 = Some t5" "uart_drains (device t5)"
    "tests_passed t5 = tests_passed t4" "tests_failed t5 = tests_failed t4" by blast
  have nul: "NUL \<notin> set verdict" by (simp add: verdict_def)
  from literal_runs [OF nul 5(2)] obtain u where
    u: "output_string verdict t5 = Some u" "same_but_console t5 u" "sent u = sent t5 @ map of_char (crlf verdict)" .
  have cnt: "tests_passed u = ?p" "tests_failed u = ?q"
    using u(2) t(3,4) 1(3,4) 2(3,4) 3(3,4) 4(3,4) 5(3,4) by (cases t5; cases u; simp add: same_but_console_def)+
  have "run_tests tests s = Option.bind (head ?s) (\<lambda>s. do { s \<leftarrow> output_string text1 s;
          s \<leftarrow> put_i32 (tests_passed s) s;
          s \<leftarrow> output_string text2 s;
          s \<leftarrow> put_i32 (tests_failed s) s;
          s \<leftarrow> output_string text3 s;
          if tests_failed s = 0
          then output_string (''All tests passed!'' @ [LF]) s
          else output_string (''Some tests failed!'' @ [LF]) s })"
    by (simp add: run_tests_def head_def text1_def text2_def text3_def)
  also have "\<dots> = Some u"
    using t(1,4) 1 2 3 4 5 u(1) by (simp add: verdict_def split: if_splits)
  finally show ?thesis using cnt u(3) unfolding verdict_def by blast
qed

definition test_boot :: "device_fn \<Rightarrow> test_state" where
  "test_boot d = async.extend (async_boot d) \<lparr>tests_passed = 0, tests_failed = 0\<rparr>"

theorem run_tests_counts_witness:
  "\<exists>t. run_tests [(''one'', test_assert 1 ''holds'' ''file'' 1), (''two'', test_assert_equal 2 3 ''fails'' ''file'' 2)]
      (test_boot uart_ready) = Some t \<and> tests_passed t = 1 \<and> tests_failed t = 1"
proof -
  let ?tests = "[(''one'', test_assert 1 ''holds'' ''file'' 1), (''two'', test_assert_equal 2 3 ''fails'' ''file'' 2)]
    :: test_state test_entry list"
  have a: "scores (test_assert 1 ''holds'' ''file'' 1 :: test_state \<Rightarrow> _) 1 0"
    using scores_test_assert [of 1 "''holds''" "''file''" 1] by simp
  have b: "scores (test_assert_equal 2 3 ''fails'' ''file'' 2 :: test_state \<Rightarrow> _) 0 1"
    using scores_test_assert_equal [of 2 3 "''fails''" "''file''" 2] by simp
  have "list_all2 (\<lambda>(name, f) (p, q). scores f p q) ?tests [(1, 0), (0, 1)]"
    using a b by simp
  moreover have "uart_drains (device (test_boot uart_ready))"
    by (simp add: test_boot_def async_boot_def test_state.defs async.defs idt_state.defs boot_defs)
  ultimately show ?thesis using run_tests_counts [of ?tests "[(1, 0), (0, 1)]" "test_boot uart_ready"] by auto
qed

end
