(* ===== verification/Kernel.thy ===== *)
theory Kernel
  imports Test_Harness
begin

text \<open>
  The kernel itself (\<^verbatim>\<open>kernel.c\<close>): its interrupt handlers, its tests and the
  sequence of \<^verbatim>\<open>kernel_main\<close>, which brings up every component and ends in the
  executor's loop.
\<close>

section \<open>Interrupt handlers\<close>

definition rtc_interrupt_handler :: "linker_map \<Rightarrow> 'z async_scheme \<Rightarrow> 'z async_scheme option" where
  "rtc_interrupt_handler L s =
     do { let s = s\<lparr>system_tick_count := system_tick_count s + 1\<rparr>;
          let s = monotonic_time_increment_global s;
          let s = (if system_rtc_instance s \<noteq> 0 then clear_rtc_interrupt (system_rtc_instance s) s
                   else acknowledge_rtc_interrupt s);
          let s = s\<lparr>rtc_interrupt_count := rtc_interrupt_count s + 1\<rparr>;
          s \<leftarrow> wake_up_list_check_and_execute L s;
          s \<leftarrow> (if system_tick_count s mod 256 = 0 then output_string ''.'' s else Some s);
          Some (pic_send_eoi 0x48 s) }"

definition custom_interrupt_handler :: "'z async_scheme \<Rightarrow> 'z async_scheme option" where
  "custom_interrupt_handler s =
     do { let s = s\<lparr>custom_handler_called := custom_handler_called s + 1\<rparr>;
          s \<leftarrow> output_string ''Custom interrupt 0x81 handler called! Count: '' s;
          s \<leftarrow> put_u32 (custom_handler_called s) s;
          output_string [LF] s }"

text \<open>
  A call through a registered handler runs the function at that address. An
  interrupt gate runs its handler with interrupts disabled; returning from it
  restores the flag.
\<close>

definition call_handler :: "linker_map \<Rightarrow> ptr \<Rightarrow> 'z async_scheme \<Rightarrow> 'z async_scheme option" where
  "call_handler L p s =
     (if p = sym_rtc_interrupt_handler L then rtc_interrupt_handler L s
      else if p = sym_custom_interrupt_handler L then custom_interrupt_handler s
      else if p = sym_async_serial_interrupt_handler L then Some (async_serial_interrupt_handler s)
      else None)"

definition take_interrupt :: "linker_map \<Rightarrow> u8 \<Rightarrow> 'z async_scheme \<Rightarrow> 'z async_scheme option" where
  "take_interrupt L vector s =
     do { let enabled = if_flag s;
          s \<leftarrow> generic_interrupt_handler_no_error_code (call_handler L) vector (cli s);
          Some (s\<lparr>if_flag := enabled\<rparr>) }"

section \<open>The tests of the kernel\<close>

abbreviation kernel_file :: string where
  "kernel_file \<equiv> ''src/kernel.c''"

definition assert_here :: "bool \<Rightarrow> string \<Rightarrow> u32 \<Rightarrow> 'z test_state_scheme \<Rightarrow> 'z test_state_scheme option" where
  "assert_here b msg line s = test_assert (if b then 1 else 0) msg kernel_file line s"

definition assert_equal_here :: "u32 \<Rightarrow> u32 \<Rightarrow> string \<Rightarrow> u32 \<Rightarrow> 'z test_state_scheme \<Rightarrow> 'z test_state_scheme option" where
  "assert_equal_here expected actual msg line s = test_assert_equal expected actual msg kernel_file line s"

definition test_memory_alloc_basic :: "'z test_state_scheme \<Rightarrow> 'z test_state_scheme option" where
  "test_memory_alloc_basic s =
     do { (p, s) \<leftarrow> malloc 10 s;
          s \<leftarrow> assert_here (p \<noteq> 0) ''Basic allocation should succeed'' 247 s;
          if p \<noteq> 0 then free p s else Some s }"

definition test_memory_alloc_zero :: "'z test_state_scheme \<Rightarrow> 'z test_state_scheme option" where
  "test_memory_alloc_zero s =
     do { (p, s) \<leftarrow> malloc 0 s;
          if p \<noteq> 0 then free p s else Some s }"

fun check_numbers :: "ptr \<Rightarrow> nat list \<Rightarrow> 'z test_state_scheme \<Rightarrow> 'z test_state_scheme option" where
  "check_numbers numbers [] s = Some s"
| "check_numbers numbers (i # is) s =
     do { s \<leftarrow> assert_equal_here (of_nat i * 10) (field numbers (4 * of_nat i) s) ''Array values should be correct'' 271 s;
          check_numbers numbers is s }"

definition test_memory_alloc_and_free :: "'z test_state_scheme \<Rightarrow> 'z test_state_scheme option" where
  "test_memory_alloc_and_free s =
     do { (numbers, s) \<leftarrow> malloc (5 * 4) s;
          s \<leftarrow> assert_here (numbers \<noteq> 0) ''Array allocation should succeed'' 262 s;
          if numbers \<noteq> 0 then
            do { let s = for_up 0 5 (\<lambda>i s. set_field numbers (4 * of_nat i) (of_nat i * 10) s) s;
                 s \<leftarrow> check_numbers numbers [0, 1, 2, 3, 4] s;
                 free numbers s }
          else Some s }"

definition test_memory_multiple_alloc_free :: "'z test_state_scheme \<Rightarrow> 'z test_state_scheme option" where
  "test_memory_multiple_alloc_free s =
     do { (str1, s) \<leftarrow> malloc 20 s;
          (arr1, s) \<leftarrow> malloc (10 * 4) s;
          (str2, s) \<leftarrow> malloc 30 s;
          s \<leftarrow> assert_here (str1 \<noteq> 0) ''First string allocation should succeed'' 283 s;
          s \<leftarrow> assert_here (arr1 \<noteq> 0) ''Array allocation should succeed'' 284 s;
          s \<leftarrow> assert_here (str2 \<noteq> 0) ''Second string allocation should succeed'' 285 s;
          if str1 \<noteq> 0 \<and> arr1 \<noteq> 0 \<and> str2 \<noteq> 0 then
            do { let s = set_byte str1 0x41 s;
                 let s = set_field arr1 0 100 s;
                 let s = set_byte str2 0x42 s;
                 s \<leftarrow> assert_equal_here 0x41 (scast (get_byte str1 s)) ''First string should hold value'' 292 s;
                 s \<leftarrow> assert_equal_here 100 (field arr1 0 s) ''Array should hold value'' 293 s;
                 s \<leftarrow> assert_equal_here 0x42 (scast (get_byte str2 s)) ''Second string should hold value'' 294 s;
                 s \<leftarrow> free arr1 s;
                 s \<leftarrow> free str1 s;
                 free str2 s }
          else Some s }"

text \<open>
  The bytes \<^verbatim>\<open>read_rtc_time\<close> fills are on the stack; \<open>stk\<close> is where the locals of
  the test are.
\<close>

definition print_time :: "ptr \<Rightarrow> ptr \<Rightarrow> ptr \<Rightarrow> 'z test_state_scheme \<Rightarrow> 'z test_state_scheme option" where
  "print_time hours minutes seconds s =
     do { s \<leftarrow> put_u32 (ucast (get_byte hours s)) s;
          s \<leftarrow> output_string '':'' s;
          s \<leftarrow> put_u32 (ucast (get_byte minutes s)) s;
          s \<leftarrow> output_string '':'' s;
          s \<leftarrow> put_u32 (ucast (get_byte seconds s)) s;
          output_string [LF] s }"

definition close_rtc :: "ptr \<Rightarrow> 'z async_scheme \<Rightarrow> 'z async_scheme option" where
  "close_rtc rtc s =
     (let s = release_port (control_port (rtc_drivers s rtc)) s;
          s = release_port (data_port (rtc_drivers s rtc)) s
      in free rtc s)"

definition rtc_write_check :: "ptr \<Rightarrow> ptr \<Rightarrow> 'z test_state_scheme \<Rightarrow> 'z test_state_scheme option" where
  "rtc_write_check stk rtc s =
     (let sec = get_byte stk s; mins = get_byte (stk + 1) s; hour = get_byte (stk + 2) s in
      if hour \<le> 23 \<and> mins \<le> 59 \<and> sec \<le> 59 then
        do { let new_hour = (if hour > 0 then hour - 1 else 23);
             (result, s) \<leftarrow> write_rtc_time rtc sec mins new_hour s;
             s \<leftarrow> assert_here (result \<noteq> -1) ''Writing RTC time should succeed'' 326 s;
             s \<leftarrow> output_string (''RTC time write completed'' @ [LF]) s;
             (result, s) \<leftarrow> read_rtc_time rtc (stk + 3) (stk + 4) (stk + 5) s;
             s \<leftarrow> assert_here (result \<noteq> -1) ''Reading RTC time after write should succeed'' 331 s;
             s \<leftarrow> output_string ''RTC Time after write attempt: '' s;
             print_time (stk + 5) (stk + 4) (stk + 3) s }
      else output_string (''Warning: Invalid time data returned, skipping write test'' @ [LF]) s)"

definition test_rtc_basic_init :: "ptr \<Rightarrow> 'z test_state_scheme \<Rightarrow> 'z test_state_scheme option" where
  "test_rtc_basic_init stk s =
     do { s \<leftarrow> output_string (''Attempting to initialize RTC...'' @ [LF]) s;
          (rtc, s) \<leftarrow> init_rtc s;
          s \<leftarrow> assert_here (rtc \<noteq> 0) ''RTC initialization should succeed'' 305 s;
          if rtc \<noteq> 0 then
            do { s \<leftarrow> output_string (''RTC initialized successfully, attempting to read time...'' @ [LF]) s;
                 (result, s) \<leftarrow> read_rtc_time rtc stk (stk + 1) (stk + 2) s;
                 s \<leftarrow> assert_here (result \<noteq> -1) ''Reading RTC time should succeed'' 312 s;
                 s \<leftarrow> output_string ''RTC Time read: '' s;
                 s \<leftarrow> print_time (stk + 2) (stk + 1) stk s;
                 s \<leftarrow> rtc_write_check stk rtc s;
                 s \<leftarrow> close_rtc rtc s;
                 output_string (''RTC cleanup completed'' @ [LF]) s }
          else output_string (''RTC initialization failed'' @ [LF]) s }"

definition test_rtc_interrupt_registration :: "linker_map \<Rightarrow> 'z test_state_scheme \<Rightarrow> 'z test_state_scheme option" where
  "test_rtc_interrupt_registration L s =
     do { s \<leftarrow> output_string (''Testing RTC interrupt registration...'' @ [LF]) s;
          (rtc, s) \<leftarrow> init_rtc s;
          s \<leftarrow> assert_here (rtc \<noteq> 0) ''RTC initialization should succeed for interrupt test'' 356 s;
          if rtc \<noteq> 0 then
            do { (result, s) \<leftarrow> enable_rtc_interrupts rtc (sym_rtc_interrupt_handler L) s;
                 s \<leftarrow> (if result = 0 then
                        do { s \<leftarrow> output_string (''RTC interrupts enabled successfully'' @ [LF]) s;
                             s \<leftarrow> output_string (''RTC interrupt handler registered successfully'' @ [LF]) s;
                             Some (snd (disable_rtc_interrupts rtc s)) }
                      else
                        do { s \<leftarrow> output_string (''RTC interrupt enable failed'' @ [LF]) s;
                             assert_here False ''RTC interrupt registration should succeed'' 368 s });
                 close_rtc rtc s }
          else assert_here False ''RTC initialization failed for interrupt test'' 375 s }"

definition run_memory_tests :: "'z test_state_scheme \<Rightarrow> 'z test_state_scheme option" where
  "run_memory_tests s =
     run_tests [(''memory_alloc_basic'', test_memory_alloc_basic), (''memory_alloc_zero'', test_memory_alloc_zero),
       (''memory_alloc_and_free'', test_memory_alloc_and_free),
       (''memory_multiple_alloc_free'', test_memory_multiple_alloc_free)] s"

definition run_rtc_tests :: "linker_map \<Rightarrow> ptr \<Rightarrow> 'z test_state_scheme \<Rightarrow> 'z test_state_scheme option" where
  "run_rtc_tests L stk s =
     run_tests [(''rtc_basic_init'', test_rtc_basic_init stk),
       (''rtc_interrupt_registration'', test_rtc_interrupt_registration L)] s"

section \<open>The kernel\<close>

text \<open>
  \<^verbatim>\<open>my_strlen\<close>, on the bytes at an address: the length is the position of the
  first zero byte.
\<close>

partial_function (option) strlen_loop :: "ram \<Rightarrow> ptr \<Rightarrow> u32 \<Rightarrow> u32 option" where
  "strlen_loop m str len = (if m (str + len) \<noteq> 0 then strlen_loop m str (len + 1) else Some len)"

definition my_strlen :: "ptr \<Rightarrow> 'z mem_scheme \<Rightarrow> u32 option" where
  "my_strlen str s = strlen_loop (ram s) str 0"

definition test_divide_by_zero_safely :: "'z terminal_scheme \<Rightarrow> 'z terminal_scheme option" where
  "test_divide_by_zero_safely s = output_string (''About to trigger divide by zero...'' @ [LF]) s"

text \<open>
  \<^verbatim>\<open>kernel_main\<close> in the order of its sections. Its parameters beside the multiboot
  pointer are what the program is linked and run with: the addresses of the
  linker, the generated gates \<open>inc\<close>, the stack pointer \<open>esp\<close>, the locals of the
  tests at \<open>stk\<close>, the literal of the serial future at \<open>serial_data\<close>, and the
  interrupts that arrive while it waits.
\<close>

definition kernel_start :: "'z logger_scheme \<Rightarrow> 'z logger_scheme option" where
  "kernel_start s =
     do { let s = init_output s;
          s \<leftarrow> output_string (''hi shogun from c - Test Mode'' @ [LF]) s;
          s \<leftarrow> output_string (''Initializing logger...'' @ [LF]) s;
          s \<leftarrow> logger_init s;
          s \<leftarrow> output_string (''Logger initialized successfully!'' @ [LF]) s;
          s \<leftarrow> logger_debug kernel_file ''This is a debug message'' [] s;
          s \<leftarrow> logger_info kernel_file ''This is an info message'' [] s;
          s \<leftarrow> logger_warning kernel_file ''This is a warning message'' [] s;
          s \<leftarrow> logger_error kernel_file ''This is an error message'' [] s;
          s \<leftarrow> output_string (''Logger buffer populated with test messages, now servicing...'' @ [LF]) s;
          logger_service s }"

definition kernel_tables :: "linker_map \<Rightarrow> ('z async_scheme \<Rightarrow> 'z async_scheme) \<Rightarrow> 'z async_scheme \<Rightarrow> 'z async_scheme option" where
  "kernel_tables L inc s =
     do { s \<leftarrow> output_string (''Initializing GDT...'' @ [LF]) s;
          let s = gdt_init (sym_gdt L) s;
          s \<leftarrow> output_string (''GDT initialized successfully!'' @ [LF]) s;
          s \<leftarrow> print_gdt_info (sym_gdt L) s;
          s \<leftarrow> output_string (''Initializing IDT...'' @ [LF]) s;
          s \<leftarrow> idt_init inc (sym_idt L) s;
          s \<leftarrow> output_string (''IDT initialized successfully!'' @ [LF]) s;
          s \<leftarrow> print_idt_info s;
          s \<leftarrow> output_string (''Initializing PIC...'' @ [LF]) s;
          s \<leftarrow> pic_init s;
          s \<leftarrow> output_string (''PIC initialized successfully!'' @ [LF]) s;
          s \<leftarrow> output_string (''Remapping PIC...'' @ [LF]) s;
          s \<leftarrow> pic_remap s;
          output_string (''PIC remapped successfully!'' @ [LF]) s }"

definition kernel_first_interrupt :: "linker_map \<Rightarrow> 'z async_scheme \<Rightarrow> 'z async_scheme option" where
  "kernel_first_interrupt L s =
     do { s \<leftarrow> output_string (''Testing interrupt 0x80...'' @ [LF]) s;
          s \<leftarrow> take_interrupt L 0x80 s;
          s \<leftarrow> output_string (''Interrupt 0x80 test completed!'' @ [LF]) s;
          s \<leftarrow> output_string (''Testing divide by zero exception handling...'' @ [LF]) s;
          s \<leftarrow> output_string (''Setting up divide by zero test (this should trigger exception handler)...'' @ [LF]) s;
          s \<leftarrow> logger_info kernel_file ''Kernel initialization is almost complete'' [] s;
          output_string (''Divide by zero test completed (skipped to prevent crash during normal execution)!'' @ [LF]) s }"

definition kernel_services :: "linker_map \<Rightarrow> ptr \<Rightarrow> ptr \<Rightarrow> 'z async_scheme \<Rightarrow> 'z async_scheme option" where
  "kernel_services L esp multiboot_info_ptr s =
     do { s \<leftarrow> output_string (''Initializing memory allocator for tests...'' @ [LF]) s;
          s \<leftarrow> init_allocator (sym_kernel_end L) esp multiboot_info_ptr s;
          s \<leftarrow> output_string (''Initializing port manager...'' @ [LF]) s;
          let s = init_port_manager s;
          s \<leftarrow> output_string (''Initializing monotonic time...'' @ [LF]) s;
          s \<leftarrow> monotonic_time_init_global s;
          s \<leftarrow> output_string (''Initializing wake-up list...'' @ [LF]) s;
          s \<leftarrow> wake_up_list_init s;
          s \<leftarrow> output_string (''Initializing async executor...'' @ [LF]) s;
          async_init L s }"

definition kernel_memory :: "linker_map \<Rightarrow> ptr \<Rightarrow> ptr \<Rightarrow> ptr \<Rightarrow> 'z test_state_scheme \<Rightarrow> 'z test_state_scheme option" where
  "kernel_memory L esp stk multiboot_info_ptr s =
     do { s \<leftarrow> kernel_services L esp multiboot_info_ptr s;
          s \<leftarrow> run_memory_tests s;
          s \<leftarrow> output_string (LF # ''Running RTC tests...'' @ [LF]) s;
          run_rtc_tests L stk s }"

definition kernel_clock :: "linker_map \<Rightarrow> 'z async_scheme \<Rightarrow> 'z async_scheme option" where
  "kernel_clock L s =
     do { s \<leftarrow> output_string (LF # ''Dynamic Interrupt Registration System Active!'' @ [LF]) s;
          s \<leftarrow> output_string (''RTC driver successfully registered for periodic interrupts using the new system.'' @ [LF]) s;
          s \<leftarrow> output_string (''Setting up system-wide periodic RTC interrupts...'' @ [LF]) s;
          (rtc, s) \<leftarrow> init_rtc s;
          let s = s\<lparr>system_rtc_instance := rtc\<rparr>;
          if system_rtc_instance s \<noteq> 0 then
            do { (rtc_result, s) \<leftarrow> enable_rtc_interrupts (system_rtc_instance s) (sym_rtc_interrupt_handler L) s;
                 if rtc_result = 0 then
                   do { s \<leftarrow> output_string (''Periodic RTC interrupts enabled successfully for system clock!'' @ [LF]) s;
                        output_string (''System tick counter will now increment with each RTC interrupt.'' @ [LF]) s }
                 else output_string (''Failed to enable periodic RTC interrupts'' @ [LF]) s }
          else output_string (''Failed to initialize RTC for system clock'' @ [LF]) s }"

definition kernel_custom_handler :: "linker_map \<Rightarrow> 'z async_scheme \<Rightarrow> 'z async_scheme option" where
  "kernel_custom_handler L s =
     do { s \<leftarrow> output_string (''Registering custom handler for interrupt 0x81...'' @ [LF]) s;
          let (result, s) = register_interrupt_handler 0x81 (sym_custom_interrupt_handler L) s;
          if result = 0 then
            do { s \<leftarrow> output_string (''Successfully registered custom handler for interrupt 0x81!'' @ [LF]) s;
                 s \<leftarrow> output_string (''Triggering interrupt 0x81...'' @ [LF]) s;
                 s \<leftarrow> take_interrupt L 0x81 s;
                 s \<leftarrow> output_string (''Triggering interrupt 0x81 again...'' @ [LF]) s;
                 s \<leftarrow> take_interrupt L 0x81 s;
                 s \<leftarrow> output_string ''Custom handler was called '' s;
                 s \<leftarrow> put_u32 (custom_handler_called s) s;
                 s \<leftarrow> output_string ('' time(s)'' @ [LF]) s;
                 let s = snd (unregister_interrupt_handler 0x81 s);
                 output_string (''Custom handler unregistered successfully!'' @ [LF]) s }
          else output_string (''Failed to register custom handler'' @ [LF]) s }"

definition kernel_serial_handler :: "linker_map \<Rightarrow> 'z async_scheme \<Rightarrow> 'z async_scheme option" where
  "kernel_serial_handler L s =
     do { s \<leftarrow> output_string (''Registering async serial interrupt handler for IRQ 4...'' @ [LF]) s;
          let serial_irq = \<lparr>irq_type = IRQ_PIC1, irq_index = 4\<rparr>;
          let (result, s) = register_interrupt_handler_irq serial_irq (sym_async_serial_interrupt_handler L) s;
          s \<leftarrow> (if result = 0 then
                 do { s \<leftarrow> output_string (''Successfully registered async serial interrupt handler!'' @ [LF]) s;
                      Some (pic_unmask_irq 4 s) }
               else output_string (''Failed to register async serial interrupt handler'' @ [LF]) s);
          logger_service s }"

definition kernel_sleep :: "('z async_scheme \<Rightarrow> 'z async_scheme option) \<Rightarrow> linker_map \<Rightarrow> 'z async_scheme \<Rightarrow> 'z async_scheme option" where
  "kernel_sleep interrupt L s =
     do { let s = sti s;
          s \<leftarrow> output_string (LF # ''Testing sleep functionality with monotonic clock...'' @ [LF]) s;
          s \<leftarrow> output_string ''Current system ticks: '' s;
          s \<leftarrow> put_u32 (get_system_ticks s) s;
          s \<leftarrow> output_string [LF] s;
          s \<leftarrow> output_string (''Sleeping for 2 seconds (512 ticks at 256Hz)...'' @ [LF]) s;
          let ticks_before_sleep = get_system_ticks s;
          s \<leftarrow> sleep_seconds interrupt L 2 s;
          let ticks_after_sleep = get_system_ticks s;
          s \<leftarrow> output_string ''Woke up! Ticks before: '' s;
          s \<leftarrow> put_u32 ticks_before_sleep s;
          s \<leftarrow> output_string '', Ticks after: '' s;
          s \<leftarrow> put_u32 ticks_after_sleep s;
          s \<leftarrow> output_string '', Elapsed: '' s;
          s \<leftarrow> put_u32 (ticks_after_sleep - ticks_before_sleep) s;
          s \<leftarrow> output_string [LF] s;
          output_string (''Sleep functionality demonstrated successfully!'' @ [LF]) s }"

definition kernel_tasks :: "linker_map \<Rightarrow> ptr \<Rightarrow> 'z async_scheme \<Rightarrow> 'z async_scheme option" where
  "kernel_tasks L serial_data s =
     do { s \<leftarrow> output_string (LF # ''Demonstrating async functionality...'' @ [LF]) s;
          let executor = get_global_executor L;
          s \<leftarrow> output_string (''Creating a 3-second async sleep future...'' @ [LF]) s;
          (sleep_future, s) \<leftarrow> sleep_future_create L 768 s;
          s \<leftarrow> (if sleep_future \<noteq> 0 then
                 do { s \<leftarrow> output_string (''Async sleep future created, spawning to executor...'' @ [LF]) s;
                      s \<leftarrow> executor_spawn L executor sleep_future s;
                      output_string (''Sleep future spawned.'' @ [LF]) s }
               else Some s);
          s \<leftarrow> output_string (''Creating an async serial write future...'' @ [LF]) s;
          len \<leftarrow> my_strlen serial_data s;
          (serial_future, s) \<leftarrow> async_serial_write_create L serial_data len s;
          s \<leftarrow> (if serial_future \<noteq> 0 then
                 do { s \<leftarrow> output_string (''Async serial write future created, spawning to executor...'' @ [LF]) s;
                      s \<leftarrow> executor_spawn L executor serial_future s;
                      output_string (''Serial write future spawned.'' @ [LF]) s }
               else Some s);
          s \<leftarrow> output_string (''Both futures spawned to executor. They will execute concurrently.'' @ [LF]) s;
          output_string (''Starting async executor... (this will run indefinitely with concurrent tasks)'' @ [LF]) s }"

definition kernel_boot :: "('z test_state_scheme \<Rightarrow> 'z test_state_scheme option) \<Rightarrow> linker_map
    \<Rightarrow> ('z test_state_scheme \<Rightarrow> 'z test_state_scheme) \<Rightarrow> ptr \<Rightarrow> ptr \<Rightarrow> ptr \<Rightarrow> ptr
    \<Rightarrow> 'z test_state_scheme \<Rightarrow> 'z test_state_scheme option" where
  "kernel_boot interrupt L inc esp stk serial_data multiboot_info_ptr s =
     do { s \<leftarrow> kernel_start s;
          s \<leftarrow> kernel_tables L inc s;
          s \<leftarrow> kernel_first_interrupt L s;
          s \<leftarrow> kernel_memory L esp stk multiboot_info_ptr s;
          s \<leftarrow> kernel_clock L s;
          s \<leftarrow> kernel_custom_handler L s;
          s \<leftarrow> kernel_serial_handler L s;
          s \<leftarrow> kernel_sleep interrupt L s;
          kernel_tasks L serial_data s }"

text \<open>
  The executor never returns, so \<^verbatim>\<open>kernel_main\<close> is the relation between its entry
  and the states at the head of the executor's loop; the call of
  \<^verbatim>\<open>exit_after_all_tests\<close> after it is not reached.
\<close>

inductive kernel_main :: "('z test_state_scheme \<Rightarrow> 'z test_state_scheme option) \<Rightarrow> linker_map
    \<Rightarrow> ('z test_state_scheme \<Rightarrow> 'z test_state_scheme) \<Rightarrow> ptr \<Rightarrow> ptr \<Rightarrow> ptr \<Rightarrow> ptr
    \<Rightarrow> 'z test_state_scheme \<Rightarrow> 'z test_state_scheme \<Rightarrow> bool"
  for interrupt L inc esp stk serial_data multiboot_info_ptr s where
  running: "kernel_boot interrupt L inc esp stk serial_data multiboot_info_ptr s = Some t
    \<Longrightarrow> executor_run interrupt L (get_global_executor L) t u
    \<Longrightarrow> kernel_main interrupt L inc esp stk serial_data multiboot_info_ptr s u"

end
