(* ===== verification/Clock_Interrupt.thy ===== *)
theory Clock_Interrupt
  imports Kernel
begin

text \<open>
  The clock interrupt (\<^verbatim>\<open>rtc_interrupt_handler\<close> in \<^verbatim>\<open>kernel.c\<close>, through the gate and
  the generic handler): what one interrupt does to the counters, the wake-up
  list, memory and the ports, and from there what sleeping does.
\<close>

section \<open>The clock interrupt\<close>

text \<open>
  The kernel after \<^verbatim>\<open>kernel_clock\<close>: the wake-up list \<open>es\<close> is well formed and its
  callbacks are the kernel's, the driver of the system clock and the interrupt
  controllers hold their ports, the clock's handler is registered and the
  serial line drains.
\<close>

definition clock_ok :: "linker_map \<Rightarrow> 'z async_scheme \<Rightarrow> seg list \<Rightarrow> wake_entry list \<Rightarrow> block list \<Rightarrow> bool" where
  "clock_ok L s segs es bs \<longleftrightarrow> wake_list_ok s segs es bs \<and> (\<forall>e \<in> set es. known_callback L (fst (snd (snd e))))
     \<and> driver_ready s (system_rtc_instance s) \<and> pic_ready s
     \<and> handlers_initialized s \<and> handler_of s 0x48 = Some (sym_rtc_interrupt_handler L) \<and> uart_drains (device s)"

lemma wake_list_ok_cong:
  assumes "ram s = ram t" "first_free s = first_free t" "wake_up_list s = wake_up_list t" "monotonic_time s = monotonic_time t"
  shows "wake_list_ok s segs es bs = wake_list_ok t segs es bs"
proof -
  have f: "field p off s = field p off t" for p off using assms(1) by (rule field_cong)
  then have "wake_path s p es = wake_path t p es" for p by (intro wake_path_cong) simp
  then show ?thesis using assms in_use_ram [OF assms(1,2)] by (simp add: wake_list_ok_def wake_blocks_def f)
qed

text \<open>The parts of the state that decide \<^verbatim>\<open>clock_ok\<close>.\<close>

lemma clock_ok_cong:
  assumes "ram s = ram t" "first_free s = first_free t" "wake_up_list s = wake_up_list t" "monotonic_time s = monotonic_time t"
    and "port_registry s = port_registry t" "rtc_drivers s = rtc_drivers t" "system_rtc_instance s = system_rtc_instance t"
    and "master_pic_cmd s = master_pic_cmd t" "master_pic_data s = master_pic_data t"
    and "slave_pic_cmd s = slave_pic_cmd t" "slave_pic_data s = slave_pic_data t"
    and "handlers_initialized s = handlers_initialized t" "interrupt_handlers s = interrupt_handlers t" "device s = device t"
  shows "clock_ok L s segs es bs = clock_ok L t segs es bs"
proof -
  have "pic_ready s = pic_ready t" using assms by (intro pic_ready_cong)
  moreover have "driver_ready s r = driver_ready t r" for r using assms by (intro driver_ready_cong)
  ultimately show ?thesis using assms wake_list_ok_cong [of s t segs es bs] by (simp add: clock_ok_def handler_of_def)
qed

lemma clock_ok_flags [simp]:
  "clock_ok L (s\<lparr>if_flag := b\<rparr>) segs es bs = clock_ok L s segs es bs"
  "clock_ok L (s\<lparr>g_should_poll := b\<rparr>) segs es bs = clock_ok L s segs es bs"
  "clock_ok L (s\<lparr>trace := h\<rparr>) segs es bs = clock_ok L s segs es bs"
  "clock_ok L (s\<lparr>system_tick_count := n\<rparr>) segs es bs = clock_ok L s segs es bs"
  "clock_ok L (s\<lparr>rtc_interrupt_count := n\<rparr>) segs es bs = clock_ok L s segs es bs"
  by (rule clock_ok_cong; simp)+

lemma same_but_console_clock:
  "same_but_console s t \<Longrightarrow> wake_up_list (t :: 'z async_scheme) = wake_up_list s \<and> monotonic_time t = monotonic_time s
     \<and> rtc_drivers t = rtc_drivers s \<and> system_rtc_instance t = system_rtc_instance s
     \<and> system_tick_count t = system_tick_count s \<and> rtc_interrupt_count t = rtc_interrupt_count s
     \<and> g_should_poll t = g_should_poll s \<and> if_flag t = if_flag s"
  by (cases s; cases t) (simp add: same_but_console_def)

lemma clock_ok_console:
  "same_but_console s t \<Longrightarrow> clock_ok L (t :: 'z async_scheme) segs es bs = clock_ok L s segs es bs"
  using same_but_console_clock [of s t] same_but_console_heap [of s t] same_but_console_pic [of s t]
    same_but_console_registry [of s t] same_but_console_device [of s t]
  by (intro clock_ok_cong) simp_all

lemma clock_ok_wake:
  assumes "clock_ok L s segs es bs" and "same_but_wake s t" and "wake_list_ok t segs' es' bs'" and "\<forall>e \<in> set es'. known_callback L (fst (snd (snd e)))"
  shows "clock_ok L t segs' es' bs'"
proof -
  have "t = s\<lparr>ram := ram t, first_free := first_free t, g_should_poll := g_should_poll t\<rparr>" using assms(2) by (simp add: same_but_wake_def)
  then obtain m f g where t: "t = s\<lparr>ram := m, first_free := f, g_should_poll := g\<rparr>" by blast
  have "pic_ready t = pic_ready s" unfolding t by (rule pic_ready_cong) simp_all
  moreover have "driver_ready t r = driver_ready s r" for r unfolding t by (rule driver_ready_cong) simp_all
  ultimately show ?thesis using assms(1,3,4) unfolding clock_ok_def t by (auto simp: handler_of_def)
qed

text \<open>One tick of the clock, whose word no other block shares.\<close>

lemma tick_clock_ok:
  fixes s :: "'z async_scheme"
  assumes "clock_ok L s segs es bs"
  defines "t \<equiv> monotonic_time_increment_global s"
  shows "clock_ok L t segs es bs" "monotonic_time_get_ticks_global t = monotonic_time_get_ticks_global s + 1"
    "same_but_heap s t" "same_outside (bytes_at (monotonic_time s) 4) (ram s) (ram t)"
proof -
  let ?M = "monotonic_time s" and ?W = "wake_up_list s" and ?v = "field (monotonic_time s) 0 s + 1"
  from assms(1) have ok: "wake_list_ok s segs es bs" by (simp add: clock_ok_def)
  have nz: "?M \<noteq> 0" by (rule wake_list_nonzero [OF ok])
  then have t: "t = set_field ?M 0 ?v s" by (simp add: t_def monotonic_time_increment_global_def)
  show fr: "same_but_heap s t" unfolding t by (rule set_field_frame)
  note same = same_but_heap_async [OF fr]
  from ok have use: "in_use_blocks s segs (map entry_block es @ (?W, 8) # (?M, 4) # bs)"
    by (simp add: wake_list_ok_def wake_blocks_def)
  have M: "(?M, 4) \<in> set (map entry_block es @ (?W, 8) # (?M, 4) # bs)" by simp
  have use': "in_use_blocks t segs (map entry_block es @ (?W, 8) # (?M, 4) # bs)"
    unfolding t by (rule set_field_in_use [OF use M]) simp
  have keep: "field q off t = field q off s" if "(q, n) \<in> set (map entry_block es @ [(?W, 8)])" "unat off + 4 \<le> n" for q n off
  proof -
    have "extent (?M, 4) \<inter> extent (q, n) = {}"
      using in_use_disjoint [of s segs "map entry_block es @ [(?W, 8)]" "(?M, 4) # bs" "(q, n)" "(?M, 4)"] use that(1) by auto
    then show ?thesis unfolding t by (intro field_set_disjoint [OF use M, of q n]) (use that in auto)
  qed
  have "wake_path t p es = wake_path s p es" for p
  proof (rule wake_path_cong)
    fix a off assume "a \<in> fst ` set es" "off \<in> {0, 4, 8, 12 :: u32}"
    then show "field a off t = field a off s" by (intro keep [of a 16]) (auto simp: entry_block_def)
  qed
  then have "wake_list_ok t segs es bs"
    using ok use' same keep [of ?W 8 0] keep [of ?W 8 4] by (simp add: wake_list_ok_def wake_blocks_def)
  then show "clock_ok L t segs es bs" by (rule clock_ok_wake [OF assms(1) same_but_heap_wake [OF fr]]) (use assms(1) in \<open>simp add: clock_ok_def\<close>)
  show "monotonic_time_get_ticks_global t = monotonic_time_get_ticks_global s + 1"
    using nz by (simp add: t monotonic_time_get_ticks_global_def set_field_def field_def)
  have "bytes_of ?M 0 = bytes_at ?M 4" by (simp add: bytes_of_def bytes_at_def)
  then show "same_outside (bytes_at ?M 4) (ram s) (ram t)"
    unfolding t using set_field_outside [OF in_use_bounds(1) [OF use M], of 0 s] by simp
qed

text \<open>What a clock interrupt may change, beside port events of its own.\<close>

definition same_but_tick :: "'z async_scheme \<Rightarrow> 'z async_scheme \<Rightarrow> bool" where
  "same_but_tick s t \<longleftrightarrow> t = s\<lparr>trace := trace t, vga_buffer := vga_buffer t, terminal_row := terminal_row t,
     terminal_column := terminal_column t, ram := ram t, first_free := first_free t, g_should_poll := g_should_poll t,
     system_tick_count := system_tick_count t, rtc_interrupt_count := rtc_interrupt_count t\<rparr>"

lemma same_but_tick_trans: "same_but_tick s t \<Longrightarrow> same_but_tick t u \<Longrightarrow> same_but_tick s u"
  by (cases s; cases t; cases u) (simp add: same_but_tick_def)

lemma same_but_tickI:
  "same_but_heap s t \<Longrightarrow> same_but_tick s t" "same_but_wake s t \<Longrightarrow> same_but_tick s t"
  "same_but_console s t \<Longrightarrow> same_but_tick s t" "same_but_tick s (s\<lparr>trace := h\<rparr>)"
  "same_but_tick s (s\<lparr>system_tick_count := n\<rparr>)" "same_but_tick s (s\<lparr>rtc_interrupt_count := n\<rparr>)"
  by (cases s; cases t; simp add: same_but_tick_def same_but_heap_def same_but_wake_def same_but_console_def)+

lemma same_but_tick_simps:
  "same_but_tick s t \<Longrightarrow> device t = device s \<and> if_flag t = if_flag s \<and> interrupt_handlers t = interrupt_handlers s
     \<and> wake_up_list t = wake_up_list s \<and> monotonic_time t = monotonic_time s"
  by (cases s; cases t) (simp add: same_but_tick_def)

text \<open>Everything a clock interrupt does, with the bytes of memory it may write.\<close>

definition ticked :: "linker_map \<Rightarrow> 'z async_scheme \<Rightarrow> seg list \<Rightarrow> wake_entry list \<Rightarrow> block list
    \<Rightarrow> 'z async_scheme \<Rightarrow> seg list \<Rightarrow> bool" where
  "ticked L s segs es bs t segs' \<longleftrightarrow> (let now = monotonic_time_get_ticks_global s + 1 in
     clock_ok L t segs' (filter (\<lambda>e. \<not> expired now e) es) bs \<and> monotonic_time_get_ticks_global t = now
     \<and> system_tick_count t = system_tick_count s + 1 \<and> rtc_interrupt_count t = rtc_interrupt_count s + 1
     \<and> (g_should_poll t \<longleftrightarrow> g_should_poll s \<or> (\<exists>e \<in> set es. expired now e \<and> fst (snd (snd e)) \<noteq> 0))
     \<and> same_but_tick s t \<and> headers segs' \<subseteq> area (map entry_block es) \<union> headers segs
     \<and> same_outside (area (map entry_block es) \<union> headers segs \<union> bytes_at (wake_up_list s) 8 \<union> bytes_at (monotonic_time s) 4)
         (ram s) (ram t))"

lemma same_but_heap_clock:
  "same_but_heap s t \<Longrightarrow> system_tick_count (t :: 'z async_scheme) = system_tick_count s \<and> rtc_interrupt_count t = rtc_interrupt_count s
     \<and> system_rtc_instance t = system_rtc_instance s \<and> rtc_drivers t = rtc_drivers s \<and> trace t = trace s \<and> device t = device s"
  by (cases s; cases t) (simp add: same_but_heap_def)

lemma same_but_wake_clock:
  "same_but_wake s t \<Longrightarrow> system_tick_count t = system_tick_count s \<and> rtc_interrupt_count t = rtc_interrupt_count s
     \<and> trace t = trace s \<and> device t = device s"
  by (cases s; cases t) (simp add: same_but_wake_def)

lemma maybe_dot:
  assumes "uart_drains (device s)"
  obtains t where "(if b then output_string ''.'' s else Some s) = Some t" "same_but_console s t"
proof (cases b)
  case True
  with literal_runs [of "''.''" s] assms that show ?thesis by auto
qed (use that in simp)

lemma clock_cong: "ram s = ram t \<Longrightarrow> monotonic_time s = monotonic_time t
    \<Longrightarrow> monotonic_time_get_ticks_global s = monotonic_time_get_ticks_global t"
  by (simp add: monotonic_time_get_ticks_global_def field_def)

text \<open>
  The handler up to the wake-up list: both counters and the clock have advanced and
  register C has been read.
\<close>

definition tick_counted :: "'z async_scheme \<Rightarrow> 'z async_scheme" where
  "tick_counted s = (let s = monotonic_time_increment_global (s\<lparr>system_tick_count := system_tick_count s + 1\<rparr>);
       s = s\<lparr>trace := cmos_read (device s) (driver_mask s (system_rtc_instance s)) CMOS_REG_C (trace s)\<rparr>
     in s\<lparr>rtc_interrupt_count := rtc_interrupt_count s + 1\<rparr>)"

lemma tick_counted_ok:
  fixes s :: "'z async_scheme"
  assumes ok: "clock_ok L s segs es bs"
  defines "t \<equiv> tick_counted s"
  shows "clock_ok L t segs es bs" "monotonic_time_get_ticks_global t = monotonic_time_get_ticks_global s + 1"
    "system_tick_count t = system_tick_count s + 1" "rtc_interrupt_count t = rtc_interrupt_count s + 1" "g_should_poll t = g_should_poll s"
    "same_but_tick s t" "wake_up_list t = wake_up_list s" "same_outside (bytes_at (monotonic_time s) 4) (ram s) (ram t)"
    and "\<exists>v. trace t = [In CMOS_DATA_PORT v, Out CMOS_CONTROL_PORT (CMOS_REG_C OR driver_mask s (system_rtc_instance s))] @ trace s"
    and "rtc_interrupt_handler L s = Option.bind (wake_up_list_check_and_execute L t)
       (\<lambda>s. Option.bind (if system_tick_count s mod 256 = 0 then output_string ''.'' s else Some s) (\<lambda>s. Some (pic_send_eoi 0x48 s)))"
proof -
  let ?rtc = "system_rtc_instance s"
  define s1 where "s1 = s\<lparr>system_tick_count := system_tick_count s + 1\<rparr>"
  define s2 where "s2 = monotonic_time_increment_global s1"
  define s3 where "s3 = s2\<lparr>trace := cmos_read (device s2) (driver_mask s2 ?rtc) CMOS_REG_C (trace s2)\<rparr>"
  have ok1: "clock_ok L s1 segs es bs" using ok by (simp add: s1_def)
  note tick = tick_clock_ok [OF ok1, folded s2_def]
  note same = same_but_heap_clock [OF tick(3)] same_but_heap_async [OF tick(3)]
  have rtc: "system_rtc_instance s2 = ?rtc" using same by (simp add: s1_def)
  then have t: "t = s3\<lparr>rtc_interrupt_count := rtc_interrupt_count s3 + 1\<rparr>"
    by (simp add: t_def tick_counted_def s3_def s2_def s1_def Let_def)
  show "clock_ok L t segs es bs" using tick(1) by (simp add: t s3_def)
  show "monotonic_time_get_ticks_global t = monotonic_time_get_ticks_global s + 1"
    using tick(2) clock_cong [of t s2] clock_cong [of s1 s] by (simp add: t s3_def s1_def)
  show "system_tick_count t = system_tick_count s + 1" "rtc_interrupt_count t = rtc_interrupt_count s + 1"
    "g_should_poll t = g_should_poll s" "wake_up_list t = wake_up_list s"
    using same by (simp_all add: t s3_def s1_def)
  have "same_but_tick s s1" "same_but_tick s1 s2" "same_but_tick s2 s3" "same_but_tick s3 t"
    using tick(3) by (simp_all add: s1_def s3_def t same_but_tickI)
  then show "same_but_tick s t" by (blast intro: same_but_tick_trans)
  show "same_outside (bytes_at (monotonic_time s) 4) (ram s) (ram t)" using tick(4) by (simp add: t s3_def s1_def)
  show "\<exists>v. trace t = [In CMOS_DATA_PORT v, Out CMOS_CONTROL_PORT (CMOS_REG_C OR driver_mask s ?rtc)] @ trace s"
    using same by (simp add: t s3_def s1_def cmos_read_def cmos_select_def)
  have ready: "driver_ready s2 ?rtc" using tick(1) rtc by (simp add: clock_ok_def)
  then have "?rtc \<noteq> 0" "clear_rtc_interrupt ?rtc s2 = s3"
    using read_cmos_events [OF ready] by (simp_all add: driver_ready_def clear_rtc_interrupt_def s3_def)
  then show "rtc_interrupt_handler L s = Option.bind (wake_up_list_check_and_execute L t)
     (\<lambda>s. Option.bind (if system_tick_count s mod 256 = 0 then output_string ''.'' s else Some s) (\<lambda>s. Some (pic_send_eoi 0x48 s)))"
    by (simp add: rtc_interrupt_handler_def s1_def [symmetric] s2_def [symmetric] rtc t Let_def)
qed

lemma rtc_handler_runs:
  fixes s :: "'z async_scheme"
  assumes ok: "clock_ok L s segs es bs"
  defines "rtc \<equiv> system_rtc_instance s"
  shows "\<exists>t segs' v. rtc_interrupt_handler L s = Some t \<and> ticked L s segs es bs t segs'
     \<and> other_io (trace t) = eoi_events 0x48
         @ [In CMOS_DATA_PORT v, Out CMOS_CONTROL_PORT (CMOS_REG_C OR driver_mask s rtc)] @ other_io (trace s)"
proof -
  let ?now = "monotonic_time_get_ticks_global s + 1" and ?es = "map entry_block es"
  let ?A = "area ?es \<union> headers segs \<union> bytes_at (wake_up_list s) 8 \<union> bytes_at (monotonic_time s) 4"
  define s4 where "s4 = tick_counted s"
  note c = tick_counted_ok [OF ok, folded s4_def rtc_def]
  from c(1) have w4: "wake_list_ok s4 segs es bs" "\<forall>e \<in> set es. known_callback L (fst (snd (snd e)))" by (simp_all add: clock_ok_def)
  from check_runs [OF w4, unfolded c(2)] obtain s5 segs' where
    s5: "wake_up_list_check_and_execute L s4 = Some s5" "wake_list_ok s5 segs' (filter (\<lambda>e. \<not> expired ?now e) es) bs"
      "g_should_poll s5 \<longleftrightarrow> g_should_poll s4 \<or> (\<exists>e \<in> set es. expired ?now e \<and> fst (snd (snd e)) \<noteq> 0)"
      "monotonic_time_get_ticks_global s5 = ?now" "same_but_wake s4 s5" "headers segs' \<subseteq> area ?es \<union> headers segs"
      "same_outside (area ?es \<union> headers segs \<union> bytes_at (wake_up_list s4) 8) (ram s4) (ram s5)" by blast
  have ok5: "clock_ok L s5 segs' (filter (\<lambda>e. \<not> expired ?now e) es) bs" by (rule clock_ok_wake [OF c(1) s5(5,2)]) (use w4(2) in auto)
  note same5 = same_but_wake_clock [OF s5(5)]
  from ok5 have "uart_drains (device s5)" by (simp add: clock_ok_def)
  then obtain s6 where s6: "(if system_tick_count s5 mod 256 = 0 then output_string ''.'' s5 else Some s5) = Some s6" "same_but_console s5 s6"
    by (rule maybe_dot)
  note same6 = same_but_console_clock [OF s6(2)] same_but_console_heap [OF s6(2)]
  define t where "t = s6\<lparr>trace := eoi_events 0x48 @ trace s6\<rparr>"
  have ok6: "clock_ok L s6 segs' (filter (\<lambda>e. \<not> expired ?now e) es) bs" using ok5 s6(2) by (simp add: clock_ok_console)
  then have "pic_send_eoi 0x48 s6 = t" by (simp add: clock_ok_def t_def pic_send_eoi_events)
  then have run: "rtc_interrupt_handler L s = Some t" using c(10) s5(1) s6(1) by simp
  have "same_but_tick s4 s5" "same_but_tick s5 s6" "same_but_tick s6 t" using s5(5) s6(2) by (simp_all add: t_def same_but_tickI)
  with c(6) have fr: "same_but_tick s t" by (blast intro: same_but_tick_trans)
  have "same_outside ?A (ram s) (ram s4)" "same_outside ?A (ram s4) (ram t)"
    using same_outside_mono [OF c(8), of ?A] same_outside_mono [OF s5(7), of ?A] c(7) same6 by (auto simp: t_def)
  then have out: "same_outside ?A (ram s) (ram t)" by (rule same_outside_trans)
  have "monotonic_time_get_ticks_global t = ?now" using s5(4) same6 clock_cong [of t s5] by (simp add: t_def)
  then have "ticked L s segs es bs t segs'"
    using ok6 fr out same6 same5 c(3-5) s5(3,6) by (simp add: ticked_def t_def)
  moreover have "\<exists>v. other_io (trace t) = eoi_events 0x48
      @ [In CMOS_DATA_PORT v, Out CMOS_CONTROL_PORT (CMOS_REG_C OR driver_mask s rtc)] @ other_io (trace s)"
    using c(9) same_but_console_io [OF s6(2)] same5 by (auto simp: t_def eoi_events_def)
  ultimately show ?thesis using run by blast
qed

text \<open>
  The interrupt as the processor takes it: through the gate of vector 72 to the
  registered handler. The generic handler ends the interrupt a second time.
\<close>

lemma clock_ok_handler: "clock_ok L s segs es bs \<Longrightarrow> handlers_initialized s \<and> handler_of s 0x48 = Some (sym_rtc_interrupt_handler L)"
  by (simp add: clock_ok_def)

lemma handler_of_nonzero: "handler_of s v = Some h \<Longrightarrow> interrupt_handlers s v = h \<and> h \<noteq> 0"
  by (simp add: handler_of_def split: if_splits)

lemma ticked_eoi:
  assumes "ticked L (cli s) segs es bs u segs'"
  shows "ticked L s segs es bs (u\<lparr>trace := h, if_flag := if_flag s\<rparr>) segs'"
proof -
  let ?t = "u\<lparr>trace := h, if_flag := if_flag s\<rparr>"
  have "same_but_tick (cli s) u" using assms unfolding ticked_def Let_def by blast
  then have "same_but_tick s ?t" by (cases s; cases u) (simp add: same_but_tick_def cli_def)
  then show ?thesis
    using assms clock_cong [of "cli s" s] clock_cong [of ?t u] by (simp add: ticked_def Let_def cli_def)
qed

lemma rtc_interrupt_runs:
  fixes s :: "'z async_scheme"
  assumes ok: "clock_ok L s segs es bs"
  shows "\<exists>t segs' v. take_interrupt L 0x48 s = Some t \<and> ticked L s segs es bs t segs'
     \<and> other_io (trace t) = eoi_events 0x48 @ eoi_events 0x48
         @ [In CMOS_DATA_PORT v, Out CMOS_CONTROL_PORT (CMOS_REG_C OR driver_mask s (system_rtc_instance s))] @ other_io (trace s)"
proof -
  have ok': "clock_ok L (cli s) segs es bs" using ok by (simp add: cli_def)
  from rtc_handler_runs [OF ok'] obtain u segs' v where
    u: "rtc_interrupt_handler L (cli s) = Some u" "ticked L (cli s) segs es bs u segs'"
      "other_io (trace u) = eoi_events 0x48
         @ [In CMOS_DATA_PORT v, Out CMOS_CONTROL_PORT (CMOS_REG_C OR driver_mask s (system_rtc_instance s))] @ other_io (trace s)"
    by (auto simp: cli_def)
  note h = clock_ok_handler [OF ok'] handler_of_nonzero
  have "pic_ready u" using u(2) by (simp add: ticked_def clock_ok_def Let_def)
  then have eoi: "pic_send_eoi 0x48 u = u\<lparr>trace := eoi_events 0x48 @ trace u\<rparr>" by (rule pic_send_eoi_events)
  have "generic_interrupt_handler_no_error_code (call_handler L) 0x48 (cli s) = Some (u\<lparr>trace := eoi_events 0x48 @ trace u\<rparr>)"
    using h(1) h(2) [of "cli s" "0x48" "sym_rtc_interrupt_handler L"] u(1) eoi
    by (simp add: generic_interrupt_handler_no_error_code_def call_handler_def)
  then have "take_interrupt L 0x48 s = Some (u\<lparr>trace := eoi_events 0x48 @ trace u, if_flag := if_flag s\<rparr>)"
    by (simp add: take_interrupt_def)
  moreover note ticked_eoi [OF u(2), of "eoi_events 0x48 @ trace u"]
  moreover have "other_io (eoi_events 0x48 @ trace u) = eoi_events 0x48 @ other_io (trace u)" by (simp add: eoi_events_def)
  ultimately show ?thesis
    using u(3) by (intro exI [of _ "u\<lparr>trace := eoi_events 0x48 @ trace u, if_flag := if_flag s\<rparr>"] exI [of _ segs'] exI [of _ v]) simp
qed

section \<open>Sleeping\<close>

lemma unexpired_later:
  "c \<le> c' \<Longrightarrow> filter (\<lambda>e. \<not> expired c' e) (filter (\<lambda>e. \<not> expired c e) es) = filter (\<lambda>e. \<not> expired c' e) es"
  by (auto simp: expired_def intro!: filter_cong)

text \<open>Scheduling a wake-up of the kernel's keeps the clock going.\<close>

lemma add_clock_ok:
  fixes s :: "'z async_scheme"
  assumes ok: "clock_ok L s segs es bs" and hb: "heap_blocks s segs (wake_blocks s es bs)" and cb: "known_callback L cb"
  obtains t segs' es' where "wake_up_list_add tick cb dat s = Some t" "clock_ok L t segs' es' bs" "same_but_heap s t"
    "monotonic_time_get_ticks_global t = monotonic_time_get_ticks_global s"
    "filter (\<lambda>e. \<not> expired tick e) es' = filter (\<lambda>e. \<not> expired tick e) es"
proof -
  from ok have w: "wake_list_ok s segs es bs" "\<forall>e \<in> set es. known_callback L (fst (snd (snd e)))" by (simp_all add: clock_ok_def)
  from add_runs [OF w(1) hb, of tick cb dat] obtain t where
    t: "wake_up_list_add tick cb dat s = Some t" "same_but_heap s t"
      "monotonic_time_get_ticks_global t = monotonic_time_get_ticks_global s"
      "t = s \<or> (\<exists>a segs'. wake_list_ok t segs' ((a, tick, cb, dat) # es) bs)" unfolding wake_added_def by blast
  from t(4) show thesis
  proof (elim disjE exE)
    assume "t = s"
    with t ok that show thesis by blast
  next
    fix a segs' assume "wake_list_ok t segs' ((a, tick, cb, dat) # es) bs"
    with clock_ok_wake [OF ok same_but_heap_wake [OF t(2)] this] w(2) cb
    have "clock_ok L t segs' ((a, tick, cb, dat) # es) bs" by simp
    with t that show thesis by (simp add: expired_def)
  qed
qed

text \<open>Waiting for the clock while its interrupts come in.\<close>

lemma sleep_busy_runs:
  fixes s :: "'z async_scheme"
  assumes ok: "clock_ok L s segs es bs" and lt: "monotonic_time_get_ticks_global s < target"
  shows "\<exists>t segs'. sleep_busy (take_interrupt L 0x48) target s = Some t \<and> monotonic_time_get_ticks_global t = target
     \<and> system_tick_count t - system_tick_count s = target - monotonic_time_get_ticks_global s
     \<and> clock_ok L t segs' (filter (\<lambda>e. \<not> expired target e) es) bs"
proof -
  let ?now = "monotonic_time_get_ticks_global :: 'z async_scheme \<Rightarrow> u32"
  define P where "P u \<longleftrightarrow> ?now s \<le> ?now u \<and> ?now u \<le> target \<and> system_tick_count u - system_tick_count s = ?now u - ?now s
     \<and> (\<exists>segs'. clock_ok L u segs' (if ?now u = ?now s then es else filter (\<lambda>e. \<not> expired (?now u) e) es) bs)" for u
  have step: "\<exists>t. take_interrupt L 0x48 u = Some t \<and> P t \<and> ?now t = ?now u + 1" if u: "P u" and lt: "?now u < target" for u
  proof -
    from u obtain segs' where ok': "clock_ok L u segs' (if ?now u = ?now s then es else filter (\<lambda>e. \<not> expired (?now u) e) es) bs"
      unfolding P_def by blast
    let ?es = "if ?now u = ?now s then es else filter (\<lambda>e. \<not> expired (?now u) e) es"
    from rtc_interrupt_runs [OF ok'] obtain t segs'' where t: "take_interrupt L 0x48 u = Some t" "ticked L u segs' ?es bs t segs''" by blast
    have "unat (?now u + 1) = unat (?now u) + 1"
      using lt unat_u32_less [of target] by (simp add: word_less_nat_alt unat_add_no_wrap)
    then have up: "?now u < ?now u + 1" "?now u + 1 \<le> target" using lt by (simp_all add: word_less_nat_alt word_le_nat_alt)
    have "filter (\<lambda>e. \<not> expired (?now u + 1) e) ?es = filter (\<lambda>e. \<not> expired (?now u + 1) e) es"
      using unexpired_later [of "?now u" "?now u + 1" es] up by simp
    then have "clock_ok L t segs'' (filter (\<lambda>e. \<not> expired (?now t) e) es) bs" "?now t = ?now u + 1"
      "system_tick_count t = system_tick_count u + 1"
      using t(2) unfolding ticked_def Let_def by simp_all
    moreover have "?now t \<noteq> ?now s" "?now s \<le> ?now t" using u up \<open>?now t = ?now u + 1\<close> unfolding P_def by auto
    moreover have "system_tick_count t - system_tick_count s = ?now t - ?now s"
      using u \<open>?now t = ?now u + 1\<close> \<open>system_tick_count t = system_tick_count u + 1\<close> unfolding P_def by (simp add: algebra_simps)
    ultimately show ?thesis using t(1) up unfolding P_def by auto
  qed
  have "P s" using ok lt unfolding P_def by auto
  from sleep_busy_returns [of P target "take_interrupt L 0x48", OF step this] lt obtain t where
    t: "sleep_busy (take_interrupt L 0x48) target s = Some t" "P t" "?now t = target" by auto
  have "target \<noteq> ?now s" using lt by simp
  with t show ?thesis unfolding P_def by auto
qed

lemma sleep_seconds_runs:
  fixes s :: "'z async_scheme"
  assumes ok: "clock_ok L s segs es bs" and hb: "heap_blocks s segs (wake_blocks s es bs)" and nz: "seconds * 256 \<noteq> 0"
    and top: "unat (monotonic_time_get_ticks_global s) + unat (seconds * 256) < 2 ^ 32"
  shows "\<exists>t segs'. sleep_seconds (take_interrupt L 0x48) L seconds s = Some t
     \<and> monotonic_time_get_ticks_global t = monotonic_time_get_ticks_global s + seconds * 256
     \<and> system_tick_count t = system_tick_count s + seconds * 256
     \<and> clock_ok L t segs' (filter (\<lambda>e. \<not> expired (monotonic_time_get_ticks_global t) e) es) bs"
proof -
  let ?target = "monotonic_time_get_ticks_global s + seconds * 256"
  have "known_callback L (sym_sleep_callback L)" by (simp add: known_callback_def)
  from add_clock_ok [OF ok hb this, of ?target 0] obtain u segs1 es1 where
    u: "wake_up_list_add ?target (sym_sleep_callback L) 0 s = Some u" "clock_ok L u segs1 es1 bs" "same_but_heap s u"
      "monotonic_time_get_ticks_global u = monotonic_time_get_ticks_global s"
      "filter (\<lambda>e. \<not> expired ?target e) es1 = filter (\<lambda>e. \<not> expired ?target e) es" .
  have "unat (seconds * 256) > 0" using nz by (simp add: unat_gt_0)
  then have "monotonic_time_get_ticks_global u < ?target"
    using top u(4) by (simp add: word_less_nat_alt unat_add_no_wrap)
  from sleep_busy_runs [OF u(2) this] u(5) obtain t segs' where
    t: "sleep_busy (take_interrupt L 0x48) ?target u = Some t" "monotonic_time_get_ticks_global t = ?target"
      "system_tick_count t - system_tick_count u = ?target - monotonic_time_get_ticks_global u"
      "clock_ok L t segs' (filter (\<lambda>e. \<not> expired ?target e) es) bs" by auto
  have "system_tick_count t = system_tick_count s + seconds * 256"
    using t(3) u(4) same_but_heap_clock [OF u(3)] by (simp add: algebra_simps diff_eq_eq)
  with t(1,2,4) u(1) show ?thesis by (intro exI [of _ t] exI [of _ segs']) (simp add: sleep_seconds_def Let_def)
qed

section \<open>A concrete kernel\<close>

text \<open>
  The wake-up list of \<^verbatim>\<open>wake_example\<close> in a kernel whose clock and controllers are
  set up and whose two interrupt handlers are registered.
\<close>

definition clock_example :: "device_fn \<Rightarrow> async" where
  "clock_example d = (kernel_example d)\<lparr>ram := ram (wake_example d), first_free := 0x1000, wake_up_list := 0x2000,
     monotonic_time := 0x2010, g_should_poll := False, system_rtc_instance := 0x3000, handlers_initialized := True,
     interrupt_handlers := (\<lambda>v. if v = 0x48 then 0x170 else if v = 0x44 then 0x190 else 0)\<rparr>"

abbreviation example_entries :: "wake_entry list" where
  "example_entries \<equiv> [(0x2040, 9, 0x100, 0), (0x2020, 3, 0x100, 0)]"

lemma clock_example_ok: "uart_drains d \<Longrightarrow> clock_ok example_linker (clock_example d) [(0x1000, 0x100)] example_entries []"
proof -
  assume "uart_drains d"
  moreover have "wake_list_ok (clock_example d) [(0x1000, 0x100)] example_entries []"
    using wake_example_ok [of d] wake_list_ok_cong [of "clock_example d" "wake_example d"]
    by (simp add: clock_example_def wake_example_fields)
  moreover have "driver_ready (clock_example d) 0x3000"
    using kernel_example_ready(1) [of d] driver_ready_cong [of "clock_example d" "kernel_example d"] by (simp add: clock_example_def)
  moreover have "pic_ready (clock_example d)"
    using kernel_example_ready(3) [of d] pic_ready_cong [of "clock_example d" "kernel_example d"] by (simp add: clock_example_def)
  ultimately show ?thesis
    by (simp add: clock_ok_def clock_example_def known_callback_def example_linker_def handler_of_def kernel_example_def rtc_example_def)
qed

lemma clock_example_heap:
  "heap_blocks (clock_example d) [(0x1000, 0x100)] (wake_blocks (clock_example d) example_entries [])"
  using wake_example_heap [of d] heap_blocks_cong [of "clock_example d" "wake_example d"]
  by (simp add: clock_example_def wake_example_fields wake_blocks_def)

lemma clock_example_now: "monotonic_time_get_ticks_global (clock_example d) = 5"
  by (simp add: clock_example_def monotonic_time_get_ticks_global_def field_def wake_example_fields)

section \<open>Properties\<close>

text \<open>
  C8 (the clock interrupt). On a kernel with its clock set up
  \<^verbatim>\<open>rtc_interrupt_handler\<close> returns. The tick counter, the clock and the interrupt
  count are one higher; every wake-up whose tick has come is removed from the
  list and its memory freed, the others stay; the executor is asked to poll
  exactly when one of them had a callback; register C of the clock has been
  read, then both interrupt controllers told that the interrupt ended, and no
  other port but the serial line touched.
\<close>

theorem rtc_interrupt_handler_ticks:
  fixes s :: "'z async_scheme"
  assumes "clock_ok L s segs es bs" and "now = monotonic_time_get_ticks_global s + 1"
  shows "\<exists>t segs' v. rtc_interrupt_handler L s = Some t
     \<and> clock_ok L t segs' (filter (\<lambda>e. \<not> expired now e) es) bs \<and> monotonic_time_get_ticks_global t = now
     \<and> system_tick_count t = system_tick_count s + 1 \<and> rtc_interrupt_count t = rtc_interrupt_count s + 1
     \<and> (g_should_poll t \<longleftrightarrow> g_should_poll s \<or> (\<exists>e \<in> set es. expired now e \<and> fst (snd (snd e)) \<noteq> 0))
     \<and> same_but_tick s t
     \<and> other_io (trace t) = [Out 0x20 0x20, Out 0xA0 0x20, In CMOS_DATA_PORT v,
         Out CMOS_CONTROL_PORT (CMOS_REG_C OR driver_mask s (system_rtc_instance s))] @ other_io (trace s)"
proof -
  from rtc_handler_runs [OF assms(1)] obtain t segs' v where
    t: "rtc_interrupt_handler L s = Some t" "ticked L s segs es bs t segs'"
      "other_io (trace t) = eoi_events 0x48
         @ [In CMOS_DATA_PORT v, Out CMOS_CONTROL_PORT (CMOS_REG_C OR driver_mask s (system_rtc_instance s))] @ other_io (trace s)"
    by blast
  then show ?thesis unfolding ticked_def Let_def assms(2) eoi_events_def by (intro exI [of _ t] exI [of _ segs'] exI [of _ v]) simp
qed

theorem rtc_interrupt_handler_ticks_witness:
  "\<exists>t segs'. rtc_interrupt_handler example_linker (clock_example cmos_clock) = Some t
     \<and> clock_ok example_linker t segs' [(0x2040, 9, 0x100, 0)] [] \<and> monotonic_time_get_ticks_global t = 6 \<and> g_should_poll t"
  using rtc_interrupt_handler_ticks [OF clock_example_ok [OF uart_drains_clock], of 6]
  by (auto simp: clock_example_now expired_def)

text \<open>
  C36 (interrupts ended twice). Taken through its gate, the clock interrupt is
  ended twice: the handler tells both controllers, and the generic handler that
  called it tells both again. The second end-of-interrupt command can only
  meet an interrupt that is not the one being handled.
\<close>

theorem clock_interrupt_ended_twice:
  fixes s :: "'z async_scheme"
  assumes "clock_ok L s segs es bs"
  shows "\<exists>t. take_interrupt L 0x48 s = Some t \<and> outs_to 0xA0 (trace t) = outs_to 0xA0 (trace s) @ [0x20, 0x20]
     \<and> outs_to 0x20 (trace t) = outs_to 0x20 (trace s) @ [0x20, 0x20]"
proof -
  from rtc_interrupt_runs [OF assms] obtain t v where
    t: "take_interrupt L 0x48 s = Some t" "other_io (trace t) = eoi_events 0x48 @ eoi_events 0x48
         @ [In CMOS_DATA_PORT v, Out CMOS_CONTROL_PORT (CMOS_REG_C OR driver_mask s (system_rtc_instance s))] @ other_io (trace s)"
    by blast
  have "outs_to p (trace t) = outs_to p (trace s) @ [0x20, 0x20]" if "p = 0xA0 \<or> p = 0x20" for p
    using outs_to_other_io [of p "trace t"] outs_to_other_io [of p "trace s"] that t(2) by (auto simp: eoi_events_def)
  with t(1) show ?thesis by blast
qed

theorem clock_interrupt_ended_twice_witness:
  "\<exists>t. take_interrupt example_linker 0x48 (clock_example cmos_clock) = Some t \<and> outs_to 0xA0 (trace t) = [0x20, 0x20]"
  using clock_interrupt_ended_twice [OF clock_example_ok [OF uart_drains_clock]]
  by (auto simp: clock_example_def kernel_example_def rtc_example_def)



end
