(* ===== verification/Running_Kernel.thy ===== *)
theory Running_Kernel
  imports Clock_Interrupt
begin

text \<open>
  The running kernel: the executor's loop with the clock and the serial
  interrupt of \<^verbatim>\<open>kernel.c\<close> coming in at any time. The task queue and the wake-up
  list live in one heap; here it is shown that neither disturbs the other.
\<close>

section \<open>The executor under the kernel's interrupts\<close>

text \<open>
  The running kernel: the task queue \<open>ts\<close> of the executor and the wake-up list
  \<open>es\<close> of the clock share the heap, and the handlers of both interrupt lines are
  registered.
\<close>

definition system_ok :: "linker_map \<Rightarrow> ptr \<Rightarrow> 'z async_scheme \<Rightarrow> seg list \<Rightarrow> task list \<Rightarrow> wake_entry list \<Rightarrow> block list \<Rightarrow> bool" where
  "system_ok L E s segs ts es bs \<longleftrightarrow> exec_ok L E s segs ts (wake_blocks s es bs) \<and> clock_ok L s segs es (blocks_of ts @ bs)
     \<and> handler_of s 0x44 = Some (sym_async_serial_interrupt_handler L)"

lemma wake_blocks_swap:
  "in_use_blocks s segs (wake_blocks s es (bs @ cs)) \<longleftrightarrow> in_use_blocks s segs (bs @ wake_blocks s es cs)"
  using in_use_append_swap [of s segs "map entry_block es @ [(wake_up_list s, 8), (monotonic_time s, 4)]" bs cs]
    in_use_append_swap [of s segs bs "map entry_block es @ [(wake_up_list s, 8), (monotonic_time s, 4)]" cs]
  by (auto simp: wake_blocks_def)

lemma wake_blocks_same:
  "wake_up_list t = wake_up_list s \<Longrightarrow> monotonic_time t = monotonic_time s \<Longrightarrow> wake_blocks t es bs = wake_blocks s es bs"
  by (simp add: wake_blocks_def)

lemma clock_in_wake_blocks: "(monotonic_time s, 4) \<in> set (wake_blocks s es bs)"
  by (simp add: wake_blocks_def)

lemma area_wake_blocks_filter: "area (wake_blocks s (filter P es) bs) \<subseteq> area (wake_blocks s es bs)"
  by (auto simp: wake_blocks_def area_def)

text \<open>What the two structures leave alone of each other.\<close>

lemma system_apart:
  assumes "system_ok L E s segs ts es bs"
  shows "area (blocks_of ts) \<inter> area (wake_blocks s es bs) = {}" "area (blocks_of ts) \<inter> headers segs = {}"
    "area (wake_blocks s es bs) \<inter> headers segs = {}" "bytes_at E 12 \<inter> area (wake_blocks s es bs) = {}"
    "bytes_at E 12 \<inter> headers segs = {}" "bytes_at E 12 \<inter> area (blocks_of ts) = {}"
proof -
  from assms have use: "in_use_blocks s segs (blocks_of ts @ wake_blocks s es bs)"
    and E: "exec_apart E segs (blocks_of ts @ wake_blocks s es bs)" by (simp_all add: system_ok_def exec_ok_def)
  show "area (blocks_of ts) \<inter> area (wake_blocks s es bs) = {}" using extents_disjoint [OF use] unfolding area_def .
  show "area (wake_blocks s es bs) \<inter> headers segs = {}" "area (blocks_of ts) \<inter> headers segs = {}"
    using extents_headers [OF use] unfolding area_def by auto
  show "bytes_at E 12 \<inter> area (wake_blocks s es bs) = {}" "bytes_at E 12 \<inter> headers segs = {}" "bytes_at E 12 \<inter> area (blocks_of ts) = {}"
    using E unfolding exec_apart_def area_simps by blast+
qed

lemma wake_area:
  "area (map entry_block es) \<subseteq> area (wake_blocks s es bs)" "bytes_at (wake_up_list s) 8 \<subseteq> area (wake_blocks s es bs)"
  "bytes_at (monotonic_time s) 4 \<subseteq> area (wake_blocks s es bs)"
  by (auto simp: wake_blocks_def area_def extent_def bytes_at_def)

text \<open>The clock interrupt leaves the tasks alone.\<close>

lemma ticked_system_ok:
  fixes s :: "'z async_scheme"
  assumes ok: "system_ok L E s segs ts es bs" and t: "ticked L s segs es (blocks_of ts @ bs) t segs'"
  shows "system_ok L E t segs' ts (filter (\<lambda>e. \<not> expired (monotonic_time_get_ticks_global t) e) es) bs"
    and "\<forall>tk \<in> set ts. field (fst (snd tk)) 12 t = field (fst (snd tk)) 12 s"
proof -
  let ?es = "filter (\<lambda>e. \<not> expired (monotonic_time_get_ticks_global t) e) es"
  let ?A = "area (map entry_block es) \<union> headers segs \<union> bytes_at (wake_up_list s) 8 \<union> bytes_at (monotonic_time s) 4"
  from t have d: "clock_ok L t segs' ?es (blocks_of ts @ bs)" "same_but_tick s t" "headers segs' \<subseteq> area (map entry_block es) \<union> headers segs"
    "same_outside ?A (ram s) (ram t)" by (simp_all add: ticked_def Let_def)
  note same = same_but_tick_simps [OF d(2)]
  have wb: "wake_blocks t ?es bs = wake_blocks s ?es bs" using same by (intro wake_blocks_same) simp_all
  have ex: "exec_ok L E s segs ts (wake_blocks s es bs)" using ok by (simp add: system_ok_def)
  have use: "in_use_blocks t segs' (blocks_of ts @ wake_blocks s ?es bs)"
    using d(1) wb wake_blocks_swap [of t segs' ?es "blocks_of ts" bs] by (simp add: clock_ok_def wake_list_ok_def)
  have A: "?A \<inter> area (blocks_of ts) = {}" "?A \<inter> bytes_at E 12 = {}"
    using system_apart [OF ok] wake_area [where s = s and es = es and bs = bs] by blast+
  have "exec_ok L E t segs' ts (wake_blocks s ?es bs)"
  proof (rule exec_ok_moves [OF ex d(4) use _ _ _ A])
    show "headers segs' \<subseteq> headers segs \<union> area (wake_blocks s es bs)" using d(3) wake_area(1) [where s = s and es = es and bs = bs] by blast
    show "area (wake_blocks s ?es bs) \<subseteq> area (wake_blocks s es bs)" by (rule area_wake_blocks_filter)
    show "(monotonic_time t, 4) \<in> set (wake_blocks s ?es bs)" using clock_in_wake_blocks same by metis
  qed (use same in simp)
  moreover have "handler_of t 0x44 = handler_of s 0x44" using same by (simp add: handler_of_def)
  ultimately show "system_ok L E t segs' ts ?es bs" using ok d(1) wb by (simp add: system_ok_def)
  show "\<forall>tk \<in> set ts. field (fst (snd tk)) 12 t = field (fst (snd tk)) 12 s"
    using task_path_same_outside(2) [of s segs ts "wake_blocks s es bs" L "field E 0 s" ?A t] ex d(4) A(1) by (simp add: exec_ok_def)
qed

text \<open>A pass over the tasks leaves the wake-up list alone.\<close>

lemma same_but_run_clock:
  "same_but_run s t \<Longrightarrow> wake_up_list t = wake_up_list s \<and> port_registry t = port_registry s \<and> rtc_drivers t = rtc_drivers s
     \<and> system_rtc_instance t = system_rtc_instance s \<and> master_pic_cmd t = master_pic_cmd s \<and> master_pic_data t = master_pic_data s
     \<and> slave_pic_cmd t = slave_pic_cmd s \<and> slave_pic_data t = slave_pic_data s
     \<and> handlers_initialized t = handlers_initialized s \<and> interrupt_handlers t = interrupt_handlers s"
  by (cases s; cases t) (simp add: same_but_run_def)

lemma wake_path_outside:
  assumes use: "in_use_blocks s segs (wake_blocks s es bs)" and out: "same_outside A (ram s) (ram t)"
    and A: "A \<inter> area (wake_blocks s es bs) = {}"
  shows "wake_path t p es = wake_path s p es" "field (wake_up_list s) 0 t = field (wake_up_list s) 0 s"
    "field (wake_up_list s) 4 t = field (wake_up_list s) 4 s"
proof -
  have keep: "field q off t = field q off s" if q: "(q, n) \<in> set (wake_blocks s es bs)" "unat off + 4 \<le> n" for q n off
  proof (rule field_same_outside [OF out])
    show "bytes_of q off \<inter> A = {}" using bytes_in_extent [OF q(2), of q] area_member [OF q(1)] A by blast
    show "unat q + unat off + 4 \<le> 2 ^ 32" by (rule in_use_bounds [OF use q])
  qed
  show "wake_path t p es = wake_path s p es"
  proof (rule wake_path_cong)
    fix a off assume "a \<in> fst ` set es" "off \<in> {0, 4, 8, 12 :: u32}"
    then show "field a off t = field a off s" by (intro keep [of a 16]) (auto simp: entry_block_def wake_blocks_def)
  qed
  show "field (wake_up_list s) 0 t = field (wake_up_list s) 0 s" "field (wake_up_list s) 4 t = field (wake_up_list s) 4 s"
    by (rule keep [of _ 8]; simp add: wake_blocks_def)+
qed

lemma pass_system_ok:
  fixes s :: "'z async_scheme"
  assumes L: "vtables_distinct L" and ok: "system_ok L E s segs ts es bs"
  shows "\<exists>rs segs' t. poll_tasks L E s = Some (remaining ts rs \<noteq> [], t) \<and> list_all2 (sleep_right s) ts rs
     \<and> system_ok L E t segs' (remaining ts rs) es bs"
proof -
  from ok have ex: "exec_ok L E s segs ts (wake_blocks s es bs)" and cl: "clock_ok L s segs es (blocks_of ts @ bs)"
    by (simp_all add: system_ok_def)
  from poll_tasks_runs [OF L ex] obtain rs segs' t where
    t: "poll_tasks L E s = Some (remaining ts rs \<noteq> [], t)" "list_all2 (sleep_right s) ts rs"
      "exec_ok L E t segs' (remaining ts rs) (wake_blocks s es bs)" "same_but_run s t"
      "same_outside (area (blocks_of ts) \<union> headers segs \<union> bytes_at E 12) (ram s) (ram t)" by blast
  note same = same_but_run_clock [OF t(4)] same_but_run_simps [OF t(4)]
  have wb: "wake_blocks t es cs = wake_blocks s es cs" for cs using same by (intro wake_blocks_same) simp_all
  have use: "in_use_blocks s segs (wake_blocks s es bs)" using ex in_use_subset by (auto simp: exec_ok_def)
  have A: "(area (blocks_of ts) \<union> headers segs \<union> bytes_at E 12) \<inter> area (wake_blocks s es bs) = {}"
    using system_apart [OF ok] by blast
  note keep = wake_path_outside [OF use t(5) A]
  have "wake_list_ok t segs' es (blocks_of (remaining ts rs) @ bs)"
    using cl t(3) keep same wb wake_blocks_swap [of t segs' es "blocks_of (remaining ts rs)" bs]
    by (simp add: clock_ok_def wake_list_ok_def exec_ok_def)
  moreover have "driver_ready t r = driver_ready s r" for r using same by (intro driver_ready_cong) simp_all
  moreover have "pic_ready t = pic_ready s" using same by (intro pic_ready_cong) simp_all
  moreover have "handler_of t v = handler_of s v" for v using same by (simp add: handler_of_def)
  ultimately have "system_ok L E t segs' (remaining ts rs) es bs"
    using ok cl t(3) wb same by (simp add: system_ok_def clock_ok_def)
  with t(1,2) show ?thesis by blast
qed

text \<open>
  The two interrupts of the running kernel. \<open>pick\<close> says which line the hardware
  raises; every choice is one such function of the whole state.
\<close>

definition kernel_interrupt :: "('z async_scheme \<Rightarrow> bool) \<Rightarrow> linker_map \<Rightarrow> 'z async_scheme \<Rightarrow> 'z async_scheme option" where
  "kernel_interrupt pick L s = take_interrupt L (if pick s then 0x48 else 0x44) s"

definition handlers_distinct :: "linker_map \<Rightarrow> bool" where
  "handlers_distinct L \<longleftrightarrow> distinct [sym_rtc_interrupt_handler L, sym_custom_interrupt_handler L, sym_async_serial_interrupt_handler L]"

lemma system_ok_cong:
  assumes "ram s = ram t" "first_free s = first_free t" "wake_up_list s = wake_up_list t" "monotonic_time s = monotonic_time t"
    and "port_registry s = port_registry t" "rtc_drivers s = rtc_drivers t" "system_rtc_instance s = system_rtc_instance t"
    and "master_pic_cmd s = master_pic_cmd t" "master_pic_data s = master_pic_data t"
    and "slave_pic_cmd s = slave_pic_cmd t" "slave_pic_data s = slave_pic_data t"
    and "handlers_initialized s = handlers_initialized t" "interrupt_handlers s = interrupt_handlers t" "device s = device t"
  shows "system_ok L E s segs ts es bs = system_ok L E t segs ts es bs"
  using clock_ok_cong [OF assms] exec_ok_cong [OF assms(1,2,4,14)] wake_blocks_same [OF assms(3,4)] assms(13)
  by (simp add: system_ok_def handler_of_def)

lemma system_ok_flags [simp]:
  "system_ok L E (s\<lparr>if_flag := b\<rparr>) segs ts es bs = system_ok L E s segs ts es bs"
  "system_ok L E (s\<lparr>g_should_poll := b\<rparr>) segs ts es bs = system_ok L E s segs ts es bs"
  "system_ok L E (s\<lparr>trace := h\<rparr>) segs ts es bs = system_ok L E s segs ts es bs"
  by (rule system_ok_cong; simp)+

lemma system_ok_console:
  "same_but_console s t \<Longrightarrow> system_ok L E (t :: 'z async_scheme) segs ts es bs = system_ok L E s segs ts es bs"
  using same_but_console_clock [of s t] same_but_console_heap [of s t] same_but_console_pic [of s t]
    same_but_console_registry [of s t] same_but_console_device [of s t]
  by (intro system_ok_cong) simp_all

lemma serial_interrupt_runs:
  fixes s :: "'z async_scheme"
  assumes L: "handlers_distinct L" and ok: "system_ok L E s segs ts es bs"
  shows "\<exists>t. take_interrupt L 0x44 s = Some t \<and> system_ok L E t segs ts es bs \<and> g_should_poll t
     \<and> trace t = Out 0x20 0x20 # trace s"
proof -
  let ?u = "(cli s)\<lparr>g_should_poll := True\<rparr>"
  have h: "handlers_initialized s" "interrupt_handlers s 0x44 = sym_async_serial_interrupt_handler L" "sym_async_serial_interrupt_handler L \<noteq> 0"
    using ok handler_of_nonzero [of s "0x44"] by (auto simp: system_ok_def clock_ok_def)
  have "system_ok L E ?u segs ts es bs" using ok by (simp add: cli_def)
  then have "pic_ready ?u" by (simp add: system_ok_def clock_ok_def)
  note eoi = pic_send_eoi_events [OF this, of "0x44"]
  have "generic_interrupt_handler_no_error_code (call_handler L) 0x44 (cli s) = Some (pic_send_eoi 0x44 ?u)"
    using h L by (auto simp: generic_interrupt_handler_no_error_code_def call_handler_def handlers_distinct_def cli_def
        async_serial_interrupt_handler_def executor_wake_up_def)
  then have "take_interrupt L 0x44 s = Some (?u\<lparr>trace := eoi_events 0x44 @ trace s, if_flag := if_flag s\<rparr>)"
    using eoi by (simp add: take_interrupt_def cli_def)
  with ok show ?thesis by (simp add: eoi_events_def cli_def)
qed

definition system_inv :: "linker_map \<Rightarrow> ptr \<Rightarrow> 'z async_scheme \<Rightarrow> bool" where
  "system_inv L E s \<longleftrightarrow> vtables_distinct L \<and> handlers_distinct L \<and> (\<exists>segs ts es bs. system_ok L E s segs ts es bs)"

lemma system_inv_flags [simp]:
  "system_inv L E (s\<lparr>if_flag := b\<rparr>) = system_inv L E s" "system_inv L E (s\<lparr>g_should_poll := b\<rparr>) = system_inv L E s"
  by (simp_all add: system_inv_def)

lemma system_inv_interrupt:
  assumes "system_inv L E s"
  shows "\<exists>t. kernel_interrupt pick L s = Some t \<and> system_inv L E t"
proof -
  from assms obtain segs ts es bs where ok: "system_ok L E s segs ts es bs" and L: "handlers_distinct L" "vtables_distinct L"
    by (auto simp: system_inv_def)
  show ?thesis
  proof (cases "pick s")
    case True
    have "clock_ok L s segs es (blocks_of ts @ bs)" using ok by (simp add: system_ok_def)
    from rtc_interrupt_runs [OF this] obtain t segs' where
      t: "take_interrupt L 0x48 s = Some t" "ticked L s segs es (blocks_of ts @ bs) t segs'" by blast
    with ticked_system_ok(1) [OF ok t(2)] True L show ?thesis by (auto simp: kernel_interrupt_def system_inv_def)
  next
    case False
    from serial_interrupt_runs [OF L(1) ok] obtain t where "take_interrupt L 0x44 s = Some t" "system_ok L E t segs ts es bs" by blast
    with False L show ?thesis unfolding kernel_interrupt_def system_inv_def by auto
  qed
qed

interpretation kernel_interrupts: executor_environment L E "kernel_interrupt pick L" "system_inv L E" for pick L E
proof (unfold_locales, goal_cases)
  case (1 s)
  then show ?case by (auto simp: system_inv_def system_ok_def exec_ok_def)
next
  case (2 s)
  then show ?case using pass_system_ok unfolding system_inv_def by blast
next
  case (5 s t)
  then show ?case by (simp add: system_inv_def system_ok_console)
qed (simp_all add: system_inv_interrupt)

text \<open>A number of clock interrupts, one after the other.\<close>

fun clock_interrupts :: "nat \<Rightarrow> linker_map \<Rightarrow> 'z async_scheme \<Rightarrow> 'z async_scheme option" where
  "clock_interrupts 0 L s = Some s"
| "clock_interrupts (Suc n) L s = Option.bind (take_interrupt L 0x48 s) (clock_interrupts n L)"

lemma clock_interrupts_run:
  fixes s :: "'z async_scheme"
  assumes "system_ok L E s segs ts es bs"
  shows "\<exists>t segs' es'. clock_interrupts n L s = Some t \<and> system_ok L E t segs' ts es' bs
     \<and> monotonic_time_get_ticks_global t = monotonic_time_get_ticks_global s + of_nat n
     \<and> (\<forall>tk \<in> set ts. field (fst (snd tk)) 12 t = field (fst (snd tk)) 12 s)"
  using assms
proof (induction n arbitrary: s segs es)
  case (Suc n)
  have "clock_ok L s segs es (blocks_of ts @ bs)" using Suc.prems by (simp add: system_ok_def)
  from rtc_interrupt_runs [OF this] obtain u segs1 where
    u: "take_interrupt L 0x48 s = Some u" "ticked L s segs es (blocks_of ts @ bs) u segs1" by blast
  note ok = ticked_system_ok [OF Suc.prems u(2)]
  have "monotonic_time_get_ticks_global u = monotonic_time_get_ticks_global s + 1" using u(2) by (simp add: ticked_def Let_def)
  with Suc.IH [OF ok(1)] ok(2) u(1) show ?case by (auto simp: algebra_simps)
qed auto

lemma sleep_right_later:
  assumes "sleep_right t tk r" and "field (fst (snd tk)) 12 t = field (fst (snd tk)) 12 s"
    and "monotonic_time_get_ticks_global t = monotonic_time_get_ticks_global s + of_nat n"
    and "unat (monotonic_time_get_ticks_global s) + n < 2 ^ 32"
  shows "fst (snd (snd tk)) = 16 \<longrightarrow> (r \<longleftrightarrow> unat (field (fst (snd tk)) 12 s) \<le> unat (monotonic_time_get_ticks_global s) + n)"
proof -
  have "unat (of_nat n :: u32) = n" using assms(4) by (simp add: unat_of_nat)
  then have "unat (monotonic_time_get_ticks_global t) = unat (monotonic_time_get_ticks_global s) + n"
    using assms(3,4) by (simp add: unat_add_no_wrap)
  then show ?thesis using assms(1,2) by (simp add: sleep_right_def word_le_nat_alt)
qed

text \<open>A pass of the executor after a number of clock interrupts.\<close>

lemma pass_after_ticks:
  fixes s :: "'z async_scheme"
  assumes "vtables_distinct L" and "system_ok L E s segs ts es bs" and "unat (monotonic_time_get_ticks_global s) + n < 2 ^ 32"
  obtains t u rs segs' es' where "clock_interrupts n L s = Some t" "poll_tasks L E t = Some (remaining ts rs \<noteq> [], u)"
    "system_ok L E u segs' (remaining ts rs) es' bs"
    "list_all2 (\<lambda>(a, f, size, w) r. size = 16 \<longrightarrow> (r \<longleftrightarrow> unat (field f 12 s) \<le> unat (monotonic_time_get_ticks_global s) + n)) ts rs"
proof -
  from clock_interrupts_run [OF assms(2), of n] obtain t segs1 es1 where
    t: "clock_interrupts n L s = Some t" "system_ok L E t segs1 ts es1 bs"
      "monotonic_time_get_ticks_global t = monotonic_time_get_ticks_global s + of_nat n"
      "\<forall>tk \<in> set ts. field (fst (snd tk)) 12 t = field (fst (snd tk)) 12 s" by blast
  from pass_system_ok [OF assms(1) t(2)] obtain rs segs' u where
    u: "poll_tasks L E t = Some (remaining ts rs \<noteq> [], u)" "list_all2 (sleep_right t) ts rs"
      "system_ok L E u segs' (remaining ts rs) es1 bs" by blast
  have "list_all2 (\<lambda>(a, f, size, w) r. size = 16 \<longrightarrow> (r \<longleftrightarrow> unat (field f 12 s) \<le> unat (monotonic_time_get_ticks_global s) + n)) ts rs"
    by (rule list.rel_mono_strong [OF u(2)]) (use sleep_right_later [OF _ _ t(3) assms(3)] t(4) in fastforce)
  with that t(1) u(1,3) show thesis by blast
qed

section \<open>A concrete running kernel\<close>

text \<open>
  Two sleeping tasks, due at ticks 3 and 9, with their wake-ups; the clock
  shows 5. The executor is at \<open>0x160\<close>, a string constant at \<open>0x500\<close>.
\<close>

definition system_example :: "device_fn \<Rightarrow> async" where
  "system_example d = (clock_example d)\<lparr>
     ram := fold (\<lambda>(a, v). store32 a v)
       [(0x160, 0x3008), (0x168, 2), (0x500, 0x6968), (0x1000, 0x100),
        (0x1FFC, 12), (0x2000, 0x2040), (0x2004, 2), (0x200C, 8), (0x2010, 5),
        (0x201C, 20), (0x2020, 3), (0x2024, 0x110), (0x203C, 20), (0x2040, 9), (0x2044, 0x110), (0x204C, 0x2020),
        (0x3004, 12), (0x3008, 0x3028), (0x300C, 0x3068),
        (0x3024, 20), (0x3028, 0x130), (0x3030, 0x3048), (0x3034, 3), (0x3044, 16), (0x3048, 0x120), (0x304C, 1),
        (0x3064, 12), (0x3068, 0x3088),
        (0x3084, 20), (0x3088, 0x130), (0x3090, 0x30A8), (0x3094, 9), (0x30A4, 16), (0x30A8, 0x120), (0x30AC, 1)]
       (\<lambda>_. 0)\<rparr>"

abbreviation system_entries :: "wake_entry list" where
  "system_entries \<equiv> [(0x2040, 9, 0x110, 0), (0x2020, 3, 0x110, 0)]"

lemma system_example_fields:
  "load32 (ram (system_example d)) 0x160 = 0x3008" "load32 (ram (system_example d)) 0x168 = 2"
  "load32 (ram (system_example d)) 0x1000 = 0x100" "load32 (ram (system_example d)) 0x1004 = 0"
  "load32 (ram (system_example d)) 0x1FFC = 12" "load32 (ram (system_example d)) 0x2000 = 0x2040"
  "load32 (ram (system_example d)) 0x2004 = 2" "load32 (ram (system_example d)) 0x200C = 8"
  "load32 (ram (system_example d)) 0x2010 = 5" "load32 (ram (system_example d)) 0x201C = 20"
  "load32 (ram (system_example d)) 0x2020 = 3" "load32 (ram (system_example d)) 0x2024 = 0x110"
  "load32 (ram (system_example d)) 0x2028 = 0" "load32 (ram (system_example d)) 0x202C = 0"
  "load32 (ram (system_example d)) 0x203C = 20" "load32 (ram (system_example d)) 0x2040 = 9"
  "load32 (ram (system_example d)) 0x2044 = 0x110" "load32 (ram (system_example d)) 0x2048 = 0"
  "load32 (ram (system_example d)) 0x204C = 0x2020"
  by (simp_all add: system_example_def apart4_def load32_zero)

lemma system_example_tasks:
  "load32 (ram (system_example d)) 0x3004 = 12" "load32 (ram (system_example d)) 0x3008 = 0x3028"
  "load32 (ram (system_example d)) 0x300C = 0x3068" "load32 (ram (system_example d)) 0x3024 = 20"
  "load32 (ram (system_example d)) 0x3028 = 0x130" "load32 (ram (system_example d)) 0x3030 = 0x3048"
  "load32 (ram (system_example d)) 0x3034 = 3" "load32 (ram (system_example d)) 0x3044 = 16"
  "load32 (ram (system_example d)) 0x304C = 1" "load32 (ram (system_example d)) 0x3064 = 12"
  "load32 (ram (system_example d)) 0x3068 = 0x3088" "load32 (ram (system_example d)) 0x306C = 0"
  "load32 (ram (system_example d)) 0x3084 = 20" "load32 (ram (system_example d)) 0x3088 = 0x130"
  "load32 (ram (system_example d)) 0x3090 = 0x30A8" "load32 (ram (system_example d)) 0x3094 = 9"
  "load32 (ram (system_example d)) 0x30A4 = 16" "load32 (ram (system_example d)) 0x30AC = 1"
  by (simp_all add: system_example_def apart4_def load32_zero)

lemma system_example_flags: "ram (system_example d) 0x302C = 0" "ram (system_example d) 0x308C = 0"
  "ram (system_example d) 0x500 = 0x68" "ram (system_example d) 0x501 = 0x69" "ram (system_example d) 0x502 = 0"
  by (simp_all add: system_example_def store32_def)

lemma system_example_statics:
  "first_free (system_example d) = 0x1000" "monotonic_time (system_example d) = 0x2010" "wake_up_list (system_example d) = 0x2000"
  "device (system_example d) = d" "handlers_initialized (system_example d)" "system_rtc_instance (system_example d) = 0x3000"
  "handler_of (system_example d) 0x48 = Some 0x170" "handler_of (system_example d) 0x44 = Some 0x190"
  by (simp_all add: system_example_def clock_example_def kernel_example_def rtc_example_def handler_of_def)

lemma system_example_ready: "driver_ready (system_example d) 0x3000" "pic_ready (system_example d)"
  using kernel_example_ready [of d] driver_ready_cong [of "system_example d" "kernel_example d"]
    pic_ready_cong [of "system_example d" "kernel_example d"] by (simp_all add: system_example_def clock_example_def)

lemma system_example_ok:
  assumes "uart_drains d"
  shows "system_ok example_linker 0x160 (system_example d) [(0x1000, 0x100)] example_tasks system_entries []"
proof -
  let ?s = "system_example d" and ?segs = "[(0x1000, 0x100)] :: seg list"
  have use: "in_use_blocks ?s ?segs (blocks_of example_tasks @ wake_blocks ?s system_entries [])"
    unfolding in_use_blocks_def wake_blocks_def
    by (simp add: free_list_def seg_size_def seg_next_def live_def entry_block_def system_example_fields system_example_tasks
        system_example_statics extent_disjointI extent_intervalI)
  have "task_path example_linker ?s 0x3008 example_tasks"
    by (simp add: field_def get_byte_def system_example_tasks system_example_flags example_linker_def)
  moreover have "exec_apart 0x160 ?segs (blocks_of example_tasks @ wake_blocks ?s system_entries [])"
    by (auto simp: exec_apart_def bytes_at_def extent_def wake_blocks_def entry_block_def system_example_statics)
  moreover have "(0x2010, 4) \<in> set (wake_blocks ?s system_entries [])" by (simp add: wake_blocks_def system_example_statics)
  ultimately have "exec_ok example_linker 0x160 ?s ?segs example_tasks (wake_blocks ?s system_entries [])"
    using assms use by (simp add: exec_ok_def field_def system_example_fields system_example_statics)
  moreover have "wake_list_ok ?s ?segs system_entries (blocks_of example_tasks @ [])"
    unfolding wake_list_ok_def wake_blocks_swap
    using use by (simp add: field_def system_example_fields system_example_statics)
  ultimately show ?thesis
    using assms system_example_ready [of d]
    by (simp add: system_ok_def clock_ok_def system_example_statics known_callback_def example_linker_def)
qed

lemma example_handlers_distinct: "handlers_distinct example_linker"
  by (simp add: handlers_distinct_def example_linker_def)

lemma system_example_inv: "uart_drains d \<Longrightarrow> system_inv example_linker 0x160 (system_example d)"
  using system_example_ok [of d] example_handlers_distinct example_linker_distinct unfolding system_inv_def by blast

section \<open>Properties of the running kernel\<close>





end
