(* ===== verification/Boot_Sequence.thy ===== *)
theory Boot_Sequence
  imports Running_Kernel
begin

text \<open>
  Sections of \<^verbatim>\<open>kernel_main\<close> run from end to end: the first messages, the custom
  interrupt and the sleep test, and the string length helper.
\<close>

section \<open>The first messages\<close>

text \<open>
  The kernel before its tables are loaded: a serial line that drains, the log
  with the entries \<open>q\<close> at its initial level, no guard held, the interrupt flag
  at \<open>b\<close> and the interrupt table register still at \<open>r\<close>.
\<close>

definition log_phase :: "u16 \<times> u32 \<Rightarrow> LogEntry list \<Rightarrow> bool \<Rightarrow> 'z logger_scheme \<Rightarrow> bool" where
  "log_phase r q b s \<longleftrightarrow> uart_drains (device s) \<and> log_ok s \<and> log_queue s = q \<and> interrupt_guard_counter s = 0
     \<and> default_level s = LOG_LEVEL_INFO \<and> if_flag s = b \<and> idtr s = r"

lemma log_phase_console:
  assumes "log_phase r q b s" and "same_but_console s t"
  shows "log_phase r q b t"
proof -
  have "interrupt_guard_counter t = interrupt_guard_counter s \<and> default_level t = default_level s \<and> if_flag t = if_flag s \<and> idtr t = idtr s"
    using assms(2) by (cases s; cases t) (simp add: same_but_console_def)
  then show ?thesis
    using assms same_but_console_device [OF assms(2)] same_but_console_log [OF assms(2)]
    by (simp add: log_phase_def log_ok_def log_queue_def)
qed

lemma log_phase_says:
  assumes "log_phase r q b s" and "NUL \<notin> set str"
  obtains t where "output_string str s = Some t" "log_phase r q b t"
  using literal_runs [OF assms(2)] log_phase_console [OF assms(1)] assms(1) unfolding log_phase_def by metis

lemma log_phase_logs:
  assumes "log_phase r q b s" and "LOG_LEVEL_INFO \<le> lvl" and "length q < 64" and "format_ref fmt [] = Some full"
  obtains t where "logger_log lvl m fmt [] s = Some t" "log_phase r (q @ [log_entry lvl m full]) True t"
proof -
  from assms(1) have ok: "log_ok s" "log_queue s = q" and lv: "default_level s = LOG_LEVEL_INFO" "interrupt_guard_counter s = 0"
    by (simp_all add: log_phase_def)
  from logger_log_laws [OF ok(1) assms(4), of lvl m] lv assms(2) obtain t where
    t: "logger_log lvl m fmt [] s = Some t" "log_ok t" "same_but_log s t" "interrupt_guard_counter t = 0"
      "log_queue t = log_queue (logger_buffer_push (log_entry lvl m full) s)" "if_flag t" by auto
  have "log_queue (logger_buffer_push (log_entry lvl m full) s) = q @ [log_entry lvl m full]"
    using log.pushes_contents [OF ok(1), of "[log_entry lvl m full]"] ok(2) assms(3) by simp
  moreover have "idtr t = idtr s" using t(3) by (cases s; cases t) (simp add: same_but_log_def)
  ultimately show thesis using that t assms(1) same_but_log_level [OF t(3)] by (simp add: log_phase_def)
qed

lemma log_phase_services:
  assumes "log_phase r q b s"
  obtains t where "logger_service s = Some t" "log_phase r [] b t"
    "sent t = sent s @ map of_char (crlf (concat (map entry_text q)))"
proof -
  from assms have d: "log_ok s" "log_queue s = q" "uart_drains (device s)" by (simp_all add: log_phase_def)
  from logger_service_run [OF d] obtain t where t: "logger_service s = Some t"
    "sent t = sent s @ map of_char (crlf (concat (map entry_text q)))" "log_queue t = []" "log_ok t" "same_but_log_console s t" by blast
  have "interrupt_guard_counter t = interrupt_guard_counter s \<and> default_level t = default_level s \<and> if_flag t = if_flag s
      \<and> idtr t = idtr s \<and> device t = device s"
    using t(5) by (cases s; cases t) (simp add: same_but_log_console_def same_but_console_def)
  then show thesis using that [OF t(1) _ t(2)] t(3,4) assms by (simp add: log_phase_def)
qed

lemma init_serial_frame:
  obtains r i h where "init_serial s = s\<lparr>trace := h, port_registry := r, pm_initialized := i\<rparr>"
proof (cases "request_port SERIAL_COM1 s")
  case (Pair h t)
  then have fr: "same_but_registry s t" using request_port_frame [of s SERIAL_COM1] by simp
  have "\<exists>x. init_serial s = t\<lparr>trace := x\<rparr>"
    by (cases h) (auto simp: Pair init_serial_def in_b_def out_b_def Let_def intro: exI [of _ "trace t"])
  then obtain x where "init_serial s = t\<lparr>trace := x\<rparr>" ..
  with fr show thesis by (intro that [of "pm_initialized t" "port_registry t" x]) (cases s; cases t; simp add: same_but_registry_def)
qed

lemma log_phase_ports:
  "log_phase r q b (s\<lparr>trace := h, port_registry := g, pm_initialized := i\<rparr>) = log_phase r q b s"
  by (simp add: log_phase_def log_ok_def log_queue_def)

lemma logger_init_phase:
  assumes "uart_drains (device s)" and "length (buffer (g_log_buffer s)) = 64" and "interrupt_guard_counter s = 0"
  obtains t where "logger_init s = Some t" "log_phase (idtr s) [] (if_flag s) t"
proof -
  let ?s = "s\<lparr>g_log_buffer := (g_log_buffer s)\<lparr>head := 0, tail := 0, count := 0\<rparr>, default_level := LOG_LEVEL_INFO\<rparr>"
  have "log_phase (idtr s) [] (if_flag s) ?s"
    using assms by (simp add: log_phase_def log_ok_def log_queue_def)
  then obtain t where "output_string (''Logger initialized!'' @ [LF]) ?s = Some t" "log_phase (idtr s) [] (if_flag s) t"
    by (rule log_phase_says [where str = "''Logger initialized!'' @ [LF]"]) auto
  then show thesis by (intro that) (simp_all add: logger_init_def)
qed

text \<open>The lines the first messages make on the console.\<close>

definition kernel_log :: "LogEntry list" where
  "kernel_log = [log_entry LOG_LEVEL_INFO kernel_file ''This is an info message'',
     log_entry LOG_LEVEL_WARNING kernel_file ''This is a warning message'',
     log_entry LOG_LEVEL_ERROR kernel_file ''This is an error message'']"

lemma kernel_start_runs:
  fixes s :: "'z logger_scheme"
  assumes "uart_drains (device s)" and "length (buffer (g_log_buffer s)) = 64" and "interrupt_guard_counter s = 0"
  shows "\<exists>t out. kernel_start s = Some t \<and> log_phase (idtr s) [] True t
     \<and> sent t = out @ map of_char (crlf (concat (map entry_text kernel_log)))"
proof -
  obtain r i h where s0: "init_output s = s\<lparr>trace := h, port_registry := r, pm_initialized := i\<rparr>"
    unfolding init_output_def by (rule init_serial_frame)
  let ?s0 = "s\<lparr>trace := h, port_registry := r, pm_initialized := i\<rparr>"
  have step: "\<exists>t. output_string str u = Some t \<and> uart_drains (device t) \<and> g_log_buffer t = g_log_buffer u
      \<and> interrupt_guard_counter t = interrupt_guard_counter u \<and> idtr t = idtr u \<and> if_flag t = if_flag u"
    if "uart_drains (device u)" "NUL \<notin> set str" for u :: "'z logger_scheme" and str
  proof -
    from literal_runs [OF that(2,1)] obtain t where t: "output_string str u = Some t" "same_but_console u t" by metis
    then show ?thesis using that(1) by (cases u; cases t) (simp add: same_but_console_def)
  qed
  have "uart_drains (device ?s0)" using assms by simp
  from step [OF this, of "''hi shogun from c - Test Mode'' @ [LF]"] obtain s1 where
    1: "output_string (''hi shogun from c - Test Mode'' @ [LF]) ?s0 = Some s1" "uart_drains (device s1)"
      "g_log_buffer s1 = g_log_buffer s" "interrupt_guard_counter s1 = interrupt_guard_counter s" "idtr s1 = idtr s" by auto
  from step [OF 1(2), of "''Initializing logger...'' @ [LF]"] obtain s2 where
    2: "output_string (''Initializing logger...'' @ [LF]) s1 = Some s2" "uart_drains (device s2)"
      "g_log_buffer s2 = g_log_buffer s" "interrupt_guard_counter s2 = interrupt_guard_counter s" "idtr s2 = idtr s"
    using 1 by auto
  obtain s3 b where 3: "logger_init s2 = Some s3" "log_phase (idtr s) [] b s3"
    using logger_init_phase [OF 2(2)] 2 assms by metis
  obtain s4 where 4: "output_string (''Logger initialized successfully!'' @ [LF]) s3 = Some s4" "log_phase (idtr s) [] b s4"
    by (rule log_phase_says [OF 3(2), of "''Logger initialized successfully!'' @ [LF]"]) auto
  have dbg: "logger_debug kernel_file ''This is a debug message'' [] s4 = Some s4"
    using 4(2) by (simp add: logger_debug_def logger_get_module_level_def log_phase_def less_eq_LogLevel_def)
  have f: "format_ref ''This is an info message'' [] = Some ''This is an info message''"
    "format_ref ''This is a warning message'' [] = Some ''This is a warning message''"
    "format_ref ''This is an error message'' [] = Some ''This is an error message''" by code_simp+
  have lv: "LOG_LEVEL_INFO \<le> LOG_LEVEL_INFO" "LOG_LEVEL_INFO \<le> LOG_LEVEL_WARNING" "LOG_LEVEL_INFO \<le> LOG_LEVEL_ERROR"
    by (simp_all add: less_eq_LogLevel_def)
  obtain s5 where 5: "logger_info kernel_file ''This is an info message'' [] s4 = Some s5"
    "log_phase (idtr s) [log_entry LOG_LEVEL_INFO kernel_file ''This is an info message''] True s5"
    using log_phase_logs [OF 4(2) lv(1) _ f(1), of kernel_file] unfolding logger_at_level by auto
  obtain s6 where 6: "logger_warning kernel_file ''This is a warning message'' [] s5 = Some s6"
    "log_phase (idtr s) (take 2 kernel_log) True s6"
    using log_phase_logs [OF 5(2) lv(2) _ f(2), of kernel_file] unfolding logger_at_level by (auto simp: kernel_log_def)
  obtain s7 where 7: "logger_error kernel_file ''This is an error message'' [] s6 = Some s7" "log_phase (idtr s) kernel_log True s7"
    using log_phase_logs [OF 6(2) lv(3) _ f(3), of kernel_file] unfolding logger_at_level by (auto simp: kernel_log_def)
  obtain s8 where 8: "output_string (''Logger buffer populated with test messages, now servicing...'' @ [LF]) s7 = Some s8"
    "log_phase (idtr s) kernel_log True s8"
    by (rule log_phase_says [OF 7(2), of "''Logger buffer populated with test messages, now servicing...'' @ [LF]"]) auto
  obtain t where t: "logger_service s8 = Some t" "log_phase (idtr s) [] True t"
    "sent t = sent s8 @ map of_char (crlf (concat (map entry_text kernel_log)))"
    by (rule log_phase_services [OF 8(2)])
  have "kernel_start s = Some t"
    using s0 1(1) 2(1) 3(1) 4(1) dbg 5(1) 6(1) 7(1) 8(1) t(1) by (simp add: kernel_start_def Let_def)
  with t show ?thesis by blast
qed

section \<open>The custom interrupt\<close>

text \<open>
  A kernel with its controllers set up and the serial line drained: \<open>n\<close> counts
  the calls of the custom handler, \<open>H\<close> is the table of handlers, \<open>h\<close> the port
  events that are not the console's, and \<open>K\<close> the part of the state that belongs to
  heap, clock, ports and log.
\<close>

type_synonym kept = "(ram \<times> ptr \<times> ptr \<times> ptr) \<times> (ptr \<Rightarrow> RTCDriver) \<times> ptr \<times> (int \<Rightarrow> PortHandle) \<times> LogBuffer \<times> device_fn"

definition kept_part :: "'z async_scheme \<Rightarrow> kept" where
  "kept_part s = ((ram s, first_free s, wake_up_list s, monotonic_time s), rtc_drivers s, system_rtc_instance s, port_registry s,
     g_log_buffer s, device s)"

definition custom_phase :: "kept \<Rightarrow> u32 \<Rightarrow> (u8 \<Rightarrow> ptr) \<Rightarrow> io_event list \<Rightarrow> 'z async_scheme \<Rightarrow> bool" where
  "custom_phase K n H h s \<longleftrightarrow> uart_drains (device s) \<and> pic_ready s \<and> handlers_initialized s
     \<and> custom_handler_called s = n \<and> interrupt_handlers s = H \<and> other_io (trace s) = h \<and> kept_part s = K"

lemma custom_phase_console:
  assumes "custom_phase K n H h s" and "same_but_console s t"
  shows "custom_phase K n H h t"
proof -
  have "custom_handler_called t = custom_handler_called s" "kept_part t = kept_part s"
    using assms(2) by (cases s; cases t; simp add: same_but_console_def kept_part_def)+
  then show ?thesis
    using assms same_but_console_pic [OF assms(2)] same_but_console_pic_ready [OF assms(2)] same_but_console_device [OF assms(2)]
      same_but_console_io [OF assms(2)] by (simp add: custom_phase_def)
qed

lemma custom_phase_prints:
  assumes "custom_phase K n H h s" and "prints f str"
  obtains t where "f s = Some t" "custom_phase K n H h t" "sent t = sent s @ map of_char (crlf str)"
  using printsD [OF assms(2), of s] custom_phase_console [OF assms(1)] assms(1) unfolding custom_phase_def by metis

lemma custom_phase_says:
  assumes "custom_phase K n H h s" and "NUL \<notin> set str"
  obtains t where "output_string str s = Some t" "custom_phase K n H h t" "sent t = sent s @ map of_char (crlf str)"
  using custom_phase_prints [OF assms(1) prints_literal [OF assms(2)]] by metis

lemma custom_phase_cong:
  assumes "port_registry t = port_registry s" "master_pic_cmd t = master_pic_cmd s" "master_pic_data t = master_pic_data s"
    "slave_pic_cmd t = slave_pic_cmd s" "slave_pic_data t = slave_pic_data s" "device t = device s" "trace t = trace s"
    and "kept_part t = kept_part s" "custom_phase K n H h s" and "handlers_initialized t"
  shows "custom_phase K (custom_handler_called t) (interrupt_handlers t) h t"
  using assms pic_ready_cong [of t s] by (simp add: custom_phase_def)

text \<open>One software interrupt: the handler runs once, and no controller hears of it.\<close>

lemma custom_interrupt_runs:
  fixes s :: "'z async_scheme"
  assumes L: "handlers_distinct L" and nz: "sym_custom_interrupt_handler L \<noteq> 0"
    and ph: "custom_phase K n H h s" and H: "H 0x81 = sym_custom_interrupt_handler L"
  obtains t where "take_interrupt L 0x81 s = Some t" "custom_phase K (n + 1) H h t"
    "sent t = sent s @ map of_char (crlf (''Custom interrupt 0x81 handler called! Count: '' @ dec (unat (n + 1)) @ [LF]))"
proof -
  let ?s = "(cli s)\<lparr>custom_handler_called := n + 1\<rparr>"
  have ph': "custom_phase K (n + 1) H h ?s"
    using custom_phase_cong [of ?s s K n H h] ph by (simp add: kept_part_def cli_def custom_phase_def)
  have pr: "prints (\<lambda>s. do { s \<leftarrow> output_string ''Custom interrupt 0x81 handler called! Count: '' s; s \<leftarrow> put_u32 (n + 1) s; output_string [LF] s })
      (''Custom interrupt 0x81 handler called! Count: '' @ dec (unat (n + 1)) @ [LF])"
    by (intro prints_seq prints_put_u32 prints_literal) simp_all
  obtain u where u: "do { s \<leftarrow> output_string ''Custom interrupt 0x81 handler called! Count: '' ?s; s \<leftarrow> put_u32 (n + 1) s; output_string [LF] s } = Some u"
    "custom_phase K (n + 1) H h u"
    "sent u = sent ?s @ map of_char (crlf (''Custom interrupt 0x81 handler called! Count: '' @ dec (unat (n + 1)) @ [LF]))"
    by (rule custom_phase_prints [OF ph' pr])
  have "custom_interrupt_handler (cli s) = Some u"
  proof -
    have n: "custom_handler_called (cli s) = n" using ph by (simp add: custom_phase_def cli_def)
    have "custom_handler_called v = n + 1" if v: "output_string ''Custom interrupt 0x81 handler called! Count: '' ?s = Some v" for v
    proof -
      obtain v' where "output_string ''Custom interrupt 0x81 handler called! Count: '' ?s = Some v'" "custom_phase K (n + 1) H h v'"
        by (rule custom_phase_says [OF ph', of "''Custom interrupt 0x81 handler called! Count: ''"]) auto
      with v show ?thesis by (simp add: custom_phase_def)
    qed
    with u(1) n show ?thesis by (auto simp: custom_interrupt_handler_def bind_eq_Some_conv)
  qed
  moreover have "handlers_initialized (cli s)" "interrupt_handlers (cli s) 0x81 = sym_custom_interrupt_handler L"
    using ph H by (simp_all add: custom_phase_def cli_def)
  ultimately have "generic_interrupt_handler_no_error_code (call_handler L) 0x81 (cli s) = Some (pic_send_eoi 0x81 u)"
    using L nz by (auto simp: generic_interrupt_handler_no_error_code_def call_handler_def handlers_distinct_def)
  moreover have "pic_send_eoi 0x81 u = u"
    using u(2) pic_send_eoi_events [of u "0x81"] by (simp add: custom_phase_def eoi_events_def)
  ultimately have "take_interrupt L 0x81 s = Some (u\<lparr>if_flag := if_flag s\<rparr>)" by (simp add: take_interrupt_def)
  moreover have "custom_phase K (n + 1) H h (u\<lparr>if_flag := if_flag s\<rparr>)"
    using custom_phase_cong [of "u\<lparr>if_flag := if_flag s\<rparr>" u K "n + 1" H h] u(2) by (simp add: kept_part_def custom_phase_def)
  moreover have "sent (u\<lparr>if_flag := if_flag s\<rparr>) = sent u" "sent ?s = sent s" by (simp_all add: sent_def cli_def)
  ultimately show thesis using that u(3) by simp
qed

lemma kernel_custom_handler_runs:
  fixes s :: "'z async_scheme"
  assumes L: "handlers_distinct L" and nz: "sym_custom_interrupt_handler L \<noteq> 0" and ph: "custom_phase K n H h s"
  shows "\<exists>t out. kernel_custom_handler L s = Some t \<and> custom_phase K (n + 2) (H(0x81 := 0)) h t
     \<and> sent t = out @ map of_char (crlf (''Custom handler was called '' @ dec (unat (n + 2)) @ '' time(s)'' @ [LF]
          @ ''Custom handler unregistered successfully!'' @ [LF]))"
proof -
  let ?c = "sym_custom_interrupt_handler L"
  let ?H = "H(0x81 := ?c)"
  obtain s1 where 1: "output_string (''Registering custom handler for interrupt 0x81...'' @ [LF]) s = Some s1" "custom_phase K n H h s1"
    by (rule custom_phase_says [OF ph, of "''Registering custom handler for interrupt 0x81...'' @ [LF]"]) auto
  have reg: "register_interrupt_handler 0x81 ?c s1 = (0, s1\<lparr>interrupt_handlers := ?H\<rparr>)"
    using 1(2) by (cases s1) (simp add: register_handler_eq custom_phase_def)
  let ?s2 = "s1\<lparr>interrupt_handlers := ?H\<rparr>"
  have 2: "custom_phase K n ?H h ?s2" using custom_phase_cong [of ?s2 s1 K n H h] 1(2) by (simp add: kept_part_def custom_phase_def)
  obtain s3 where 3: "output_string (''Successfully registered custom handler for interrupt 0x81!'' @ [LF]) ?s2 = Some s3" "custom_phase K n ?H h s3"
    by (rule custom_phase_says [OF 2, of "''Successfully registered custom handler for interrupt 0x81!'' @ [LF]"]) auto
  obtain s4 where 4: "output_string (''Triggering interrupt 0x81...'' @ [LF]) s3 = Some s4" "custom_phase K n ?H h s4"
    by (rule custom_phase_says [OF 3(2), of "''Triggering interrupt 0x81...'' @ [LF]"]) auto
  obtain s5 where 5: "take_interrupt L 0x81 s4 = Some s5" "custom_phase K (n + 1) ?H h s5"
    by (rule custom_interrupt_runs [OF L nz 4(2)]) simp_all
  obtain s6 where 6: "output_string (''Triggering interrupt 0x81 again...'' @ [LF]) s5 = Some s6" "custom_phase K (n + 1) ?H h s6"
    by (rule custom_phase_says [OF 5(2), of "''Triggering interrupt 0x81 again...'' @ [LF]"]) auto
  obtain s7 where 7: "take_interrupt L 0x81 s6 = Some s7" "custom_phase K (n + 2) ?H h s7"
    by (rule custom_interrupt_runs [OF L nz 6(2)]) (simp_all add: add.assoc)
  obtain s8 where 8: "output_string ''Custom handler was called '' s7 = Some s8" "custom_phase K (n + 2) ?H h s8"
    "sent s8 = sent s7 @ map of_char (crlf ''Custom handler was called '')"
    by (rule custom_phase_says [OF 7(2), of "''Custom handler was called ''"]) auto
  obtain s9 where 9: "put_u32 (n + 2) s8 = Some s9" "custom_phase K (n + 2) ?H h s9"
    "sent s9 = sent s8 @ map of_char (crlf (dec (unat (n + 2))))"
    by (rule custom_phase_prints [OF 8(2) prints_put_u32])
  obtain s10 where 10: "output_string ('' time(s)'' @ [LF]) s9 = Some s10" "custom_phase K (n + 2) ?H h s10"
    "sent s10 = sent s9 @ map of_char (crlf ('' time(s)'' @ [LF]))"
    by (rule custom_phase_says [OF 9(2), of "'' time(s)'' @ [LF]"]) auto
  let ?s11 = "s10\<lparr>interrupt_handlers := H(0x81 := 0)\<rparr>"
  have unr: "snd (unregister_interrupt_handler 0x81 s10) = ?s11"
    using 10(2) by (cases s10) (simp add: unregister_interrupt_handler_def custom_phase_def)
  have 11: "custom_phase K (n + 2) (H(0x81 := 0)) h ?s11"
    using custom_phase_cong [of ?s11 s10 K "n + 2" ?H h] 10(2) by (simp add: kept_part_def custom_phase_def)
  obtain t where t: "output_string (''Custom handler unregistered successfully!'' @ [LF]) ?s11 = Some t" "custom_phase K (n + 2) (H(0x81 := 0)) h t"
    "sent t = sent ?s11 @ map of_char (crlf (''Custom handler unregistered successfully!'' @ [LF]))"
    by (rule custom_phase_says [OF 11, of "''Custom handler unregistered successfully!'' @ [LF]"]) auto
  have n: "custom_handler_called s8 = n + 2" using 8(2) by (simp add: custom_phase_def)
  have "kernel_custom_handler L s = Some t"
    using 1(1) reg 3(1) 4(1) 5(1) 6(1) 7(1) 8(1) n 9(1) 10(1) unr t(1) by (simp add: kernel_custom_handler_def Let_def)
  moreover have "sent ?s11 = sent s10" by (simp add: sent_def)
  then have "sent t = sent s7 @ map of_char (crlf (''Custom handler was called '' @ dec (unat (n + 2)) @ '' time(s)'' @ [LF]
          @ ''Custom handler unregistered successfully!'' @ [LF]))"
    using t(3) 10(3) 9(3) 8(3) by (simp add: crlf_append)
  ultimately show ?thesis using t(2) by blast
qed

section \<open>The length of a string\<close>

lemma strlen_loop_ends:
  assumes "m (str + of_nat n) = 0" and "\<forall>i < n. m (str + of_nat i) \<noteq> 0" and "k \<le> n"
  shows "strlen_loop m str (of_nat k) = Some (of_nat n)"
  using assms(3)
proof (induction "n - k" arbitrary: k)
  case 0
  with assms(1) show ?case by (subst strlen_loop.simps) simp
next
  case (Suc d)
  then have "k < n" by simp
  moreover have "strlen_loop m str (of_nat (Suc k)) = Some (of_nat n)" by (rule Suc.hyps(1)) (use Suc.hyps(2) \<open>k < n\<close> in simp_all)
  ultimately show ?case using assms(2) by (subst strlen_loop.simps) (simp add: add.commute)
qed

section \<open>The sleep test\<close>

text \<open>Printing keeps the clock going; \<open>k\<close> is the tick counter and \<open>c\<close> the clock.\<close>

definition clock_phase :: "linker_map \<Rightarrow> seg list \<Rightarrow> wake_entry list \<Rightarrow> block list \<Rightarrow> u32 \<Rightarrow> u32 \<Rightarrow> 'z async_scheme \<Rightarrow> bool" where
  "clock_phase L segs es bs k c s \<longleftrightarrow> clock_ok L s segs es bs \<and> system_tick_count s = k \<and> monotonic_time_get_ticks_global s = c"

lemma clock_phase_prints:
  assumes "clock_phase L segs es bs k c s" and "prints f str"
  obtains t where "f s = Some t" "clock_phase L segs es bs k c t" "sent t = sent s @ map of_char (crlf str)" "same_but_console s t"
proof -
  from assms(1) have "uart_drains (device s)" by (simp add: clock_phase_def clock_ok_def)
  from printsD [OF assms(2) this] obtain t where t: "f s = Some t" "sent t = sent s @ map of_char (crlf str)" "same_but_console s t" by metis
  moreover have "clock_phase L segs es bs k c t"
    using assms(1) clock_ok_console [OF t(3), of L] same_but_console_clock [OF t(3)] same_but_console_heap [OF t(3)] clock_cong [of t s]
    by (simp add: clock_phase_def)
  ultimately show thesis using that by blast
qed

lemma clock_phase_heap:
  assumes "same_but_console s t" and "heap_blocks s segs (wake_blocks s es bs)"
  shows "heap_blocks t segs (wake_blocks t es bs)"
  using assms same_but_console_clock [OF assms(1)] same_but_console_heap [OF assms(1)] heap_blocks_cong [of t s] wake_blocks_same [of t s es bs]
  by simp

lemma kernel_sleep_runs:
  fixes s :: "'z async_scheme"
  assumes ok: "clock_ok L s segs es bs" and hb: "heap_blocks s segs (wake_blocks s es bs)"
    and top: "unat (monotonic_time_get_ticks_global s) + 512 < 2 ^ 32"
  defines "k \<equiv> system_tick_count s"
  shows "\<exists>t segs' out. kernel_sleep (take_interrupt L 0x48) L s = Some t
     \<and> clock_phase L segs' (filter (\<lambda>e. \<not> expired (monotonic_time_get_ticks_global s + 512) e) es) bs
         (k + 512) (monotonic_time_get_ticks_global s + 512) t
     \<and> sent t = out @ map of_char (crlf (''Woke up! Ticks before: '' @ dec (unat k) @ '', Ticks after: '' @ dec (unat (k + 512))
          @ '', Elapsed: 512'' @ [LF] @ ''Sleep functionality demonstrated successfully!'' @ [LF]))"
proof -
  let ?c = "monotonic_time_get_ticks_global s"
  define after :: "'z async_scheme \<Rightarrow> 'z async_scheme option" where
    "after s = do { s \<leftarrow> output_string ''Woke up! Ticks before: '' s; s \<leftarrow> put_u32 k s;
       s \<leftarrow> output_string '', Ticks after: '' s; s \<leftarrow> put_u32 (k + 512) s;
       s \<leftarrow> output_string '', Elapsed: '' s; s \<leftarrow> put_u32 (k + 512 - k) s; s \<leftarrow> output_string [LF] s;
       output_string (''Sleep functionality demonstrated successfully!'' @ [LF]) s }" for s
  have pa: "prints after (''Woke up! Ticks before: '' @ dec (unat k) @ '', Ticks after: '' @ dec (unat (k + 512)) @ '', Elapsed: ''
      @ dec (unat (k + 512 - k)) @ [LF] @ (''Sleep functionality demonstrated successfully!'' @ [LF]))"
    unfolding after_def [abs_def] by (intro prints_seq prints_put_u32 prints_literal) simp_all
  have ph: "clock_phase L segs es bs k ?c (sti s)" using ok clock_cong [of "sti s" s] by (simp add: clock_phase_def k_def sti_def)
  obtain s1 where 1: "output_string (LF # ''Testing sleep functionality with monotonic clock...'' @ [LF]) (sti s) = Some s1"
    "clock_phase L segs es bs k ?c s1" "same_but_console (sti s) s1"
    by (rule clock_phase_prints [OF ph prints_literal, of "LF # ''Testing sleep functionality with monotonic clock...'' @ [LF]"]) auto
  obtain s2 where 2: "output_string ''Current system ticks: '' s1 = Some s2" "clock_phase L segs es bs k ?c s2" "same_but_console s1 s2"
    by (rule clock_phase_prints [OF 1(2) prints_literal, of "''Current system ticks: ''"]) auto
  obtain s3 where 3: "put_u32 k s2 = Some s3" "clock_phase L segs es bs k ?c s3" "same_but_console s2 s3"
    by (rule clock_phase_prints [OF 2(2) prints_put_u32])
  obtain s4 where 4: "output_string [LF] s3 = Some s4" "clock_phase L segs es bs k ?c s4" "same_but_console s3 s4"
    by (rule clock_phase_prints [OF 3(2) prints_literal, of "[LF]"]) auto
  obtain u where 5: "output_string (''Sleeping for 2 seconds (512 ticks at 256Hz)...'' @ [LF]) s4 = Some u"
    "clock_phase L segs es bs k ?c u" "same_but_console s4 u"
    by (rule clock_phase_prints [OF 4(2) prints_literal, of "''Sleeping for 2 seconds (512 ticks at 256Hz)...'' @ [LF]"]) auto
  have u: "same_but_console (sti s) u" using 1(3) 2(3) 3(3) 4(3) 5(3) by (blast intro: same_but_console_trans)
  have hs: "heap_blocks (sti s) segs (wake_blocks (sti s) es bs)"
    using hb heap_blocks_cong [of "sti s" s] wake_blocks_same [of "sti s" s es bs] by (simp add: sti_def)
  note hu = clock_phase_heap [OF u hs]
  have "clock_ok L u segs es bs" "monotonic_time_get_ticks_global u = ?c" "system_tick_count u = k"
    using 5(2) by (simp_all add: clock_phase_def)
  with sleep_seconds_runs [OF _ hu, of L 2] top obtain v segs' where
    v: "sleep_seconds (take_interrupt L 0x48) L 2 u = Some v"
      "clock_phase L segs' (filter (\<lambda>e. \<not> expired (?c + 512) e) es) bs (k + 512) (?c + 512) v"
    by (auto simp: clock_phase_def)
  obtain t where t: "after v = Some t" "clock_phase L segs' (filter (\<lambda>e. \<not> expired (?c + 512) e) es) bs (k + 512) (?c + 512) t"
    "sent t = sent v @ map of_char (crlf (''Woke up! Ticks before: '' @ dec (unat k) @ '', Ticks after: '' @ dec (unat (k + 512)) @ '', Elapsed: ''
      @ dec (unat (k + 512 - k)) @ [LF] @ (''Sleep functionality demonstrated successfully!'' @ [LF])))"
    by (rule clock_phase_prints [OF v(2) pa])
  have ticks: "get_system_ticks s2 = k" "get_system_ticks u = k" "get_system_ticks v = k + 512"
    using 2(2) 5(2) v(2) by (simp_all add: clock_phase_def get_system_ticks_def)
  have "kernel_sleep (take_interrupt L 0x48) L s = after v"
    using 1(1) 2(1) 3(1) 4(1) 5(1) v(1) ticks by (simp add: kernel_sleep_def after_def Let_def)
  moreover have "dec (512 :: nat) = ''512''" by code_simp
  ultimately show ?thesis using t by (intro exI [of _ t] exI [of _ segs'] exI [of _ "sent v"]) simp
qed

section \<open>Properties of the boot sequence\<close>

text \<open>
  C35 (interrupts before the interrupt table). On a machine whose serial line
  drains, with the log as it is at start, \<^verbatim>\<open>kernel_start\<close> returns and its last
  output is the info, warning and error message, in this order and without the
  debug message, which the initial level suppresses. It leaves interrupts
  enabled, whatever the flag was before, while the interrupt table register
  still has the value the boot loader gave it.
\<close>

theorem kernel_start_enables_interrupts:
  fixes s :: "'z logger_scheme"
  assumes "uart_drains (device s)" and "length (buffer (g_log_buffer s)) = 64" and "interrupt_guard_counter s = 0"
  shows "\<exists>t out. kernel_start s = Some t \<and> if_flag t \<and> idtr t = idtr s \<and> log_queue t = []
     \<and> sent t = out @ map of_char (crlf (''[INFO] src/kernel.c: This is an info message'' @ [LF]
          @ ''[WARNING] src/kernel.c: This is a warning message'' @ [LF]
          @ ''[ERROR] src/kernel.c: This is an error message'' @ [LF]))"
proof -
  have "concat (map entry_text kernel_log) = ''[INFO] src/kernel.c: This is an info message'' @ [LF]
          @ ''[WARNING] src/kernel.c: This is a warning message'' @ [LF]
          @ ''[ERROR] src/kernel.c: This is an error message'' @ [LF]" by code_simp
  with kernel_start_runs [OF assms] show ?thesis unfolding log_phase_def by metis
qed

theorem kernel_start_enables_interrupts_witness:
  "\<exists>t. \<not> if_flag (logger_boot uart_ready) \<and> kernel_start (logger_boot uart_ready) = Some t \<and> if_flag t
     \<and> idtr t = idtr (logger_boot uart_ready)"
  using kernel_start_enables_interrupts [of "logger_boot uart_ready"] by (auto simp: empty_log_def)

text \<open>
  The custom interrupt. \<^verbatim>\<open>kernel_custom_handler\<close> registers the handler,
  raises interrupt 0x81 twice and unregisters it: the handler has run exactly
  twice and the console says so, vector 0x81 has no handler afterwards, the
  other vectors have theirs, and no interrupt controller was told of an end of
  interrupt.
\<close>

theorem custom_handler_called_twice:
  fixes s :: "'z async_scheme"
  assumes "handlers_distinct L" and "sym_custom_interrupt_handler L \<noteq> 0" and "uart_drains (device s)" and "pic_ready s"
    and "handlers_initialized s"
  shows "\<exists>t out. kernel_custom_handler L s = Some t \<and> custom_handler_called t = custom_handler_called s + 2
     \<and> interrupt_handlers t = (interrupt_handlers s)(0x81 := 0) \<and> other_io (trace t) = other_io (trace s)
     \<and> sent t = out @ map of_char (crlf (''Custom handler was called '' @ dec (unat (custom_handler_called s + 2)) @ '' time(s)'' @ [LF]
          @ ''Custom handler unregistered successfully!'' @ [LF]))"
proof -
  have "custom_phase (kept_part s) (custom_handler_called s) (interrupt_handlers s) (other_io (trace s)) s"
    using assms(3-5) by (simp add: custom_phase_def)
  from kernel_custom_handler_runs [OF assms(1,2) this] show ?thesis unfolding custom_phase_def by blast
qed

theorem custom_handler_called_twice_witness:
  "\<exists>t. kernel_custom_handler example_linker (clock_example cmos_clock) = Some t \<and> custom_handler_called t = 2"
proof -
  have "clock_ok example_linker (clock_example cmos_clock) [(0x1000, 0x100)] example_entries []"
    by (rule clock_example_ok [OF uart_drains_clock])
  then have "uart_drains (device (clock_example cmos_clock))" "pic_ready (clock_example cmos_clock)"
    "handlers_initialized (clock_example cmos_clock)" by (simp_all add: clock_ok_def)
  moreover have "custom_handler_called (clock_example cmos_clock) = 0"
    by (simp add: clock_example_def kernel_example_def rtc_example_def async_boot_def async.defs idt_state.defs)
  ultimately show ?thesis
    using custom_handler_called_twice [OF example_handlers_distinct, of "clock_example cmos_clock"] by (auto simp: example_linker_def)
qed

text \<open>
  The sleep test. With the clock interrupts coming in, \<^verbatim>\<open>kernel_sleep\<close>
  returns after exactly 512 of them and its report says so: both counters are
  512 higher, the elapsed ticks it prints are 512, and the wake-up it scheduled
  is gone from the list.
\<close>

theorem kernel_sleep_reports:
  fixes s :: "'z async_scheme"
  assumes "clock_ok L s segs es bs" and "heap_blocks s segs (wake_blocks s es bs)"
    and "unat (monotonic_time_get_ticks_global s) + 512 < 2 ^ 32" and "k = system_tick_count s"
  shows "\<exists>t segs' out. kernel_sleep (take_interrupt L 0x48) L s = Some t
     \<and> clock_ok L t segs' (filter (\<lambda>e. \<not> expired (monotonic_time_get_ticks_global s + 512) e) es) bs
     \<and> system_tick_count t = k + 512 \<and> monotonic_time_get_ticks_global t = monotonic_time_get_ticks_global s + 512
     \<and> sent t = out @ map of_char (crlf (''Woke up! Ticks before: '' @ dec (unat k) @ '', Ticks after: '' @ dec (unat (k + 512))
          @ '', Elapsed: 512'' @ [LF] @ ''Sleep functionality demonstrated successfully!'' @ [LF]))"
  using kernel_sleep_runs [OF assms(1-3)] unfolding clock_phase_def assms(4) by blast

theorem kernel_sleep_reports_witness:
  "\<exists>t. kernel_sleep (take_interrupt example_linker 0x48) example_linker (clock_example cmos_clock) = Some t
     \<and> monotonic_time_get_ticks_global t = 517"
  using kernel_sleep_reports [OF clock_example_ok [OF uart_drains_clock] clock_example_heap _ refl] by (auto simp: clock_example_now)

text \<open>
  String length. \<^verbatim>\<open>my_strlen\<close> returns for every string of memory that has a
  zero byte and gives the position of the first one.
\<close>

theorem my_strlen_length:
  assumes "ram s (str + of_nat n) = 0" and "\<forall>i < n. ram s (str + of_nat i) \<noteq> 0" and "n < 2 ^ 32"
  shows "\<exists>len. my_strlen str s = Some len \<and> unat len = n"
  using strlen_loop_ends [where k = 0, OF assms(1,2)] assms(3) by (simp add: my_strlen_def unat_of_nat)

theorem my_strlen_length_witness:
  "\<exists>len. my_strlen 0x500 ((async_boot uart_ready)\<lparr>ram := (\<lambda>_. 0)(0x500 := 104, 0x501 := 105)\<rparr>) = Some len \<and> unat len = 2"
proof (rule my_strlen_length)
  have "i = 0 \<or> i = 1" if "i < 2" for i :: nat using that by linarith
  then show "\<forall>i < 2. ram ((async_boot uart_ready)\<lparr>ram := (\<lambda>_. 0)(0x500 := 104, 0x501 := 105)\<rparr>) (0x500 + of_nat i) \<noteq> 0" by fastforce
qed simp_all

end
