(* ===== verification/Kernel_Tasks.thy ===== *)
theory Kernel_Tasks
  imports Boot_Sequence
begin

text \<open>
  Sleeping in the background (\<^verbatim>\<open>sleep_seconds_async\<close>): a future is created, its
  wake-up is scheduled and a task for it is spawned, on the running kernel's one
  heap. From there to the pass that ends the task.
\<close>

section \<open>The running kernel while it allocates\<close>

text \<open>
  The running kernel on a heap none of whose blocks is claimed by the free list.
\<close>

definition system_heap :: "linker_map \<Rightarrow> ptr \<Rightarrow> 'z async_scheme \<Rightarrow> seg list \<Rightarrow> task list \<Rightarrow> wake_entry list \<Rightarrow> block list \<Rightarrow> bool" where
  "system_heap L E s segs ts es bs \<longleftrightarrow> system_ok L E s segs ts es bs
     \<and> heap_blocks s segs (blocks_of ts @ wake_blocks s es bs) \<and> bytes_at E 12 \<inter> seg_bytes segs = {}"

lemma same_but_heap_system:
  "same_but_heap s t \<Longrightarrow> handler_of (t :: 'z async_scheme) v = handler_of s v \<and> device t = device s
     \<and> wake_up_list t = wake_up_list s \<and> monotonic_time t = monotonic_time s \<and> g_should_poll t = g_should_poll s"
  by (cases s; cases t) (simp add: same_but_heap_def handler_of_def)

lemma system_heapI:
  fixes s :: "'z async_scheme"
  assumes old: "system_heap L E s segs ts0 es0 bs0" and fr: "same_but_heap s t"
    and ex: "exec_ok L E t segs' ts (wake_blocks s es bs)" and hb: "heap_blocks t segs' (blocks_of ts @ wake_blocks s es bs)"
    and path: "wake_path t (field (wake_up_list s) 0 t) es" "field (wake_up_list s) 4 t = of_nat (length es)"
    and cbs: "\<forall>e \<in> set es. known_callback L (fst (snd (snd e)))" and sub: "seg_bytes segs' \<subseteq> seg_bytes segs"
  shows "system_heap L E t segs' ts es bs"
proof -
  note same = same_but_heap_system [OF fr]
  have wb: "wake_blocks t es cs = wake_blocks s es cs" for cs using same by (intro wake_blocks_same) simp_all
  have "in_use_blocks t segs' (wake_blocks t es (blocks_of ts @ bs))"
    using heap_blocks_in_use [OF hb] wake_blocks_swap [of t segs' es "blocks_of ts" bs] wb by simp
  then have "wake_list_ok t segs' es (blocks_of ts @ bs)" using path same by (simp add: wake_list_ok_def)
  moreover have "clock_ok L s segs es0 (blocks_of ts0 @ bs0)" using old by (simp add: system_heap_def system_ok_def)
  ultimately have "clock_ok L t segs' es (blocks_of ts @ bs)"
    using clock_ok_wake [OF _ same_but_heap_wake [OF fr]] cbs by blast
  then have "system_ok L E t segs' ts es bs"
    using old ex same wb by (simp add: system_heap_def system_ok_def)
  then show ?thesis using old hb sub wb by (auto simp: system_heap_def)
qed

lemma system_heapD:
  fixes s :: "'z async_scheme"
  assumes "system_heap L E s segs ts es bs"
  shows "exec_ok L E s segs ts (wake_blocks s es bs)" "wake_list_ok s segs es (blocks_of ts @ bs)"
    "heap_blocks s segs (blocks_of ts @ wake_blocks s es bs)" "heap_blocks s segs (wake_blocks s es (blocks_of ts @ bs))"
    "\<forall>e \<in> set es. known_callback L (fst (snd (snd e)))" "bytes_at E 12 \<inter> seg_bytes segs = {}"
proof -
  show hb: "heap_blocks s segs (blocks_of ts @ wake_blocks s es bs)" using assms by (simp add: system_heap_def)
  show "heap_blocks s segs (wake_blocks s es (blocks_of ts @ bs))"
    by (rule heap_blocks_perm [OF hb]) (simp add: wake_blocks_def)
qed (use assms in \<open>simp_all add: system_heap_def system_ok_def clock_ok_def\<close>)

text \<open>
  A step of the running kernel that takes memory: it writes free bytes and the
  bytes \<open>X\<close>, frees nothing and leaves the clock alone.
\<close>

definition heap_step :: "nat set \<Rightarrow> 'z async_scheme \<Rightarrow> seg list \<Rightarrow> 'z async_scheme \<Rightarrow> seg list \<Rightarrow> bool" where
  "heap_step X s segs t segs' \<longleftrightarrow> same_outside (seg_bytes segs \<union> X) (ram s) (ram t) \<and> seg_bytes segs' \<subseteq> seg_bytes segs
     \<and> monotonic_time_get_ticks_global t = monotonic_time_get_ticks_global s \<and> wake_up_list t = wake_up_list s"

lemma heap_step_trans: "heap_step X s segs t segs' \<Longrightarrow> heap_step X t segs' u segs'' \<Longrightarrow> heap_step X s segs u segs''"
  unfolding heap_step_def by (auto elim!: same_outside_trans intro: same_outside_mono)

lemma heap_step_mono: "heap_step X s segs t segs' \<Longrightarrow> X \<subseteq> Y \<union> seg_bytes segs \<Longrightarrow> heap_step Y s segs t segs'"
  unfolding heap_step_def by (auto elim!: same_outside_mono)

lemma heap_step_field:
  assumes "heap_step X s segs t segs'" and "(seg_bytes segs \<union> X) \<inter> extent (q, m) = {}" and "unat off + 4 \<le> m" and "unat q + m \<le> 2 ^ 32"
  shows "field q off t = field q off s"
  using assms field_block_kept by (metis heap_step_def)

text \<open>Writes to free bytes, whatever becomes of them, leave the running kernel alone.\<close>

lemma system_heap_free_bytes:
  fixes s :: "'z async_scheme"
  assumes ok: "system_heap L E s segs ts es bs" and fr: "same_but_heap s t" and out: "same_outside (seg_bytes segs) (ram s) (ram t)"
    and hb: "heap_blocks t segs' (blocks_of ts @ wake_blocks s es bs')" and sub: "seg_bytes segs' \<subseteq> seg_bytes segs"
    and bs': "area bs' \<subseteq> area bs \<union> seg_bytes segs"
  shows "system_heap L E t segs' ts es bs'" "heap_step {} s segs t segs'"
proof -
  let ?Q = "seg_bytes segs" and ?B = "blocks_of ts @ wake_blocks s es bs"
  note d = system_heapD [OF ok] and same = same_but_heap_system [OF fr]
  have use: "in_use_blocks s segs (wake_blocks s es bs)" using in_use_subset heap_blocks_in_use [OF d(3)] by blast
  have Q: "?Q \<inter> area (blocks_of ts) = {}" "?Q \<inter> area (wake_blocks s es bs) = {}" using heap_blocks_area [OF d(3)] by auto
  have E: "exec_apart E segs ?B" using d(1) by (simp add: exec_ok_def)
  have "headers segs' \<subseteq> ?Q" using headers_seg_bytes [of segs'] sub by blast
  moreover have "area (wake_blocks s es bs') \<subseteq> area (wake_blocks s es bs) \<union> ?Q" using bs' by (auto simp: wake_blocks_def)
  ultimately have "exec_apart E segs' (blocks_of ts @ wake_blocks s es bs')"
    using E d(6) unfolding exec_apart_def area_simps by blast
  then have ex: "exec_ok L E t segs' ts (wake_blocks s es bs')"
    using same d(6) Q(1) heap_blocks_in_use [OF hb]
    by (intro exec_ok_kept [OF d(1) out]) (auto simp: wake_blocks_def)
  note keep = wake_path_outside [OF use out Q(2)]
  show "system_heap L E t segs' ts es bs'"
    using d(2) keep by (intro system_heapI [OF ok fr ex hb _ _ d(5) sub]) (simp_all add: wake_list_ok_def)
  have "field (monotonic_time s) 0 t = field (monotonic_time s) 0 s"
  proof (rule field_block_kept [OF out, of _ 4])
    show "?Q \<inter> extent (monotonic_time s, 4) = {}" using Q(2) by (auto simp: wake_blocks_def)
    show "unat (monotonic_time s) + 4 \<le> 2 ^ 32" by (rule block_end [OF use]) (simp add: wake_blocks_def)
  qed simp
  then show "heap_step {} s segs t segs'"
    using same out sub by (simp add: heap_step_def monotonic_time_get_ticks_global_def)
qed

text \<open>Scheduling a wake-up of the kernel's.\<close>

lemma system_heap_add:
  fixes s :: "'z async_scheme"
  assumes ok: "system_heap L E s segs ts es bs" and cb: "known_callback L cb" and room: "has_room (k + 28) segs"
  obtains t a segs' where "wake_up_list_add tick cb dat s = Some t" "system_heap L E t segs' ts ((a, tick, cb, dat) # es) bs"
    "heap_step (bytes_at (wake_up_list s) 8) s segs t segs'" "has_room k segs'"
proof -
  let ?A = "seg_bytes segs \<union> bytes_at (wake_up_list s) 8"
  note d = system_heapD [OF ok]
  have "has_room 28 segs" using room by (rule has_room_mono) simp
  then obtain t a segs' where t: "wake_up_list_add tick cb dat s = Some t" "same_but_heap s t"
    "monotonic_time_get_ticks_global t = monotonic_time_get_ticks_global s" "wake_added s segs es (blocks_of ts @ bs) (a, tick, cb, dat) t segs'"
    using add_runs [OF d(2,4), of tick cb dat] by blast
  let ?es = "(a, tick, cb, dat) # es"
  from t(4) have add: "wake_list_ok t segs' ?es (blocks_of ts @ bs)" "heap_blocks t segs' (wake_blocks t ?es (blocks_of ts @ bs))"
    "same_outside ?A (ram s) (ram t)" "seg_bytes segs' \<subseteq> seg_bytes segs" "extent (a, 16) \<subseteq> seg_bytes segs" "leaves_room 28 segs segs'"
    by (simp_all add: wake_added_def entry_block_def)
  note same = same_but_heap_system [OF t(2)]
  have wb: "wake_blocks t ?es cs = wake_blocks s ?es cs" for cs using same by (intro wake_blocks_same) simp_all
  have hb: "heap_blocks t segs' (blocks_of ts @ wake_blocks s ?es bs)"
    by (rule heap_blocks_perm [OF add(2)]) (simp add: wb, simp add: wake_blocks_def)
  have sys: "system_ok L E s segs ts es bs" using ok by (simp add: system_heap_def)
  note ap = system_apart [OF sys]
  have W: "bytes_at (wake_up_list s) 8 \<subseteq> area (wake_blocks s es bs)" by (rule wake_area)
  have "exec_apart E segs' (blocks_of ts @ wake_blocks s ?es bs)"
  proof -
    have "headers segs' \<subseteq> seg_bytes segs" using headers_seg_bytes [of segs'] add(4) by blast
    moreover have "area (wake_blocks s ?es bs) \<subseteq> area (wake_blocks s es bs) \<union> seg_bytes segs"
      using add(5) by (auto simp: wake_blocks_def entry_block_def)
    ultimately show ?thesis using d(1,6) unfolding exec_ok_def exec_apart_def area_simps by blast
  qed
  moreover have "?A \<inter> area (blocks_of ts) = {}" "?A \<inter> bytes_at E 12 = {}"
    using ap(1,4) W heap_blocks_area [OF d(3)] d(6) unfolding area_simps by blast+
  ultimately have ex: "exec_ok L E t segs' ts (wake_blocks s ?es bs)"
    using same heap_blocks_in_use [OF hb] by (intro exec_ok_kept [OF d(1) add(3)]) (simp_all add: wake_blocks_def)
  have "system_heap L E t segs' ts ?es bs"
    using add(1) same d(5) cb by (intro system_heapI [OF ok t(2) ex hb _ _ _ add(4)]) (auto simp: wake_list_ok_def)
  moreover have "has_room k segs'" by (rule leaves_roomD [OF add(6) room])
  moreover have "heap_step (bytes_at (wake_up_list s) 8) s segs t segs'" using add(3,4) t(3) same by (simp add: heap_step_def)
  ultimately show thesis using that t(1) by blast
qed

section \<open>Creating a sleep future\<close>

lemma system_heap_alloc:
  fixes s :: "'z async_scheme"
  assumes ok: "system_heap L E s segs ts es bs" and sz: "malloc_served sz" "4 \<le> unat sz" and room: "has_room (k + (unat sz + 12)) segs"
  obtains f t segs' where "malloc sz s = Some (f, t)" "f \<noteq> 0" "same_but_heap s t"
    "heap_blocks t segs' ((f, unat sz) # blocks_of ts @ wake_blocks s es bs)" "same_outside (seg_bytes segs) (ram s) (ram t)"
    "seg_bytes segs' \<subseteq> seg_bytes segs" "extent (f, unat sz) \<subseteq> seg_bytes segs" "has_room k segs'"
proof -
  show thesis
  proof (rule malloc_block [OF system_heapD(3) [OF ok] sz], goal_cases full block)
    case full
    then show thesis using has_room_mono [OF room] by simp
  next
    case (block f t segs')
    with leaves_roomD [OF block(8) room] that show thesis by blast
  qed
qed

text \<open>
  The head of every future, written by the three functions that create one: its
  table, the flag and no waker; then fields after it.
\<close>

definition future_head :: "ptr \<Rightarrow> ptr \<Rightarrow> 'z mem_scheme \<Rightarrow> 'z mem_scheme" where
  "future_head f vt s = set_field f 8 0 (set_byte (f + 4) 0 (set_field f 0 vt s))"

lemma future_head_written:
  fixes u :: "'z mem_scheme"
  assumes hb: "heap_blocks u segs ((f, n) # bs)" and n: "12 \<le> n"
  shows "heap_blocks (future_head f vt u) segs ((f, n) # bs)" "same_outside (extent (f, n)) (ram u) (ram (future_head f vt u))"
    "same_but_heap u (future_head f vt u)" "field f 0 (future_head f vt u) = vt" "ram (future_head f vt u) (f + 4) = 0"
proof -
  let ?u1 = "set_field f 0 vt u" and ?u2 = "set_byte (f + 4) 0 (set_field f 0 vt u)"
  have fm: "(f, n) \<in> set ((f, n) # bs)" by simp
  have ends: "unat f + n \<le> 2 ^ 32" by (rule block_end [OF heap_blocks_in_use [OF hb] fm])
  have u4: "unat (f + 4) = unat f + 4" using ends n by (simp add: unat_add_no_wrap)
  have o1: "same_outside (bytes_of f 0) (ram u) (ram ?u1)" by (rule set_field_outside) (use ends n in simp)
  have o2: "same_outside {unat f + 4} (ram ?u1) (ram ?u2)" using same_outside_byte [of "f + 4"] u4 by (simp add: set_byte_def)
  have o3: "same_outside (bytes_of f 8) (ram ?u2) (ram (future_head f vt u))"
    unfolding future_head_def by (rule set_field_outside) (use ends n in simp)
  have h1: "heap_blocks ?u1 segs ((f, n) # bs)" by (rule set_field_heap_blocks [OF hb fm]) (use n in simp)
  have "{unat f + 4} \<subseteq> extent (f, n)" using n by (auto simp: extent_def)
  then have h2: "heap_blocks ?u2 segs ((f, n) # bs)"
  proof (intro heap_blocks_same_outside [OF h1 o2], goal_cases)
    case 2
    then show ?case using heap_blocks_area [OF h1] headers_seg_bytes [of segs] by auto
  next
    case (3 q m)
    then show ?case using block_apart [OF heap_blocks_in_use [OF h1] fm, of "(q, m)"] by (cases "(q, m) = (f, n)") (auto simp: extent_def)
  qed (simp add: set_byte_def)
  show "heap_blocks (future_head f vt u) segs ((f, n) # bs)"
    unfolding future_head_def by (rule set_field_heap_blocks [OF h2 fm]) (use n in simp)
  have "bytes_of f 0 \<union> {unat f + 4} \<union> bytes_of f 8 \<subseteq> extent (f, n)" using n by (auto simp: bytes_of_def extent_def)
  then show "same_outside (extent (f, n)) (ram u) (ram (future_head f vt u))"
    using o1 o2 o3 by (meson le_sup_iff same_outside_mono same_outside_trans)
  show "same_but_heap u (future_head f vt u)"
    unfolding future_head_def by (blast intro: same_but_heap_trans set_field_frame set_byte_frame)
  have "field f 0 (future_head f vt u) = field f 0 ?u2" by (rule field_same_outside [OF o3]) (use ends n in \<open>auto simp: bytes_of_def\<close>)
  also have "\<dots> = field f 0 ?u1" by (rule field_same_outside [OF o2]) (use ends n in \<open>auto simp: bytes_of_def\<close>)
  finally show "field f 0 (future_head f vt u) = vt" by simp
  have "unat (f + 4) \<notin> bytes_of f 8" using u4 by (simp add: bytes_of_def)
  then show "ram (future_head f vt u) (f + 4) = 0" using o3 by (simp add: same_outside_def set_byte_def)
qed

text \<open>A future on the running kernel: its head, then the fields that belong to its kind.\<close>

definition future_tail :: "ptr \<Rightarrow> nat \<Rightarrow> field_write list \<Rightarrow> bool" where
  "future_tail f n ws \<longleftrightarrow> (\<forall>(p, off, v) \<in> set ws. p = f \<and> 12 \<le> unat off \<and> unat off + 4 \<le> n)
     \<and> pairwise_disjoint (map (\<lambda>(p, off, v). bytes_of p off) ws)"

lemma system_heap_future:
  fixes s :: "'z async_scheme"
  assumes ok: "system_heap L E s segs ts es bs" and sz: "malloc_served sz" "12 \<le> unat sz" and room: "has_room (k + (unat sz + 12)) segs"
    and ws: "\<And>f. future_tail f (unat sz) (ws f)"
  obtains f u segs' where "malloc sz s = Some (f, u)" "f \<noteq> 0" "same_but_heap s u"
    "system_heap L E (set_fields (ws f) (future_head f vt u)) segs' ts es ((f, unat sz) # bs)" "has_room k segs'"
    "field f 0 (set_fields (ws f) (future_head f vt u)) = vt" "ram (set_fields (ws f) (future_head f vt u)) (f + 4) = 0"
    "\<And>p off v. (p, off, v) \<in> set (ws f) \<Longrightarrow> field p off (set_fields (ws f) (future_head f vt u)) = v"
    "heap_step {} s segs (set_fields (ws f) (future_head f vt u)) segs'" "heap_step {} s segs (future_head f vt u) segs'"
    "extent (f, unat sz) \<subseteq> seg_bytes segs"
proof -
  have "4 \<le> unat sz" using sz(2) by simp
  from system_heap_alloc [OF ok sz(1) this room] obtain f u segs' where
    u: "malloc sz s = Some (f, u)" "f \<noteq> 0" "same_but_heap s u"
      "heap_blocks u segs' ((f, unat sz) # blocks_of ts @ wake_blocks s es bs)" "same_outside (seg_bytes segs) (ram s) (ram u)"
      "seg_bytes segs' \<subseteq> seg_bytes segs" "extent (f, unat sz) \<subseteq> seg_bytes segs" "has_room k segs'" by blast
  let ?h = "future_head f vt u" and ?t = "set_fields (ws f) (future_head f vt u)" and ?B = "(f, unat sz) # blocks_of ts @ wake_blocks s es bs"
  note h = future_head_written [OF u(4) sz(2), of vt]
  have within: "within ?B (ws f)" using ws [of f] by (fastforce simp: future_tail_def within_def)
  note fits = within_fits [OF heap_blocks_in_use [OF h(1)] within]
  have wr: "written (ws f) \<subseteq> extent (f, unat sz) - {unat f..<unat f + 8}"
    using ws [of f] by (fastforce simp: future_tail_def written_def bytes_of_def extent_def)
  have oh: "same_outside (seg_bytes segs) (ram s) (ram ?h)"
    by (rule same_outside_trans [OF u(5) same_outside_mono [OF h(2) u(7)]])
  have "same_outside (seg_bytes segs) (ram ?h) (ram ?t)"
    by (rule same_outside_mono [OF set_fields_outside [OF fits]]) (use wr u(7) in blast)
  with oh have ot: "same_outside (seg_bytes segs) (ram s) (ram ?t)" by (rule same_outside_trans)
  have hb: "heap_blocks x segs' (blocks_of ts @ wake_blocks s es ((f, unat sz) # bs))" if "heap_blocks x segs' ?B" for x :: "'z async_scheme"
    by (rule heap_blocks_perm [OF that]) (simp add: wake_blocks_def)
  have fr: "same_but_heap s ?h" "same_but_heap s ?t"
    using same_but_heap_trans [OF u(3) h(3)] same_but_heap_trans [OF _ set_fields_frame] by blast+
  have sub: "area ((f, unat sz) # bs) \<subseteq> area bs \<union> seg_bytes segs" using u(7) by auto
  note sh = system_heap_free_bytes [OF ok fr(1) oh hb [OF h(1)] u(6) sub]
    and st = system_heap_free_bytes [OF ok fr(2) ot hb [OF set_fields_heap_blocks [OF h(1) within]] u(6) sub]
  have ends: "unat f + unat sz \<le> 2 ^ 32" by (rule block_end [OF heap_blocks_in_use [OF u(4)]]) simp
  have "field f 0 ?t = field f 0 ?h"
    by (rule field_set_fields_other [OF fits]) (use wr ends sz(2) in \<open>auto simp: bytes_of_def\<close>)
  moreover have "ram ?t (f + 4) = ram ?h (f + 4)"
  proof -
    have "unat (f + 4) = unat f + 4" using ends sz(2) by (simp add: unat_add_no_wrap)
    then have "unat (f + 4) \<notin> written (ws f)" using wr by auto
    then show ?thesis using set_fields_outside [OF fits, of ?h] by (simp add: same_outside_def)
  qed
  moreover have "field p off ?t = v" if "(p, off, v) \<in> set (ws f)" for p off v
    by (rule field_set_fields [OF fits that]) (use ws [of f] in \<open>simp add: future_tail_def\<close>)
  ultimately show thesis using that [of f u segs'] u h(4,5) st sh(2) fr by simp
qed

text \<open>
  A future in the heap that is not queued yet: \<open>f\<close> of \<open>n\<close> bytes beside the blocks
  \<open>bs\<close>, ready to be spawned.
\<close>

definition new_future :: "linker_map \<Rightarrow> ptr \<Rightarrow> 'z async_scheme \<Rightarrow> seg list \<Rightarrow> task list \<Rightarrow> wake_entry list \<Rightarrow> ptr \<Rightarrow> nat
    \<Rightarrow> block list \<Rightarrow> bool" where
  "new_future L E s segs ts es f n bs \<longleftrightarrow> system_heap L E s segs ts es ((f, n) # bs) \<and> future_in L s f n"

lemma future_in_kept:
  assumes st: "heap_step X s segs t segs'" and dj: "(seg_bytes segs \<union> X) \<inter> extent (f, n) = {}" and "unat f + n \<le> 2 ^ 32"
    and fn: "future_in L s f n"
  shows "future_in L t f n"
proof -
  have n: "n = 16 \<or> n = 24" using fn by (auto simp: future_in_def)
  have "field f 0 t = field f 0 s" by (rule heap_step_field [OF st dj]) (use assms(3) n in auto)
  moreover have "get_byte (f + 4) t = get_byte (f + 4) s"
  proof (rule get_byte_same_outside)
    show "same_outside (seg_bytes segs \<union> X) (ram s) (ram t)" using st by (simp add: heap_step_def)
    have "unat (f + 4) = unat f + 4" using assms(3) n by (auto simp: unat_add_no_wrap)
    then have "unat (f + 4) \<in> extent (f, n)" using n by (auto simp: extent_def)
    then show "unat (f + 4) \<notin> seg_bytes segs \<union> X" using dj by blast
  qed
  ultimately show ?thesis using fn by (simp add: future_in_def)
qed

lemma other_block_apart:
  assumes ok: "system_heap L E s segs ts es ((f, n) # bs)"
  shows "(seg_bytes segs \<union> bytes_at (wake_up_list s) 8) \<inter> extent (f, n) = {}" "unat f + n \<le> 2 ^ 32"
proof -
  note hb = system_heapD(3) [OF ok]
  have fm: "(f, n) \<in> set (blocks_of ts @ wake_blocks s es ((f, n) # bs))" by (simp add: wake_blocks_def)
  show "unat f + n \<le> 2 ^ 32" by (rule block_end [OF heap_blocks_in_use [OF hb] fm])
  have "in_use_blocks s segs ((wake_up_list s, 8) # (f, n) # map entry_block es @ (monotonic_time s, 4) # bs)"
    using in_use_subset [OF heap_blocks_in_use [OF hb]] by (rule in_use_perm) (simp add: wake_blocks_def)
  then have "extent (wake_up_list s, 8) \<inter> extent (f, n) = {}" by (simp add: in_use_blocks_def)
  moreover have "bytes_at (wake_up_list s) 8 \<subseteq> extent (wake_up_list s, 8)" by (auto simp: bytes_at_def extent_def)
  moreover have "extent (f, n) \<inter> seg_bytes segs = {}" using heap_blocks_area [OF hb] area_member [OF fm] by blast
  ultimately show "(seg_bytes segs \<union> bytes_at (wake_up_list s) 8) \<inter> extent (f, n) = {}" by blast
qed

lemma sleep_future_created:
  fixes s :: "'z async_scheme" and n :: u32
  assumes ok: "system_heap L E s segs ts es bs" and room: "has_room (k + 56) segs"
  defines "target \<equiv> monotonic_time_get_ticks_global s + n"
  obtains f t a segs' where "sleep_future_create L n s = Some (f, t)" "f \<noteq> 0"
    "new_future L E t segs' ts ((a, target, sym_sleep_future_callback L, 0) # es) f 16 bs" "field f 12 t = target"
    "heap_step (bytes_at (wake_up_list s) 8) s segs t segs'" "extent (f, 16) \<subseteq> seg_bytes segs" "has_room k segs'"
proof -
  let ?W = "bytes_at (wake_up_list s) 8" and ?vt = "sym_sleep_future_vtable L"
  have sz: "malloc_served 16" "12 \<le> unat (16 :: u32)" by (simp_all add: malloc_served_def)
  have room1: "has_room ((k + 28) + (unat (16 :: u32) + 12)) segs" by (rule has_room_mono [OF room]) simp
  have tail: "future_tail f (unat (16 :: u32)) [(f, 12, target)]" for f by (simp add: future_tail_def)
  obtain f u segs1 where f: "malloc 16 s = Some (f, u)" "f \<noteq> 0" "extent (f, 16) \<subseteq> seg_bytes segs"
    and sys: "system_heap L E (set_fields [(f, 12, target)] (future_head f ?vt u)) segs1 ts es ((f, 16) # bs)"
    and rm: "has_room (k + 28) segs1"
    and fl: "field f 0 (set_fields [(f, 12, target)] (future_head f ?vt u)) = ?vt"
      "ram (set_fields [(f, 12, target)] (future_head f ?vt u)) (f + 4) = 0"
      "field f 12 (set_fields [(f, 12, target)] (future_head f ?vt u)) = target"
    and st: "heap_step {} s segs (set_fields [(f, 12, target)] (future_head f ?vt u)) segs1" "heap_step {} s segs (future_head f ?vt u) segs1"
    by (rule system_heap_future [OF ok sz room1 tail, where vt = ?vt]) auto
  define v where "v = set_fields [(f, 12, target)] (future_head f ?vt u)"
  have cb: "known_callback L (sym_sleep_future_callback L)" by (simp add: known_callback_def)
  obtain t a segs' where t: "wake_up_list_add target (sym_sleep_future_callback L) 0 v = Some t"
      "system_heap L E t segs' ts ((a, target, sym_sleep_future_callback L, 0) # es) ((f, 16) # bs)"
      "heap_step (bytes_at (wake_up_list v) 8) v segs1 t segs'" "has_room k segs'"
    by (rule system_heap_add [OF sys [folded v_def] cb rm, of target 0])
  have W: "wake_up_list v = wake_up_list s" using st(1) by (simp add: heap_step_def v_def)
  note ap = other_block_apart [OF sys [folded v_def]]
  have "field f 12 t = field f 12 v" by (rule heap_step_field [OF t(3) ap(1) _ ap(2)]) simp
  moreover have "future_in L v f 16" using fl by (simp add: future_in_def get_byte_def v_def)
  then have "future_in L t f 16" by (rule future_in_kept [OF t(3) ap])
  moreover have "sleep_future_create L n s = Some (f, t)"
    using f(1,2) t(1) st(2) fl(3) by (simp add: sleep_future_create_def Let_def v_def future_head_def target_def heap_step_def)
  moreover have "heap_step ?W s segs t segs'"
    using heap_step_trans [OF heap_step_mono [OF st(1) [folded v_def], of ?W]] t(3) W by simp
  ultimately show thesis
    using that [of f t segs' a] f(2,3) t(2,4) fl(3) by (simp add: new_future_def v_def)
qed

section \<open>Spawning it\<close>

lemma system_heap_console:
  fixes s :: "'z async_scheme"
  assumes "same_but_console (s\<lparr>g_should_poll := b\<rparr>) t" and "system_heap L E s segs ts es bs"
  shows "system_heap L E t segs ts es bs" "heap_step {} s segs t segs" "ram t = ram s"
proof -
  let ?s = "s\<lparr>g_should_poll := b\<rparr>"
  have e: "ram t = ram s" "first_free t = first_free s" using same_but_console_heap [OF assms(1)] by simp_all
  have c: "wake_up_list t = wake_up_list s" "monotonic_time t = monotonic_time s" using same_but_console_clock [OF assms(1)] by simp_all
  have "system_ok L E t segs ts es bs" using system_ok_console [OF assms(1)] assms(2) by (simp add: system_heap_def)
  then show "system_heap L E t segs ts es bs"
    using assms(2) heap_blocks_cong [OF e] wake_blocks_same [OF c] by (simp add: system_heap_def)
  show "heap_step {} s segs t segs"
    using c e field_cong [OF e(1)] by (simp add: heap_step_def monotonic_time_get_ticks_global_def)
qed (use same_but_console_heap [OF assms(1)] in simp)

lemma system_heap_spawn:
  fixes s :: "'z async_scheme"
  assumes new: "new_future L E s segs ts es f n bs" and room: "has_room (k + 44) segs"
  obtains t a w segs' where "executor_spawn L E f s = Some t" "system_heap L E t segs' ((a, f, n, w) # ts) es bs" "w \<noteq> 0"
    "g_should_poll t" "heap_step (bytes_of f 8 \<union> bytes_at E 12) s segs t segs'" "has_room k segs'"
proof -
  from new have ok: "system_heap L E s segs ts es ((f, n) # bs)" and fn: "future_in L s f n" by (simp_all add: new_future_def)
  note d = system_heapD [OF ok]
  have hb: "heap_blocks s segs (blocks_of ts @ (f, n) # wake_blocks s es bs)"
    by (rule heap_blocks_perm [OF d(3)]) (simp add: wake_blocks_def)
  have ex: "exec_ok L E s segs ts ((f, n) # wake_blocks s es bs)"
    by (rule exec_ok_perm [OF d(1)]) (simp add: wake_blocks_def)
  then have ready: "spawn_ready L E s segs ts f n (wake_blocks s es bs)"
    using hb d(6) fn by (simp add: spawn_ready_def clock_in_wake_blocks)
  have rooms: "has_room 44 segs" "has_room 20 segs" using has_room_mono [OF room] by simp_all
  obtain a w t u segs' where t: "executor_spawn L E f s = Some t" "spawned L E s segs ts (a, f, n, w) (wake_blocks s es bs) u segs'"
    "same_but_heap s u" "same_but_console (u\<lparr>g_should_poll := True\<rparr>) t"
    by (rule executor_spawn_runs [OF ready]) (use rooms in auto)
  let ?A = "seg_bytes segs \<union> bytes_of f 8 \<union> bytes_at E 12"
  from t(2) have sp: "exec_ok L E u segs' ((a, f, n, w) # ts) (wake_blocks s es bs)" "same_outside ?A (ram s) (ram u)"
    "heap_blocks u segs' (blocks_of ((a, f, n, w) # ts) @ wake_blocks s es bs)" "seg_bytes segs' \<subseteq> seg_bytes segs"
    "w \<noteq> 0" "leaves_room 44 segs segs'" using rooms by (simp_all add: spawned_def del: blocks_of_simps)
  have f8: "bytes_of f 8 \<subseteq> extent (f, n)" by (rule bytes_in_extent) (use fn in \<open>auto simp: future_in_def\<close>)
  have use: "in_use_blocks s segs ((f, n) # wake_blocks s es bs)" by (rule in_use_subset [OF heap_blocks_in_use [OF hb]])
  have E: "bytes_at E 12 \<inter> area ((f, n) # wake_blocks s es bs) = {}" using ex by (auto simp: exec_ok_def exec_apart_def)
  have fW: "extent (f, n) \<inter> area (wake_blocks s es bs) = {}" using extents_disjoint [of s segs "[(f, n)]"] use by (simp add: area_def)
  have Q: "area ((f, n) # wake_blocks s es bs) \<inter> seg_bytes segs = {}" using heap_blocks_area [OF hb] by auto
  have A: "?A \<inter> area (wake_blocks s es bs) = {}" using f8 fW Q E unfolding area_simps by blast
  note keep = wake_path_outside [OF in_use_subset [of s segs "[(f, n)]"] sp(2) A]
  have sys: "system_heap L E u segs' ((a, f, n, w) # ts) es bs"
    using d(2) keep use by (intro system_heapI [OF ok t(3) sp(1,3) _ _ d(5) sp(4)]) (simp_all add: wake_list_ok_def)
  have "field (monotonic_time s) 0 u = field (monotonic_time s) 0 s"
  proof (rule field_block_kept [OF sp(2)])
    show "?A \<inter> extent (monotonic_time s, 4) = {}" using A area_member [OF clock_in_wake_blocks, of s es bs] by blast
    show "unat (monotonic_time s) + 4 \<le> 2 ^ 32" by (rule block_end [OF use]) (simp add: clock_in_wake_blocks)
  qed simp
  then have "heap_step (bytes_of f 8 \<union> bytes_at E 12) s segs u segs'"
    using same_but_heap_system [OF t(3)] sp(2,4) by (simp add: heap_step_def monotonic_time_get_ticks_global_def Un_assoc)
  moreover note cons = system_heap_console [OF t(4) sys]
  ultimately have "heap_step (bytes_of f 8 \<union> bytes_at E 12) s segs t segs'"
    using heap_step_trans heap_step_mono [OF cons(2), of "bytes_of f 8 \<union> bytes_at E 12"] by blast
  then show thesis
    using that [of t segs' a w] t(1) sp(5) cons(1) spawned_console(2) [OF t(2,4)] leaves_roomD [OF sp(6) room] by simp
qed

lemma spawn_field:
  fixes s :: "'z async_scheme"
  assumes new: "new_future L E s segs ts es f n bs" and st: "heap_step (bytes_of f 8 \<union> bytes_at E 12) s segs t segs'"
    and off: "12 \<le> unat off" "unat off + 4 \<le> n"
  shows "field f off t = field f off s"
proof (rule field_same_outside)
  show "same_outside (seg_bytes segs \<union> (bytes_of f 8 \<union> bytes_at E 12)) (ram s) (ram t)" using st by (simp add: heap_step_def)
  from new have ok: "system_heap L E s segs ts es ((f, n) # bs)" by (simp add: new_future_def)
  have "bytes_at E 12 \<inter> extent (f, n) = {}"
    using system_heapD(1) [OF ok] by (auto simp: exec_ok_def exec_apart_def wake_blocks_def)
  moreover have "bytes_of f off \<inter> bytes_of f 8 = {}" by (rule bytes_same_apart) (use off in simp)
  ultimately show "bytes_of f off \<inter> (seg_bytes segs \<union> (bytes_of f 8 \<union> bytes_at E 12)) = {}"
    using bytes_in_extent [OF off(2), of f] other_block_apart(1) [OF ok] by blast
  show "unat f + unat off + 4 \<le> 2 ^ 32" using other_block_apart(2) [OF ok] off(2) by simp
qed

text \<open>A task for a sleep of \<open>n\<close> ticks: 100 bytes are enough for its four blocks.\<close>

definition sleep_spawn :: "linker_map \<Rightarrow> ptr \<Rightarrow> u32 \<Rightarrow> 'z async_scheme \<Rightarrow> seg list \<Rightarrow> task list \<Rightarrow> wake_entry list \<Rightarrow> block list
    \<Rightarrow> ptr \<Rightarrow> 'z async_scheme \<Rightarrow> seg list \<Rightarrow> bool" where
  "sleep_spawn L E target s segs ts es bs f t segs' \<longleftrightarrow>
     (\<exists>a w e. system_heap L E t segs' ((a, f, 16, w) # ts) ((e, target, sym_sleep_future_callback L, 0) # es) bs)
     \<and> field f 12 t = target \<and> g_should_poll t \<and> heap_step (bytes_at (wake_up_list s) 8 \<union> bytes_at E 12) s segs t segs'"

lemma sleep_future_spawned:
  fixes u :: "'z async_scheme"
  assumes st: "heap_step (bytes_at (wake_up_list s) 8) s segs u segs1" and ext: "extent (f, 16) \<subseteq> seg_bytes segs"
    and new: "new_future L E u segs1 ts ((e, target, sym_sleep_future_callback L, 0) # es) f 16 bs" "field f 12 u = target"
    and room: "has_room (k + 44) segs1"
  obtains t segs' where "executor_spawn L E f u = Some t" "sleep_spawn L E target s segs ts es bs f t segs'" "has_room k segs'"
proof -
  let ?es = "(e, target, sym_sleep_future_callback L, 0) # es" and ?X = "bytes_at (wake_up_list s) 8 \<union> bytes_at E 12"
  obtain t a w segs' where t: "executor_spawn L E f u = Some t" "system_heap L E t segs' ((a, f, 16, w) # ts) ?es bs" "g_should_poll t"
      "heap_step (bytes_of f 8 \<union> bytes_at E 12) u segs1 t segs'" "has_room k segs'"
    by (rule system_heap_spawn [OF new(1) room])
  have "same_outside (seg_bytes segs \<union> ?X) (ram s) (ram u)" "same_outside (seg_bytes segs \<union> ?X) (ram u) (ram t)"
    using st t(4) ext bytes_in_extent [of 8 16 f] unfolding heap_step_def by (auto elim!: same_outside_mono)
  then have "heap_step ?X s segs t segs'" using st t(4) same_outside_trans unfolding heap_step_def by auto
  moreover have "field f 12 t = target" using spawn_field [OF new(1) t(4), of 12] new(2) by simp
  ultimately show thesis using that t unfolding sleep_spawn_def by blast
qed

lemma sleep_seconds_async_runs:
  fixes s :: "'z async_scheme" and secs :: u32
  assumes ok: "system_heap L E s segs ts es bs" and E: "E = get_global_executor L" and room: "has_room (k + 100) segs"
  defines "target \<equiv> monotonic_time_get_ticks_global s + secs * 256"
  obtains t f segs' where "sleep_seconds_async L secs s = Some t" "sleep_spawn L E target s segs ts es bs f t segs'" "has_room k segs'"
proof -
  have "has_room ((k + 44) + 56) segs" using room by (rule has_room_mono) simp
  then obtain f u e segs1 where u: "sleep_future_create L (secs * 256) s = Some (f, u)" "f \<noteq> 0"
      "new_future L E u segs1 ts ((e, target, sym_sleep_future_callback L, 0) # es) f 16 bs" "field f 12 u = target"
      "heap_step (bytes_at (wake_up_list s) 8) s segs u segs1" "extent (f, 16) \<subseteq> seg_bytes segs" "has_room (k + 44) segs1"
    by (rule sleep_future_created [OF ok, of _ "secs * 256", folded target_def])
  obtain t segs' where t: "executor_spawn L E f u = Some t" "sleep_spawn L E target s segs ts es bs f t segs'" "has_room k segs'"
    by (rule sleep_future_spawned [OF u(5,6,3,4,7)])
  show thesis by (rule that [of t f segs']) (use u(1,2) t E in \<open>simp_all add: sleep_seconds_async_def Let_def\<close>)
qed

section \<open>The tasks of the kernel\<close>

text \<open>
  The bytes of a string in memory: \<open>n\<close> of them, none zero, then a zero. A string
  constant of the program lies outside everything the kernel writes.
\<close>

definition string_at :: "'z mem_scheme \<Rightarrow> ptr \<Rightarrow> u8 list \<Rightarrow> bool" where
  "string_at s p bs \<longleftrightarrow> unat p + length bs < 2 ^ 32 \<and> 0 \<notin> set bs \<and> (\<forall>i < length bs. ram s (p + of_nat i) = bs ! i)
     \<and> ram s (p + of_nat (length bs)) = 0"

lemma string_at_kept:
  assumes str: "string_at s p bs" and out: "same_outside A (ram s) (ram t)" and A: "bytes_at p (length bs + 1) \<inter> A = {}"
  shows "string_at t p bs"
proof -
  have "ram t (p + of_nat i) = ram s (p + of_nat i)" if "i \<le> length bs" for i
  proof -
    have "unat (of_nat i :: u32) = i" using that str by (simp add: string_at_def unat_of_nat)
    then have "unat (p + of_nat i) = unat p + i" using that str by (simp add: string_at_def unat_add_no_wrap)
    then have "unat (p + of_nat i) \<in> bytes_at p (length bs + 1)" using that by (simp add: bytes_at_def)
    then show ?thesis using out A by (auto simp: same_outside_def)
  qed
  with str show ?thesis by (simp add: string_at_def)
qed

lemma async_serial_created:
  fixes s :: "'z async_scheme"
  assumes ok: "system_heap L E s segs ts es bs" and room: "has_room (k + 36) segs"
  obtains g t segs' where "async_serial_write_create L dat len s = Some (g, t)" "g \<noteq> 0" "new_future L E t segs' ts es g 24 bs"
    "field g 12 t = dat" "field g 16 t = len" "field g 20 t = 0" "heap_step {} s segs t segs'" "extent (g, 24) \<subseteq> seg_bytes segs" "has_room k segs'"
proof -
  let ?vt = "sym_async_serial_write_vtable L" and ?ws = "\<lambda>g. [(g, 12, dat), (g, 16, len), (g, 20, 0)]"
  have sz: "malloc_served 24" "12 \<le> unat (24 :: u32)" by (simp_all add: malloc_served_def)
  have room1: "has_room (k + (unat (24 :: u32) + 12)) segs" by (rule has_room_mono [OF room]) simp
  have tail: "future_tail f (unat (24 :: u32)) (?ws f)" for f by (auto simp: future_tail_def bytes_same_apart)
  obtain g u segs' where g: "malloc 24 s = Some (g, u)" "g \<noteq> 0" "extent (g, 24) \<subseteq> seg_bytes segs"
    and sys: "system_heap L E (set_fields (?ws g) (future_head g ?vt u)) segs' ts es ((g, 24) # bs)" and rm: "has_room k segs'"
    and fl: "field g 0 (set_fields (?ws g) (future_head g ?vt u)) = ?vt" "ram (set_fields (?ws g) (future_head g ?vt u)) (g + 4) = 0"
      "\<And>p off v. (p, off, v) \<in> set (?ws g) \<Longrightarrow> field p off (set_fields (?ws g) (future_head g ?vt u)) = v"
    and st: "heap_step {} s segs (set_fields (?ws g) (future_head g ?vt u)) segs'"
    by (rule system_heap_future [OF ok sz room1 tail, where vt = ?vt]) auto
  have "async_serial_write_create L dat len s = Some (g, set_fields (?ws g) (future_head g ?vt u))"
    using g(1,2) by (simp add: async_serial_write_create_def Let_def future_head_def)
  with sys fl rm g(2,3) st show thesis
    by (intro that [of g "set_fields (?ws g) (future_head g ?vt u)" segs'])
      (simp_all add: new_future_def future_in_def get_byte_def del: set_fields.simps)
qed

lemma system_says:
  fixes s :: "'z async_scheme"
  assumes ok: "system_heap L E s segs ts es bs" and "NUL \<notin> set str"
  obtains t where "output_string str s = Some t" "system_heap L E t segs ts es bs" "heap_step {} s segs t segs" "ram t = ram s"
    "g_should_poll t = g_should_poll s"
proof -
  have "uart_drains (device s)" using system_heapD(1) [OF ok] by (simp add: exec_ok_def)
  from literal_runs [OF assms(2) this] obtain t where t: "output_string str s = Some t" "same_but_console s t" by blast
  then have "same_but_console (s\<lparr>g_should_poll := g_should_poll s\<rparr>) t" by simp
  from system_heap_console [OF this ok] t same_but_console_async [OF t(2)] show thesis using that by blast
qed

lemma new_future_says:
  fixes s :: "'z async_scheme"
  assumes new: "new_future L E s segs ts es f n bs" and "NUL \<notin> set str"
  obtains t where "output_string str s = Some t" "new_future L E t segs ts es f n bs" "heap_step {} s segs t segs" "ram t = ram s"
proof -
  from new have ok: "system_heap L E s segs ts es ((f, n) # bs)" by (simp add: new_future_def)
  from system_says [OF ok assms(2)] obtain t where
    t: "output_string str s = Some t" "system_heap L E t segs ts es ((f, n) # bs)" "heap_step {} s segs t segs" "ram t = ram s" by blast
  then have "new_future L E t segs ts es f n bs" using new by (simp add: new_future_def future_in_def get_byte_def field_def)
  with t that show thesis by blast
qed

lemma heap_step_ram: "heap_step {} s segs t segs \<Longrightarrow> ram t = ram s \<Longrightarrow> heap_step X s segs t segs"
  by (simp add: heap_step_def)

text \<open>The sleep of three seconds, from its first message to its last.\<close>

lemma kernel_sleep_task_runs:
  fixes s :: "'z async_scheme"
  assumes ok: "system_heap L E s segs ts es bs" and room: "has_room (k + 100) segs"
  defines "target \<equiv> monotonic_time_get_ticks_global s + 768"
  obtains f u v x t segs' where "sleep_future_create L 768 s = Some (f, u)" "f \<noteq> 0"
    "output_string (''Async sleep future created, spawning to executor...'' @ [LF]) u = Some v"
    "executor_spawn L E f v = Some x" "output_string (''Sleep future spawned.'' @ [LF]) x = Some t"
    "sleep_spawn L E target s segs ts es bs f t segs'" "has_room k segs'"
proof -
  have "has_room ((k + 44) + 56) segs" using room by (rule has_room_mono) simp
  then obtain f u e segs1 where u: "sleep_future_create L 768 s = Some (f, u)" "f \<noteq> 0"
      "new_future L E u segs1 ts ((e, target, sym_sleep_future_callback L, 0) # es) f 16 bs" "field f 12 u = target"
      "heap_step (bytes_at (wake_up_list s) 8) s segs u segs1" "extent (f, 16) \<subseteq> seg_bytes segs" "has_room (k + 44) segs1"
    by (rule sleep_future_created [OF ok, of _ 768, folded target_def])
  obtain v where v: "output_string (''Async sleep future created, spawning to executor...'' @ [LF]) u = Some v"
      "new_future L E v segs1 ts ((e, target, sym_sleep_future_callback L, 0) # es) f 16 bs" "heap_step {} u segs1 v segs1" "ram v = ram u"
    by (rule new_future_says [OF u(3), of "''Async sleep future created, spawning to executor...'' @ [LF]"]) auto
  have st: "heap_step (bytes_at (wake_up_list s) 8) s segs v segs1" by (rule heap_step_trans [OF u(5) heap_step_ram [OF v(3,4)]])
  have f12: "field f 12 v = target" using u(4) v(4) by (simp add: field_def)
  obtain x segs' where x: "executor_spawn L E f v = Some x" "sleep_spawn L E target s segs ts es bs f x segs'" "has_room k segs'"
    by (rule sleep_future_spawned [OF st u(6) v(2) f12 u(7)])
  then obtain a w e' where sys: "system_heap L E x segs' ((a, f, 16, w) # ts) ((e', target, sym_sleep_future_callback L, 0) # es) bs"
    unfolding sleep_spawn_def by blast
  obtain t where t: "output_string (''Sleep future spawned.'' @ [LF]) x = Some t"
    "system_heap L E t segs' ((a, f, 16, w) # ts) ((e', target, sym_sleep_future_callback L, 0) # es) bs"
    "heap_step {} x segs' t segs'" "ram t = ram x" "g_should_poll t = g_should_poll x"
    by (rule system_says [OF sys, of "''Sleep future spawned.'' @ [LF]"]) auto
  have "sleep_spawn L E target s segs ts es bs f t segs'"
    using x(2) t(2,4,5) heap_step_trans [OF _ heap_step_ram [OF t(3,4)]] unfolding sleep_spawn_def by (auto simp: field_def)
  with that u(1,2) v(1) x(1,3) t(1) show thesis by blast
qed

text \<open>The serial write, likewise.\<close>

lemma kernel_serial_task_runs:
  fixes s :: "'z async_scheme"
  assumes ok: "system_heap L E s segs ts es bs" and room: "has_room (k + 80) segs"
  obtains g u v x t b w segs' where "async_serial_write_create L dat len s = Some (g, u)" "g \<noteq> 0"
    "output_string (''Async serial write future created, spawning to executor...'' @ [LF]) u = Some v"
    "executor_spawn L E g v = Some x" "output_string (''Serial write future spawned.'' @ [LF]) x = Some t"
    "system_heap L E t segs' ((b, g, 24, w) # ts) es bs" "field g 12 t = dat" "field g 16 t = len" "field g 20 t = 0" "g_should_poll t"
    "heap_step (bytes_at E 12) s segs t segs'" "has_room k segs'"
proof -
  have "has_room ((k + 44) + 36) segs" using room by (rule has_room_mono) simp
  then obtain g u segs1 where u: "async_serial_write_create L dat len s = Some (g, u)" "g \<noteq> 0" "new_future L E u segs1 ts es g 24 bs"
      "field g 12 u = dat" "field g 16 u = len" "field g 20 u = 0" "heap_step {} s segs u segs1" "extent (g, 24) \<subseteq> seg_bytes segs"
      "has_room (k + 44) segs1"
    by (rule async_serial_created [OF ok])
  obtain v where v: "output_string (''Async serial write future created, spawning to executor...'' @ [LF]) u = Some v"
      "new_future L E v segs1 ts es g 24 bs" "heap_step {} u segs1 v segs1" "ram v = ram u"
    by (rule new_future_says [OF u(3), of "''Async serial write future created, spawning to executor...'' @ [LF]"]) auto
  obtain x b w segs' where x: "executor_spawn L E g v = Some x" "system_heap L E x segs' ((b, g, 24, w) # ts) es bs" "g_should_poll x"
      "heap_step (bytes_of g 8 \<union> bytes_at E 12) v segs1 x segs'" "has_room k segs'"
    by (rule system_heap_spawn [OF v(2) u(9)])
  obtain t where t: "output_string (''Serial write future spawned.'' @ [LF]) x = Some t" "system_heap L E t segs' ((b, g, 24, w) # ts) es bs"
      "heap_step {} x segs' t segs'" "ram t = ram x" "g_should_poll t = g_should_poll x"
    by (rule system_says [OF x(2), of "''Serial write future spawned.'' @ [LF]"]) auto
  have "field g off x = field g off u" if "12 \<le> unat off" "unat off + 4 \<le> 24" for off
    using spawn_field [OF v(2) x(4) that] v(4) by (simp add: field_def)
  then have "field g 12 t = dat" "field g 16 t = len" "field g 20 t = 0" using u(4-6) t(4) by (simp_all add: field_def)
  moreover have "heap_step (bytes_at E 12) s segs t segs'"
  proof -
    have "bytes_of g 8 \<subseteq> seg_bytes segs" using u(8) bytes_in_extent [of 8 24 g] by auto
    then have "heap_step (bytes_at E 12) s segs x segs'"
      using u(7) v(3) x(4) same_outside_trans [of "seg_bytes segs \<union> bytes_at E 12" "ram s" "ram u" "ram x"] v(4)
        same_outside_mono [of "seg_bytes segs" "ram s" "ram u" "seg_bytes segs \<union> bytes_at E 12"]
        same_outside_mono [of "seg_bytes segs1 \<union> (bytes_of g 8 \<union> bytes_at E 12)" "ram u" "ram x" "seg_bytes segs \<union> bytes_at E 12"]
      unfolding heap_step_def by auto
    then show ?thesis by (rule heap_step_trans) (rule heap_step_ram [OF t(3,4)])
  qed
  ultimately show thesis using that u(1,2) v(1) x(1,3,5) t(1,2,5) by simp
qed

text \<open>
  Both tasks. The string constant lies outside the free memory, the head of the
  wake-up list and the executor.
\<close>

lemma my_strlen_string: "string_at s p str \<Longrightarrow> my_strlen p s = Some (of_nat (length str))"
  using strlen_loop_ends [of "ram s" p "length str" 0] by (auto simp: string_at_def my_strlen_def in_set_conv_nth)

lemma to_send_string:
  assumes "string_at s p str" and "field g 12 s = p" and "field g 16 s = of_nat (length str)" and "field g 20 s = 0"
  shows "to_send g s = str"
proof -
  have "unat (of_nat (length str) :: u32) = length str" using assms(1) by (simp add: string_at_def unat_of_nat)
  then show ?thesis using assms by (auto simp: to_send_def get_byte_def string_at_def intro!: nth_equalityI)
qed

text \<open>A step that writes only free memory and the executor leaves a queued future alone.\<close>

lemma queued_future_kept:
  assumes "system_heap L E s segs ((a, f, 16, w) # ts) es bs" and "heap_step (bytes_at E 12) s segs t segs'"
  shows "field f 12 t = field f 12 s"
proof -
  have f: "(f, 16) \<in> set (blocks_of ((a, f, 16, w) # ts) @ wake_blocks s es bs)" by simp
  note d = system_heapD [OF assms(1)]
  have "(seg_bytes segs \<union> bytes_at E 12) \<inter> extent (f, 16) = {}"
    using heap_blocks_area [OF d(3)] d(1) area_member [OF f] unfolding exec_ok_def exec_apart_def by blast
  then show ?thesis
    by (rule heap_step_field [OF assms(2)]) (use block_end [OF heap_blocks_in_use [OF d(3)] f] in simp_all)
qed

text \<open>Two messages in a row.\<close>

lemma system_says_twice:
  fixes s :: "'z async_scheme"
  assumes "system_heap L E s segs ts es bs" and "NUL \<notin> set a" and "NUL \<notin> set b"
  obtains u t where "output_string a s = Some u" "output_string b u = Some t" "system_heap L E t segs ts es bs"
    "heap_step {} s segs t segs" "ram t = ram s" "g_should_poll t = g_should_poll s"
proof -
  obtain u where u: "output_string a s = Some u" "system_heap L E u segs ts es bs" "heap_step {} s segs u segs" "ram u = ram s"
    "g_should_poll u = g_should_poll s" by (rule system_says [OF assms(1,2)])
  obtain t where t: "output_string b u = Some t" "system_heap L E t segs ts es bs" "heap_step {} u segs t segs" "ram t = ram u"
    "g_should_poll t = g_should_poll u" by (rule system_says [OF u(2) assms(3)])
  from that [OF u(1) t(1,2) heap_step_trans [OF u(3) t(3)]] u(4,5) t(4,5) show thesis by simp
qed

lemma kernel_tasks_runs:
  fixes s :: "'z async_scheme"
  assumes ok: "system_heap L E s segs ts es bs" and E: "E = get_global_executor L" and room: "has_room (k + 180) segs"
    and str: "string_at s p str" "bytes_at p (length str + 1) \<inter> (seg_bytes segs \<union> bytes_at (wake_up_list s) 8 \<union> bytes_at E 12) = {}"
  defines "target \<equiv> monotonic_time_get_ticks_global s + 768"
  obtains t a b f g v w e segs' where "kernel_tasks L p s = Some t"
    "system_heap L E t segs' ((b, g, 24, v) # (a, f, 16, w) # ts) ((e, target, sym_sleep_future_callback L, 0) # es) bs"
    "field f 12 t = target" "to_send g t = str" "g_should_poll t" "has_room k segs'"
proof -
  let ?X = "bytes_at (wake_up_list s) 8 \<union> bytes_at E 12"
  let ?first1 = "LF # ''Demonstrating async functionality...'' @ [LF]" and ?first2 = "''Creating a 3-second async sleep future...'' @ [LF]"
  obtain s1 s2 where s2: "output_string ?first1 s = Some s1" "output_string ?first2 s1 = Some s2"
    "system_heap L E s2 segs ts es bs" "heap_step {} s segs s2 segs" "ram s2 = ram s"
    by (rule system_says_twice [OF ok, of ?first1 ?first2]) auto
  have W: "wake_up_list s2 = wake_up_list s" "monotonic_time_get_ticks_global s2 = monotonic_time_get_ticks_global s"
    using s2(4) by (simp_all add: heap_step_def)
  have "has_room ((k + 80) + 100) segs" using room by (rule has_room_mono) simp
  then obtain f u v x s3 segs1 where f: "sleep_future_create L 768 s2 = Some (f, u)" "f \<noteq> 0"
    "output_string (''Async sleep future created, spawning to executor...'' @ [LF]) u = Some v"
    "executor_spawn L E f v = Some x" "output_string (''Sleep future spawned.'' @ [LF]) x = Some s3"
    "sleep_spawn L E target s2 segs ts es bs f s3 segs1" "has_room (k + 80) segs1"
    by (rule kernel_sleep_task_runs [OF s2(3), unfolded W, folded target_def])
  from f(6) obtain a w e where sys3: "system_heap L E s3 segs1 ((a, f, 16, w) # ts) ((e, target, sym_sleep_future_callback L, 0) # es) bs"
    and f12: "field f 12 s3 = target" and st3: "heap_step ?X s2 segs s3 segs1" unfolding sleep_spawn_def W by blast
  obtain s4 where s4: "output_string (''Creating an async serial write future...'' @ [LF]) s3 = Some s4"
    "system_heap L E s4 segs1 ((a, f, 16, w) # ts) ((e, target, sym_sleep_future_callback L, 0) # es) bs" "heap_step {} s3 segs1 s4 segs1" "ram s4 = ram s3"
    by (rule system_says [OF sys3, of "''Creating an async serial write future...'' @ [LF]"]) auto
  have st4: "heap_step ?X s segs s4 segs1"
    using s2(4,5) st3 s4(3,4) by (meson heap_step_ram heap_step_trans)
  have "same_outside (seg_bytes segs \<union> ?X) (ram s) (ram s4)" using st4 by (simp add: heap_step_def)
  then have str4: "string_at s4 p str" by (rule string_at_kept [OF str(1)]) (use str(2) in blast)
  obtain g u' v' x' s5 b w' segs' where g: "async_serial_write_create L p (of_nat (length str)) s4 = Some (g, u')" "g \<noteq> 0"
    "output_string (''Async serial write future created, spawning to executor...'' @ [LF]) u' = Some v'"
    "executor_spawn L E g v' = Some x'" "output_string (''Serial write future spawned.'' @ [LF]) x' = Some s5"
    "system_heap L E s5 segs' ((b, g, 24, w') # (a, f, 16, w) # ts) ((e, target, sym_sleep_future_callback L, 0) # es) bs"
    "field g 12 s5 = p" "field g 16 s5 = of_nat (length str)" "field g 20 s5 = 0" "g_should_poll s5"
    "heap_step (bytes_at E 12) s4 segs1 s5 segs'" "has_room k segs'"
    by (rule kernel_serial_task_runs [OF s4(2) f(7)])
  let ?last1 = "''Both futures spawned to executor. They will execute concurrently.'' @ [LF]"
    and ?last2 = "''Starting async executor... (this will run indefinitely with concurrent tasks)'' @ [LF]"
  obtain s6 t where t: "output_string ?last1 s5 = Some s6" "output_string ?last2 s6 = Some t"
    "system_heap L E t segs' ((b, g, 24, w') # (a, f, 16, w) # ts) ((e, target, sym_sleep_future_callback L, 0) # es) bs" "ram t = ram s5"
    "g_should_poll t = g_should_poll s5"
    by (rule system_says_twice [OF g(6), of ?last1 ?last2]) auto
  have "kernel_tasks L p s = Some t"
    using s2(1,2) f(1-5) s4(1) my_strlen_string [OF str4] g(1-5) t(1,2) E by (simp add: kernel_tasks_def Let_def)
  moreover have "field f 12 t = target"
    using queued_future_kept [OF s4(2) g(11)] f12 s4(4) t(4) by (simp add: field_def)
  moreover have "to_send g t = str"
  proof (rule to_send_string)
    have "same_outside (seg_bytes segs \<union> bytes_at E 12) (ram s4) (ram t)"
      using g(11) st4 t(4) by (auto simp: heap_step_def elim!: same_outside_mono)
    then show "string_at t p str" by (rule string_at_kept [OF str4]) (use str(2) in blast)
  qed (use g(7-9) t(4) in \<open>simp_all add: field_def\<close>)
  ultimately show thesis using that t(3,5) g(10,12) by simp
qed

section \<open>Properties\<close>


lemma system_example_heap:
  assumes "uart_drains d"
  shows "system_heap example_linker (get_global_executor example_linker) (system_example d) [(0x1000, 0x100)] example_tasks system_entries []"
proof -
  let ?s = "system_example d" and ?B = "blocks_of example_tasks @ wake_blocks (system_example d) system_entries []"
  have E: "get_global_executor example_linker = 0x160" by (simp add: get_global_executor_def example_linker_def)
  note ok = system_example_ok [OF assms]
  have "in_use_blocks ?s [(0x1000, 0x100)] ?B" using ok by (simp add: system_ok_def exec_ok_def)
  moreover have "\<forall>b \<in> set ?B. extent b \<inter> {0x1000..<0x1108} = {}"
    by (simp add: wake_blocks_def entry_block_def system_example_statics extent_intervalI)
  ultimately have "heap_blocks ?s [(0x1000, 0x100)] ?B" by (simp add: heap_blocks_def)
  then show ?thesis using ok by (simp add: system_heap_def E bytes_at_def)
qed

lemma system_example_now: "monotonic_time_get_ticks_global (system_example d) = 5"
  by (simp add: monotonic_time_get_ticks_global_def field_def system_example_fields system_example_statics)




end
