(* ===== verification/Memory_Tests.thy ===== *)
theory Memory_Tests
  imports Boot_Sequence
begin

text \<open>
  The memory tests of \<^verbatim>\<open>kernel.c\<close> on the heap that \<^verbatim>\<open>init_allocator\<close> leaves: they pass,
  and what they leave behind.
\<close>

section \<open>A heap carved from the top\<close>

text \<open>
  One free segment \<open>(h, k)\<close>, and above it the blocks \<open>bs\<close>, each the address of its
  header and the size the header states, one right after the other up to \<open>lim\<close>.
\<close>

fun carved :: "ram \<Rightarrow> nat \<Rightarrow> seg list \<Rightarrow> nat \<Rightarrow> bool" where
  "carved m e [] lim \<longleftrightarrow> e = lim"
| "carved m e ((a, f) # bs) lim \<longleftrightarrow> e = a \<and> 8 \<le> f \<and> load32 m (of_nat a) = of_nat f \<and> carved m (a + f) bs lim"

definition carved_heap :: "'z mem_scheme \<Rightarrow> nat \<Rightarrow> nat \<Rightarrow> seg list \<Rightarrow> nat \<Rightarrow> bool" where
  "carved_heap s h k bs lim \<longleftrightarrow> free_list s [(h, k)] \<and> 1 \<le> h \<and> lim < 2 ^ 32 \<and> carved (ram s) (h + 8 + k) bs lim"

lemma carved_top: "carved m e bs lim \<Longrightarrow> e \<le> lim"
  by (induction m e bs lim rule: carved.induct) auto

lemma carved_member: "carved m e bs lim \<Longrightarrow> (a, f) \<in> set bs \<Longrightarrow> e \<le> a \<and> 8 \<le> f \<and> a + f \<le> lim \<and> load32 m (of_nat a) = of_nat f"
proof (induction m e bs lim rule: carved.induct)
  case (2 m e b g bs lim)
  then show ?case using carved_top [of m "b + g" bs lim] by fastforce
qed simp

text \<open>Writes that miss every header.\<close>

lemma carved_same_outside:
  assumes "carved m e bs lim" and "lim \<le> 2 ^ 32" and "same_outside A m m'"
    and "\<And>a f. (a, f) \<in> set bs \<Longrightarrow> {a..<a + 4} \<inter> A = {}"
  shows "carved m' e bs lim"
  using assms(1,4)
proof (induction bs arbitrary: e)
  case (Cons b bs)
  obtain a f where b: "b = (a, f)" by fastforce
  have le: "a + f \<le> lim" using Cons.prems(1) b carved_top [of m "a + f" bs lim] by simp
  moreover have "8 \<le> f" using Cons.prems(1) b by simp
  ultimately have at: "unat (of_nat a :: ptr) = a" "a + 4 \<le> 2 ^ 32" using assms(2) by (simp_all add: unat_of_nat)
  have "load32 m' (of_nat a) = load32 m (of_nat a)"
    by (rule load32_same_outside [OF assms(3)]) (use Cons.prems(2) [of a f] at b in simp_all)
  moreover have "carved m' (a + f) bs lim"
    by (rule Cons.IH) (use Cons.prems b in auto)
  ultimately show ?case using Cons.prems(1) b by simp
qed simp

lemma carved_apart:
  assumes "carved m e bs lim" and "(a, f) \<in> set bs" and "(b, g) \<in> set bs"
  shows "(a, f) = (b, g) \<or> a + f \<le> b \<or> b + g \<le> a"
  using assms
proof (induction m e bs lim rule: carved.induct)
  case (2 m e c i bs lim)
  then show ?case using carved_member [of m "c + i" bs lim] by fastforce
qed simp

lemma carved_heap_writes:
  assumes c: "carved_heap s h k bs lim" and out: "same_outside A (ram s) (ram t)" and ff: "first_free t = first_free s"
    and A: "\<And>x. x \<in> A \<Longrightarrow> \<exists>(a, f) \<in> set bs. a + 4 \<le> x \<and> x < a + f"
  shows "carved_heap t h k bs lim"
proof -
  from c have fl: "free_list s [(h, k)]" "1 \<le> h" "lim < 2 ^ 32" and cv: "carved (ram s) (h + 8 + k) bs lim"
    by (simp_all add: carved_heap_def)
  have le: "h + 8 + k \<le> lim" using carved_top [OF cv] .
  have hd: "x \<notin> {h..<h + 8}" if "x \<in> A" for x using A [OF that] carved_member [OF cv] by fastforce
  have "load32 (ram t) p = load32 (ram s) p" if "unat p = h \<or> unat p = h + 4" for p
    by (rule load32_same_outside [OF out]) (use that hd le fl(3) in fastforce)+
  then have "free_list t [(h, k)]"
    using fl le ff by (auto simp: free_list_def seg_size_def seg_next_def unat_plus4)
  moreover have "carved (ram t) (h + 8 + k) bs lim"
  proof (rule carved_same_outside [OF cv _ out])
    show "{b..<b + 4} \<inter> A = {}" if "(b, g) \<in> set bs" for b g
      using A carved_apart [OF cv _ that] carved_member [OF cv that] by fastforce
  qed (use fl in simp)
  ultimately show ?thesis using fl by (simp add: carved_heap_def)
qed

text \<open>Allocation carves one more block; it leaves the bytes above the segment alone.\<close>

lemma carve_block:
  fixes h :: nat
  assumes "4 \<le> sz" and "sz + 24 \<le> k"
  defines "d \<equiv> block_data sz 8 (h, k)"
  shows "first_fit sz 8 [(h, k)] = Some (d, h + 8 + k - (d - 4), [(h, d - (h + 12))])"
    and "h + 12 < d" "d + sz \<le> h + 8 + k" "h + 8 + k < d + sz + 8" "8 dvd d"
proof -
  let ?x = "h + 8 + k - sz"
  have d: "d = ?x - ?x mod 8" by (simp add: d_def block_data_def Let_def)
  have m: "?x mod 8 < 8" by simp
  have sz: "sz \<le> h + 8 + k" "h + 20 \<le> ?x" using assms(2) by linarith+
  show b: "h + 12 < d" "d + sz \<le> h + 8 + k" "h + 8 + k < d + sz + 8" unfolding d using m sz by linarith+
  show "8 dvd d" unfolding d by (rule dvd_minus_mod)
  have "block_fits sz 8 (h, k)" using b sz by (simp add: block_fits_def d_def [symmetric])
  then show "first_fit sz 8 [(h, k)] = Some (d, h + 8 + k - (d - 4), [(h, d - (h + 12))])"
    using b by (simp add: shrink_def d_def [symmetric] Let_def)
qed

lemma malloc_carves:
  assumes c: "carved_heap s h k bs lim" and sz: "4 \<le> unat sz" "unat sz + 24 \<le> k"
  obtains a t where "malloc sz s = Some (of_nat (a + 4), t)" "(of_nat (a + 4) :: ptr) \<noteq> 0" "same_but_heap s t"
    "carved_heap t h (a - (h + 8)) ((a, h + 8 + k - a) # bs) lim"
    "h + 8 < a" "a + 4 + unat sz \<le> h + 8 + k" "h + 8 + k < a + 12 + unat sz" "8 dvd a + 4"
proof -
  define d where "d = block_data (unat sz) 8 (h, k)"
  note blk = carve_block [OF sz, of h, folded d_def]
  from c have fl: "free_list s [(h, k)]" "1 \<le> h" "lim < 2 ^ 32" and cv: "carved (ram s) (h + 8 + k) bs lim"
    by (simp_all add: carved_heap_def)
  have le: "h + 8 + k \<le> lim" using carved_top [OF cv] .
  have ok: "segs_ok 1 [(h, k)]" using fl le by simp
  have nz: "sz \<noteq> 0" using sz by auto
  have req: "request_ok sz 8" using sz le fl(3) is_pow2_8 by (simp add: request_ok_def)
  from allocate_refines [OF req nz fl(1) ok] blk(1) obtain t where
    t: "allocate sz 8 s = Some (of_nat d, t)" "free_list t [(h, d - (h + 12))]"
      "load32 (ram t) (of_nat d - 4) = of_nat (h + 8 + k - (d - 4))" "same_but_heap s t" by auto
  have out: "same_outside {h..<h + 8 + k} (ram s) (ram t)"
    using allocate_outside [OF req fl(1) ok t(1)] by simp
  have cv': "carved (ram t) (h + 8 + k) bs lim"
    by (rule carved_same_outside [OF cv _ out]) (use fl carved_member [OF cv] in fastforce)+
  show thesis
  proof (rule that [of "d - 4" t])
    have d4: "d - 4 + 4 = d" using blk(2) by simp
    show "malloc sz s = Some (of_nat (d - 4 + 4), t)" using t(1) d4 by (simp add: malloc_def)
    have "unat (of_nat d :: ptr) = d" using blk(3) le fl(3) by (simp add: unat_of_nat)
    then show "(of_nat (d - 4 + 4) :: ptr) \<noteq> 0" using blk(2) unfolding d4 by auto
    have "(of_nat d :: ptr) - 4 = of_nat (d - 4)" using blk(2) by (simp add: of_nat_diff)
    moreover have "d - 4 - (h + 8) = d - (h + 12)" "h + 8 + (d - (h + 12)) = d - 4" "8 \<le> h + 8 + k - (d - 4)"
      "d - 4 + (h + 8 + k - (d - 4)) = h + 8 + k" using blk(2,3) sz by linarith+
    ultimately show "carved_heap t h (d - 4 - (h + 8)) ((d - 4, h + 8 + k - (d - 4)) # bs) lim"
      using t(2,3) fl cv' by (simp only: carved_heap_def carved.simps)
    show "8 dvd d - 4 + 4" using d4 blk(5) by simp
  qed (use t blk in simp_all)
qed

text \<open>Releasing a block, by the size its header states.\<close>

lemma free_stated:
  assumes fl: "free_list s segs" "heads_ok 1 segs" "header_free a segs"
    and a: "1 \<le> a" "8 \<le> f" "a + f + 4 < 2 ^ 32" "load32 (ram s) (of_nat a) = of_nat f"
  obtains t where "free (of_nat (a + 4)) s = Some t" "free_list t (insert_free (a, f - 4) segs)"
    "same_but_heap s t" "same_outside ({a..<a + 8} \<union> headers segs) (ram s) (ram t)"
    "heads_ok 1 (insert_free (a, f - 4) segs)"
proof -
  let ?p = "of_nat (a + 4) :: ptr"
  have p: "unat ?p = a + 4" using a by (subst unat_of_nat) simp
  have p4: "?p - 4 = of_nat a" by simp
  have k: "a + 8 + (f - 4) < 2 ^ 32" "unat (load32 (ram s) (?p - 4)) = (f - 4) + 4"
    using a by (simp_all add: p4 unat_of_nat)
  from deallocate_refines [OF fl p a(1) k] obtain t where
    t: "deallocate ?p s = Some t" "free_list t (insert_free (a, f - 4) segs)" "same_but_heap s t" by blast
  show thesis
    by (rule that [of t]) (use t deallocate_outside [OF fl p a(1) k t(1)] heads_ok_insert_free [OF fl(2,3) a(1) k(1)]
        in \<open>simp_all add: free_def\<close>)
qed

text \<open>The last block joins the segment below it, which is then four bytes longer than before.\<close>

lemma free_only_block:
  assumes c: "carved_heap s h k [(a, f)] lim" and room: "lim + 4 < 2 ^ 32"
  obtains t where "free (of_nat (a + 4)) s = Some t" "same_but_heap s t" "carved_heap t h (k + f + 4) [] (lim + 4)"
proof -
  from c have fl: "free_list s [(h, k)]" "1 \<le> h" and a: "a = h + 8 + k" "8 \<le> f" "load32 (ram s) (of_nat a) = of_nat f" "lim = a + f"
    by (auto simp: carved_heap_def)
  have "heads_ok 1 [(h, k)]" "header_free a [(h, k)]" using fl a room by (simp_all add: header_free_def)
  moreover have "1 \<le> a" "a + f + 4 < 2 ^ 32" using fl a room by simp_all
  ultimately obtain t where t: "free (of_nat (a + 4)) s = Some t" "free_list t (insert_free (a, f - 4) [(h, k)])" "same_but_heap s t"
    by (rule free_stated [OF fl(1) _ _ _ a(2) _ a(3)])
  have "insert_free (a, f - 4) [(h, k)] = [(h, k + f + 4)]"
    using a by (simp add: insert_free_def join_next_def join_prev_def)
  with t fl a room show thesis by (intro that [of t]) (simp_all add: carved_heap_def)
qed

text \<open>
  Three blocks released in the order middle, top, bottom: no two of them join, since
  each claims four bytes past its end.
\<close>

lemma free_three_blocks:
  assumes hc: "carved_heap s h k [(c, fc), (b, fb), (a, fa)] lim" and room: "lim + 4 < 2 ^ 32"
  obtains t u v where "free (of_nat (b + 4)) s = Some t" "free (of_nat (a + 4)) t = Some u" "free (of_nat (c + 4)) u = Some v"
    "same_but_heap s v" "free_list v [(h, k + fc + 4), (b, fb - 4), (a, fa - 4)]"
proof -
  from hc have fl: "free_list s [(h, k)]" "1 \<le> h"
    and at: "c = h + 8 + k" "b = c + fc" "a = b + fb" "lim = a + fa" and f: "8 \<le> fa" "8 \<le> fb" "8 \<le> fc"
    and ld: "load32 (ram s) (of_nat a) = of_nat fa" "load32 (ram s) (of_nat b) = of_nat fb" "load32 (ram s) (of_nat c) = of_nat fc"
    by (auto simp: carved_heap_def)
  have kept: "load32 m' (of_nat x) = load32 m (of_nat x)" if "same_outside A m m'" "x \<le> a" "{x..<x + 4} \<inter> A = {}" for x A m m'
  proof -
    have "unat (of_nat x :: ptr) = x" using that(2) at room by (simp add: unat_of_nat)
    with that at room show ?thesis by (intro load32_same_outside [OF that(1)]) simp_all
  qed
  have "heads_ok 1 [(h, k)]" "header_free b [(h, k)]" "1 \<le> b" "b + fb + 4 < 2 ^ 32"
    using fl at f room by (simp_all add: header_free_def)
  from free_stated [OF fl(1) this(1,2,3) f(2) this(4) ld(2)] obtain t where
    t: "free (of_nat (b + 4)) s = Some t" "free_list t (insert_free (b, fb - 4) [(h, k)])" "same_but_heap s t"
      "same_outside ({b..<b + 8} \<union> headers [(h, k)]) (ram s) (ram t)" .
  have segs1: "insert_free (b, fb - 4) [(h, k)] = [(h, k), (b, fb - 4)]"
    using at f by (simp add: insert_free_def join_next_def join_prev_def)
  have "{a..<a + 4} \<inter> ({b..<b + 8} \<union> headers [(h, k)]) = {}" "{c..<c + 4} \<inter> ({b..<b + 8} \<union> headers [(h, k)]) = {}"
    using at f by auto
  then have lt: "load32 (ram t) (of_nat a) = of_nat fa" "load32 (ram t) (of_nat c) = of_nat fc"
    using kept [OF t(4), of a] kept [OF t(4), of c] ld(1,3) at(2,3) by simp_all
  have "heads_ok 1 [(h, k), (b, fb - 4)]" "header_free a [(h, k), (b, fb - 4)]" "1 \<le> a" "a + fa + 4 < 2 ^ 32"
    using fl at f room by (simp_all add: header_free_def)
  from free_stated [OF t(2) [unfolded segs1] this(1,2,3) f(1) this(4) lt(1)] obtain u where
    u: "free (of_nat (a + 4)) t = Some u" "free_list u (insert_free (a, fa - 4) [(h, k), (b, fb - 4)])" "same_but_heap t u"
      "same_outside ({a..<a + 8} \<union> headers [(h, k), (b, fb - 4)]) (ram t) (ram u)" .
  have segs2: "insert_free (a, fa - 4) [(h, k), (b, fb - 4)] = [(h, k), (b, fb - 4), (a, fa - 4)]"
    using at f by (simp add: insert_free_def join_next_def join_prev_def)
  have "{c..<c + 4} \<inter> ({a..<a + 8} \<union> headers [(h, k), (b, fb - 4)]) = {}" using at f by auto
  then have lu: "load32 (ram u) (of_nat c) = of_nat fc" using kept [OF u(4), of c] lt(2) at(2,3) by simp
  have "heads_ok 1 [(h, k), (b, fb - 4), (a, fa - 4)]" "header_free c [(h, k), (b, fb - 4), (a, fa - 4)]" "1 \<le> c" "c + fc + 4 < 2 ^ 32"
    using fl at f room by (simp_all add: header_free_def)
  from free_stated [OF u(2) [unfolded segs2] this(1,2,3) f(3) this(4) lu] obtain v where
    v: "free (of_nat (c + 4)) u = Some v" "free_list v (insert_free (c, fc - 4) [(h, k), (b, fb - 4), (a, fa - 4)])" "same_but_heap u v" .
  have segs3: "insert_free (c, fc - 4) [(h, k), (b, fb - 4), (a, fa - 4)] = [(h, k + fc + 4), (b, fb - 4), (a, fa - 4)]"
    using at f by (simp add: insert_free_def join_next_def join_prev_def)
  show thesis
    using that [OF t(1) u(1) v(1)] v(2) segs3 t(3) u(3) v(3) same_but_heap_trans by metis
qed

section \<open>Running a test\<close>

text \<open>
  What a memory test may change: the console, the heap and the counters. \<open>tested n\<close>
  states further that \<open>n\<close> assertions held and none failed.
\<close>

definition same_but_tests :: "'z test_state_scheme \<Rightarrow> 'z test_state_scheme \<Rightarrow> bool" where
  "same_but_tests s t \<longleftrightarrow> t = s\<lparr>trace := trace t, vga_buffer := vga_buffer t, terminal_row := terminal_row t,
      terminal_column := terminal_column t, ram := ram t, first_free := first_free t,
      tests_passed := tests_passed t, tests_failed := tests_failed t\<rparr>
    \<and> other_io (trace t) = other_io (trace s)"

definition tested :: "u32 \<Rightarrow> 'z test_state_scheme \<Rightarrow> 'z test_state_scheme \<Rightarrow> bool" where
  "tested n s t \<longleftrightarrow> same_but_tests s t \<and> tests_passed t = tests_passed s + n \<and> tests_failed t = tests_failed s"

definition same_heap :: "'z mem_scheme \<Rightarrow> 'z mem_scheme \<Rightarrow> bool" where
  "same_heap s t \<longleftrightarrow> ram t = ram s \<and> first_free t = first_free s"

lemma tested_trans: "tested n s t \<Longrightarrow> tested m t u \<Longrightarrow> tested (n + m) s u"
  by (cases s; cases t; cases u) (simp add: tested_def same_but_tests_def)

lemma tested_refl: "tested 0 s s"
  by (simp add: tested_def same_but_tests_def)

lemma tested_heap: "same_but_heap s t \<Longrightarrow> tested 0 s t"
  by (cases s; cases t) (simp add: tested_def same_but_tests_def same_but_heap_def)

lemma tested_console: "same_but_console s t \<Longrightarrow> tested 0 s t"
  by (cases s; cases t) (simp add: tested_def same_but_tests_def same_but_console_def)

lemma tested_device: "tested n s t \<Longrightarrow> device t = device s"
  by (cases s; cases t) (simp add: tested_def same_but_tests_def)

lemma carved_heap_cong: "same_heap s t \<Longrightarrow> carved_heap s h k bs lim \<Longrightarrow> carved_heap t h k bs lim"
  by (simp add: carved_heap_def free_list_def same_heap_def)

lemma field_same_heap: "same_heap s t \<Longrightarrow> field p off t = field p off s"
  by (simp add: field_def same_heap_def)

text \<open>An assertion that holds prints and counts, and leaves the heap alone.\<close>

lemma prints_then_counts:
  assumes "prints f str" and "uart_drains (device s)"
  obtains t where "do { s \<leftarrow> f s; Some (s\<lparr>tests_passed := tests_passed s + 1\<rparr>) } = Some t" "tested 1 s t" "same_heap s t"
proof -
  from printsD [OF assms] obtain u where u: "f s = Some u" "same_but_console s u" by blast
  show thesis
  proof (rule that [of "u\<lparr>tests_passed := tests_passed u + 1\<rparr>"])
    show "tested 1 s (u\<lparr>tests_passed := tests_passed u + 1\<rparr>)"
      using u(2) by (cases s; cases u) (simp add: tested_def same_but_tests_def same_but_console_def)
  qed (use u same_but_console_heap [OF u(2)] in \<open>simp_all add: same_heap_def\<close>)
qed

lemma prints_put_i32_string: "prints (put_i32 n) (cstr (int_to_string n))"
  using prints_output_string [of "int_to_string n"] by (simp add: put_i32_def [abs_def])

lemma assert_holds:
  fixes s :: "'z test_state_scheme"
  assumes "uart_drains (device s)" and "b"
  obtains t where "assert_here b msg line s = Some t" "tested 1 s t" "same_heap s t" "uart_drains (device t)"
proof -
  let ?f = "\<lambda>s :: 'z test_state_scheme. do { s \<leftarrow> output_string ''PASS: '' s; s \<leftarrow> output_string msg s; s \<leftarrow> output_string '' ('' s;
      s \<leftarrow> output_string kernel_file s; s \<leftarrow> output_string '':'' s; s \<leftarrow> put_i32 line s; output_string ('')'' @ [LF]) s }"
  have "\<exists>out. prints ?f out"
    by (rule exI, (rule prints_seq prints_output_string prints_put_i32_string)+)
  then obtain out where "prints ?f out" ..
  from prints_then_counts [OF this assms(1)] obtain t where
    t: "do { s \<leftarrow> ?f s; Some (s\<lparr>tests_passed := tests_passed s + 1\<rparr>) } = Some t" "tested 1 s t" "same_heap s t" .
  have "uart_drains (device t)" using assms(1) tested_device [OF t(2)] by simp
  from that [OF _ t(2,3) this] show thesis using t(1) assms(2) by (simp add: assert_here_def test_assert_def)
qed

lemma assert_equal_holds:
  fixes s :: "'z test_state_scheme"
  assumes "uart_drains (device s)" and "x = y"
  obtains t where "assert_equal_here x y msg line s = Some t" "tested 1 s t" "same_heap s t" "uart_drains (device t)"
proof -
  let ?f = "\<lambda>s :: 'z test_state_scheme. do { s \<leftarrow> output_string ''PASS: '' s; s \<leftarrow> output_string msg s; s \<leftarrow> output_string '' ('' s;
      s \<leftarrow> output_string kernel_file s; s \<leftarrow> output_string '':'' s; s \<leftarrow> put_i32 line s; s \<leftarrow> output_string '') Expected: '' s;
      s \<leftarrow> put_i32 x s; s \<leftarrow> output_string '', Actual: '' s; s \<leftarrow> put_i32 y s; output_string [LF] s }"
  have "\<exists>out. prints ?f out"
    unfolding assms(2) [symmetric] by (rule exI, (rule prints_seq prints_output_string prints_put_i32_string)+)
  then obtain out where "prints ?f out" ..
  from prints_then_counts [OF this assms(1)] obtain t where
    t: "do { s \<leftarrow> ?f s; Some (s\<lparr>tests_passed := tests_passed s + 1\<rparr>) } = Some t" "tested 1 s t" "same_heap s t" .
  have "uart_drains (device t)" using assms(1) tested_device [OF t(2)] by simp
  from that [OF _ t(2,3) this] show thesis using t(1) assms(2) by (simp add: assert_equal_here_def test_assert_equal_def)
qed

lemma test_entry_runs:
  fixes s :: "'z test_state_scheme"
  assumes d: "uart_drains (device s)"
    and f: "\<And>u. uart_drains (device u) \<Longrightarrow> same_heap s u \<Longrightarrow> \<exists>t. f u = Some t \<and> tested n u t \<and> Q t"
  obtains t where "run_test_entries ((name, f) # tests) s = run_test_entries tests t" "tested n s t" "Q t" "uart_drains (device t)"
proof -
  let ?f = "\<lambda>s :: 'z test_state_scheme. do { s \<leftarrow> output_string ''Running test: '' s; s \<leftarrow> output_string name s; output_string [LF] s }"
  have "\<exists>out. prints ?f out" by (rule exI, (rule prints_seq prints_output_string)+)
  then obtain out where "prints ?f out" ..
  from printsD [OF this d] obtain u where u: "?f s = Some u" "same_but_console s u" "uart_drains (device u)" by blast
  from f [OF u(3)] same_but_console_heap [OF u(2)] obtain t where t: "f u = Some t" "tested n u t" "Q t" by (auto simp: same_heap_def)
  show thesis
  proof (rule that [OF _ _ t(3)])
    have "run_test_entries ((name, f) # tests) s = do { s \<leftarrow> ?f s; s \<leftarrow> f s; run_test_entries tests s }" by simp
    then show "run_test_entries ((name, f) # tests) s = run_test_entries tests t" using u(1) t(1) by simp
    show n: "tested n s t" using tested_trans [OF tested_console [OF u(2)] t(2)] by simp
    show "uart_drains (device t)" using tested_device [OF n] d by simp
  qed
qed

section \<open>The memory tests\<close>

lemma alloc_basic_passes:
  fixes s :: "'z test_state_scheme"
  assumes d: "uart_drains (device s)" and c: "carved_heap s h k [] lim" and room: "34 \<le> k" "lim + 4 < 2 ^ 32"
  shows "\<exists>t. test_memory_alloc_basic s = Some t \<and> tested 1 s t \<and> carved_heap t h (k + 4) [] (lim + 4)"
proof -
  have sz: "4 \<le> unat (10 :: u32)" "unat (10 :: u32) + 24 \<le> k" using room by simp_all
  obtain a u where u: "malloc 10 s = Some (of_nat (a + 4), u)" "(of_nat (a + 4) :: ptr) \<noteq> 0" "same_but_heap s u"
    "carved_heap u h (a - (h + 8)) [(a, h + 8 + k - a)] lim" "h + 8 < a" "a + 4 + unat (10 :: u32) \<le> h + 8 + k"
    by (rule malloc_carves [OF c sz])
  note u0 = tested_heap [OF u(3)]
  have "uart_drains (device u)" using d tested_device [OF u0] by simp
  then obtain v where
    v: "assert_here (of_nat (a + 4) \<noteq> (0 :: ptr)) ''Basic allocation should succeed'' 247 u = Some v" "tested 1 u v" "same_heap u v"
    by (rule assert_holds [OF _ u(2)])
  from free_only_block [OF carved_heap_cong [OF v(3) u(4)] room(2)] obtain t where
    t: "free (of_nat (a + 4)) v = Some t" "same_but_heap v t" "carved_heap t h (a - (h + 8) + (h + 8 + k - a) + 4) [] (lim + 4)" .
  have "a - (h + 8) + (h + 8 + k - a) + 4 = k + 4" using u(5,6) by simp
  moreover have "tested 1 s t" using tested_trans [OF tested_trans [OF u0 v(2)] tested_heap [OF t(2)]] by simp
  ultimately show ?thesis
    using u(1,2) v(1) t(1,3) by (simp add: test_memory_alloc_basic_def del: of_nat_add)
qed

lemma alloc_zero_passes:
  "carved_heap s h k [] lim \<Longrightarrow> \<exists>t. test_memory_alloc_zero s = Some t \<and> tested 0 s t \<and> carved_heap t h k [] lim"
  by (simp add: test_memory_alloc_zero_def malloc_def allocate_def tested_refl)

lemma check_numbers_pass:
  fixes s :: "'z test_state_scheme"
  assumes "uart_drains (device s)" and "\<And>i. i \<in> set is \<Longrightarrow> field numbers (4 * of_nat i) s = of_nat i * 10"
  shows "\<exists>t. check_numbers numbers is s = Some t \<and> tested (of_nat (length is)) s t \<and> same_heap s t"
  using assms
proof (induction "is" arbitrary: s)
  case Nil
  then show ?case by (simp add: tested_refl same_heap_def)
next
  case (Cons i "is")
  have "of_nat i * 10 = field numbers (4 * of_nat i) s" using Cons.prems(2) [of i] by simp
  then obtain u where u: "assert_equal_here (of_nat i * 10) (field numbers (4 * of_nat i) s) ''Array values should be correct'' 271 s = Some u"
    "tested 1 s u" "same_heap s u" by (rule assert_equal_holds [OF Cons.prems(1)])
  have "uart_drains (device u)" using Cons.prems(1) tested_device [OF u(2)] by simp
  with Cons.IH [of u] Cons.prems(2) field_same_heap [OF u(3)] obtain t where
    t: "check_numbers numbers is u = Some t" "tested (of_nat (length is)) u t" "same_heap u t" by auto
  have "same_heap s t" using u(3) t(3) by (simp add: same_heap_def)
  with u(1) t(1) tested_trans [OF u(2) t(2)] show ?case by simp
qed

text \<open>The five numbers go into the block and read back.\<close>

abbreviation numbers_written :: "ptr \<Rightarrow> field_write list" where
  "numbers_written p \<equiv> [(p, 0, 0), (p, 4, 10), (p, 8, 20), (p, 12, 30), (p, 16, 40)]"

lemma numbers_loop: "for_up 0 5 (\<lambda>i s. set_field p (4 * of_nat i) (of_nat i * 10) s) s = set_fields (numbers_written p) s"
  by (simp add: for_up_def upt_rec eval_nat_numeral)

lemma numbers_read:
  assumes "unat p + 20 \<le> 2 ^ 32" and "i \<in> {0, 1, 2, 3, 4}"
  shows "field p (4 * of_nat i) (set_fields (numbers_written p) s) = of_nat i * 10"
proof (rule field_set_fields)
  show "(p, 4 * of_nat i, of_nat i * 10) \<in> set (numbers_written p)" using assms(2) by auto
  show "pairwise_disjoint (map (\<lambda>(p, off, v). bytes_of p off) (numbers_written p))"
    by (simp add: bytes_of_def)
qed (use assms(1) in simp)

lemma numbers_carved:
  assumes c: "carved_heap s h k ((a, f) # bs) lim" and f: "24 \<le> f"
  shows "carved_heap (set_fields (numbers_written (of_nat (a + 4))) s) h k ((a, f) # bs) lim"
    and "unat (of_nat (a + 4) :: ptr) + 20 \<le> 2 ^ 32"
proof -
  from c have cv: "carved (ram s) (h + 8 + k) ((a, f) # bs) lim" and "lim < 2 ^ 32" unfolding carved_heap_def by blast+
  then have "a + f < 2 ^ 32" using carved_member [OF cv, of a f] by simp
  with f have p: "unat (of_nat (a + 4) :: ptr) = a + 4" by (subst unat_of_nat) simp
  show room: "unat (of_nat (a + 4) :: ptr) + 20 \<le> 2 ^ 32" using p f \<open>a + f < 2 ^ 32\<close> by simp
  show "carved_heap (set_fields (numbers_written (of_nat (a + 4))) s) h k ((a, f) # bs) lim"
    by (rule carved_heap_writes [OF c set_fields_outside set_fields_free])
      (use room p f in \<open>auto simp: bytes_of_def simp del: of_nat_add\<close>)
qed

lemma alloc_and_free_passes:
  fixes s :: "'z test_state_scheme"
  assumes d: "uart_drains (device s)" and c: "carved_heap s h k [] lim" and room: "44 \<le> k" "lim + 4 < 2 ^ 32"
  shows "\<exists>t. test_memory_alloc_and_free s = Some t \<and> tested 6 s t \<and> carved_heap t h (k + 4) [] (lim + 4)"
proof -
  have sz: "4 \<le> unat (20 :: u32)" "unat (20 :: u32) + 24 \<le> k" using room by simp_all
  obtain a u where u: "malloc 20 s = Some (of_nat (a + 4), u)" "(of_nat (a + 4) :: ptr) \<noteq> 0" "same_but_heap s u"
    "carved_heap u h (a - (h + 8)) [(a, h + 8 + k - a)] lim" "h + 8 < a" "a + 4 + unat (20 :: u32) \<le> h + 8 + k"
    by (rule malloc_carves [OF c sz])
  note u0 = tested_heap [OF u(3)]
  have "uart_drains (device u)" using d tested_device [OF u0] by simp
  then obtain v where
    v: "assert_here (of_nat (a + 4) \<noteq> (0 :: ptr)) ''Array allocation should succeed'' 262 u = Some v" "tested 1 u v" "same_heap u v"
    by (rule assert_holds [OF _ u(2)])
  let ?w = "set_fields (numbers_written (of_nat (a + 4))) v"
  have f: "24 \<le> h + 8 + k - a" using u(6) by simp
  note w = numbers_carved [OF carved_heap_cong [OF v(3) u(4)] f]
  have w0: "tested 1 s ?w" using tested_trans [OF tested_trans [OF u0 v(2)] tested_heap [OF set_fields_frame]] by (simp del: set_fields.simps)
  have "uart_drains (device ?w)" unfolding tested_device [OF w0] by (rule d)
  from check_numbers_pass [OF this numbers_read [OF w(2)], of "[0, 1, 2, 3, 4]"] obtain x where
    x: "check_numbers (of_nat (a + 4)) [0, 1, 2, 3, 4] ?w = Some x" "tested 5 ?w x" "same_heap ?w x" by auto
  from free_only_block [OF carved_heap_cong [OF x(3) w(1)] room(2)] obtain t where
    t: "free (of_nat (a + 4)) x = Some t" "same_but_heap x t" "carved_heap t h (a - (h + 8) + (h + 8 + k - a) + 4) [] (lim + 4)" .
  have "a - (h + 8) + (h + 8 + k - a) + 4 = k + 4" using u(5,6) by simp
  moreover have "tested 6 s t" using tested_trans [OF tested_trans [OF w0 x(2)] tested_heap [OF t(2)]] by simp
  ultimately show ?thesis
    using u(1,2) v(1) x(1) t(1,3) by (simp add: test_memory_alloc_and_free_def numbers_loop Let_def del: of_nat_add set_fields.simps check_numbers.simps)
qed

text \<open>The three blocks of the last test with the values written into them.\<close>

definition three_values :: "ptr \<Rightarrow> ptr \<Rightarrow> ptr \<Rightarrow> 'z mem_scheme \<Rightarrow> 'z mem_scheme" where
  "three_values p q r s = set_byte r 0x42 (set_field q 0 100 (set_byte p 0x41 s))"

lemma three_values_written:
  fixes s :: "'z mem_scheme"
  assumes c: "carved_heap s h k [(c, fc), (b, fb), (a, fa)] lim"
  defines "p \<equiv> of_nat (a + 4)" and "q \<equiv> of_nat (b + 4)" and "r \<equiv> of_nat (c + 4)"
  shows "carved_heap (three_values p q r s) h k [(c, fc), (b, fb), (a, fa)] lim"
    and "get_byte p (three_values p q r s) = 0x41" "field q 0 (three_values p q r s) = 100"
      "get_byte r (three_values p q r s) = 0x42"
proof -
  from c have at: "b = c + fc" "a = b + fb" "lim = a + fa" "lim < 2 ^ 32" and f: "8 \<le> fa" "8 \<le> fb" "8 \<le> fc"
    by (auto simp: carved_heap_def)
  have lt: "a + 4 < 2 ^ 32" "b + 4 < 2 ^ 32" "c + 4 < 2 ^ 32" using at f by simp_all
  have u: "unat p = a + 4" "unat q = b + 4" "unat r = c + 4"
    unfolding p_def q_def r_def by (subst unat_of_nat, use lt in simp)+
  have q0: "unat q + unat (0 :: u32) + 4 \<le> 2 ^ 32" using u(2) at f by simp
  let ?A = "{unat p} \<union> bytes_of q 0 \<union> {unat r}"
  have byte: "same_outside {unat y} (ram t) (ram (set_byte y v t))" for y v and t :: "'z mem_scheme"
    by (simp add: set_byte_def same_outside_byte)
  have "same_outside ?A (ram s) (ram (three_values p q r s))"
    unfolding three_values_def
  proof (rule same_outside_trans [OF same_outside_trans])
    show "same_outside ?A (ram s) (ram (set_byte p 0x41 s))" by (rule same_outside_mono [OF byte]) simp
    show "same_outside ?A (ram t) (ram (set_field q 0 100 t))" for t :: "'z mem_scheme"
      by (rule same_outside_mono [OF set_field_outside [OF q0]]) auto
    show "same_outside ?A (ram t) (ram (set_byte r 0x42 t))" for t :: "'z mem_scheme" by (rule same_outside_mono [OF byte]) simp
  qed
  then show "carved_heap (three_values p q r s) h k [(c, fc), (b, fb), (a, fa)] lim"
    by (rule carved_heap_writes [OF c]) (use u f in \<open>auto simp: three_values_def set_byte_def set_field_def bytes_of_def\<close>)
  have "r \<noteq> p" using u at f by auto
  have x: "ram (set_field q 0 100 t) y = ram t y" if "unat y < b + 4 \<or> b + 8 \<le> unat y" for t :: "'z mem_scheme" and y
    using set_field_outside [OF q0, of t 100] that u(2) by (auto simp: same_outside_def bytes_of_def)
  show "get_byte p (three_values p q r s) = 0x41"
    using x [of p] u at f \<open>r \<noteq> p\<close> by (simp add: get_byte_def three_values_def set_byte_def)
  show "get_byte r (three_values p q r s) = 0x42" by (simp add: get_byte_def three_values_def set_byte_def)
  from field_same_outside [OF byte _ q0] show "field q 0 (three_values p q r s) = 100"
    using u at f by (simp add: three_values_def bytes_of_def)
qed

lemma three_blocks:
  assumes c: "carved_heap s h k [] lim" and k: "140 \<le> k"
  obtains a b c t u v where "malloc 20 s = Some (of_nat (a + 4), t)" "malloc 40 t = Some (of_nat (b + 4), u)"
    "malloc 30 u = Some (of_nat (c + 4), v)" "(of_nat (a + 4) :: ptr) \<noteq> 0" "(of_nat (b + 4) :: ptr) \<noteq> 0" "(of_nat (c + 4) :: ptr) \<noteq> 0"
    "same_but_heap s v" "carved_heap v h (c - (h + 8)) [(c, b - c), (b, a - b), (a, lim - a)] lim"
    "h + 8 < c" "c < b" "b < a" "8 dvd b + 4" "h + 8 + k < c + 126"
proof -
  have lim: "lim = h + 8 + k" using c by (simp add: carved_heap_def)
  have "4 \<le> unat (20 :: u32)" "unat (20 :: u32) + 24 \<le> k" using k by simp_all
  from malloc_carves [OF c this] obtain a t where t: "malloc 20 s = Some (of_nat (a + 4), t)" "(of_nat (a + 4) :: ptr) \<noteq> 0" "same_but_heap s t"
    "carved_heap t h (a - (h + 8)) [(a, h + 8 + k - a)] lim"
    "h + 8 < a" "a + 4 + unat (20 :: u32) \<le> h + 8 + k" "h + 8 + k < a + 12 + unat (20 :: u32)" .
  have "4 \<le> unat (40 :: u32)" "unat (40 :: u32) + 24 \<le> a - (h + 8)" using k t(7) by simp_all
  from malloc_carves [OF t(4) this] obtain b u where u: "malloc 40 t = Some (of_nat (b + 4), u)" "(of_nat (b + 4) :: ptr) \<noteq> 0" "same_but_heap t u"
    "carved_heap u h (b - (h + 8)) [(b, h + 8 + (a - (h + 8)) - b), (a, h + 8 + k - a)] lim"
    "h + 8 < b" "b + 4 + unat (40 :: u32) \<le> h + 8 + (a - (h + 8))" "h + 8 + (a - (h + 8)) < b + 12 + unat (40 :: u32)" "8 dvd b + 4" .
  have "4 \<le> unat (30 :: u32)" "unat (30 :: u32) + 24 \<le> b - (h + 8)" using k t(5,7) u(7) by simp_all
  from malloc_carves [OF u(4) this] obtain c v where v: "malloc 30 u = Some (of_nat (c + 4), v)" "(of_nat (c + 4) :: ptr) \<noteq> 0" "same_but_heap u v"
    "carved_heap v h (c - (h + 8)) [(c, h + 8 + (b - (h + 8)) - c), (b, h + 8 + (a - (h + 8)) - b), (a, h + 8 + k - a)] lim"
    "h + 8 < c" "c + 4 + unat (30 :: u32) \<le> h + 8 + (b - (h + 8))" "h + 8 + (b - (h + 8)) < c + 12 + unat (30 :: u32)" .
  have e: "h + 8 + (a - (h + 8)) = a" "h + 8 + (b - (h + 8)) = b" using t(5) u(5) by simp_all
  have "same_but_heap s v" using t(3) u(3) v(3) same_but_heap_trans by blast
  then show thesis
    using that [OF t(1) u(1) v(1) t(2) u(2) v(2)] v(4-7) u(6-8) t(6,7) unfolding e lim by simp
qed

lemma multiple_alloc_free_passes:
  fixes s :: "'z test_state_scheme"
  assumes d: "uart_drains (device s)" and c: "carved_heap s h k [] lim" and room: "140 \<le> k" "lim + 4 < 2 ^ 32"
  shows "\<exists>t a b l. test_memory_multiple_alloc_free s = Some t \<and> tested 6 s t \<and> 8 dvd b + 4
     \<and> free_list t [(h, l), (b, a - b - 4), (a, lim - a - 4)] \<and> h + 8 + l = b + 4 \<and> b + 4 < a \<and> a + 8 \<le> lim \<and> k < l + 120"
proof -
  from three_blocks [OF c room(1)] obtain a b c t u v where
    m: "malloc 20 s = Some (of_nat (a + 4), t)" "malloc 40 t = Some (of_nat (b + 4), u)"
      "malloc 30 u = Some (of_nat (c + 4), v)" "(of_nat (a + 4) :: ptr) \<noteq> 0" "(of_nat (b + 4) :: ptr) \<noteq> 0" "(of_nat (c + 4) :: ptr) \<noteq> 0"
    and v: "same_but_heap s v" "carved_heap v h (c - (h + 8)) [(c, b - c), (b, a - b), (a, lim - a)] lim"
    and at: "h + 8 < c" "c < b" "b < a" "8 dvd b + 4" "h + 8 + k < c + 126" .
  note v0 = tested_heap [OF v(1)]
  let ?p = "of_nat (a + 4) :: ptr" and ?q = "of_nat (b + 4) :: ptr" and ?r = "of_nat (c + 4) :: ptr"
  have "uart_drains (device v)" using d tested_device [OF v0] by simp
  from assert_holds [OF this m(4)] obtain v1 where v1: "assert_here (?p \<noteq> 0) ''First string allocation should succeed'' 283 v = Some v1"
    "tested 1 v v1" "same_heap v v1" "uart_drains (device v1)" .
  from assert_holds [OF v1(4) m(5)] obtain v2 where v2: "assert_here (?q \<noteq> 0) ''Array allocation should succeed'' 284 v1 = Some v2"
    "tested 1 v1 v2" "same_heap v1 v2" "uart_drains (device v2)" .
  from assert_holds [OF v2(4) m(6)] obtain v3 where v3: "assert_here (?r \<noteq> 0) ''Second string allocation should succeed'' 285 v2 = Some v3"
    "tested 1 v2 v3" "same_heap v2 v3" "uart_drains (device v3)" .
  have "same_heap v v3" using v1(3) v2(3) v3(3) by (simp add: same_heap_def)
  note w = three_values_written [OF carved_heap_cong [OF this v(2)]]
  let ?w = "three_values ?p ?q ?r v3"
  have w0: "same_but_heap v3 ?w" unfolding three_values_def by (rule same_but_heap_trans [OF same_but_heap_trans [OF set_byte_frame set_field_frame] set_byte_frame])
  have "uart_drains (device ?w)" using v3(4) tested_device [OF tested_heap [OF w0]] by simp
  moreover have "0x41 = scast (get_byte ?p ?w)" using w(2) by simp
  ultimately obtain x1 where x1: "assert_equal_here 0x41 (scast (get_byte ?p ?w)) ''First string should hold value'' 292 ?w = Some x1"
    "tested 1 ?w x1" "same_heap ?w x1" "uart_drains (device x1)" by (rule assert_equal_holds)
  have "100 = field ?q 0 x1" using w(3) field_same_heap [OF x1(3)] by simp
  from assert_equal_holds [OF x1(4) this] obtain x2 where x2: "assert_equal_here 100 (field ?q 0 x1) ''Array should hold value'' 293 x1 = Some x2"
    "tested 1 x1 x2" "same_heap x1 x2" "uart_drains (device x2)" .
  have "0x42 = scast (get_byte ?r x2)" using w(4) x1(3) x2(3) by (simp add: same_heap_def get_byte_def)
  from assert_equal_holds [OF x2(4) this] obtain x3 where x3: "assert_equal_here 0x42 (scast (get_byte ?r x2)) ''Second string should hold value'' 294 x2 = Some x3"
    "tested 1 x2 x3" "same_heap x2 x3" .
  have "same_heap ?w x3" using x1(3) x2(3) x3(3) by (simp add: same_heap_def)
  from free_three_blocks [OF carved_heap_cong [OF this w(1)] room(2)] obtain y1 y2 y where
    y: "free ?q x3 = Some y1" "free ?p y1 = Some y2" "free ?r y2 = Some y" "same_but_heap x3 y"
      "free_list y [(h, c - (h + 8) + (b - c) + 4), (b, a - b - 4), (a, lim - a - 4)]" .
  note n = tested_trans [OF tested_trans [OF tested_trans [OF tested_trans [OF v0 v1(2)] v2(2)] v3(2)] tested_heap [OF w0]]
  have "tested 6 s y" using tested_trans [OF tested_trans [OF tested_trans [OF tested_trans [OF n x1(2)] x2(2)] x3(2)] tested_heap [OF y(4)]] by simp
  moreover have "test_memory_multiple_alloc_free s = Some y"
    using m v1(1) v2(1) v3(1) x1(1) x2(1) x3(1) y(1-3)
    by (simp add: test_memory_multiple_alloc_free_def three_values_def Let_def del: of_nat_add)
  moreover have "8 \<le> a - b" "8 \<le> lim - a" "8 \<le> b - c" using v(2) by (simp_all add: carved_heap_def)
  then have "h + 8 + (c - (h + 8) + (b - c) + 4) = b + 4" "b + 4 < a" "a + 8 \<le> lim" "k < c - (h + 8) + (b - c) + 4 + 120" using at by linarith+
  ultimately show ?thesis using y(5) at(4) by blast
qed

text \<open>The tests in the order of the runner.\<close>

abbreviation multiple_test :: "'z test_state_scheme test_entry list" where
  "multiple_test \<equiv> [(''memory_multiple_alloc_free'', test_memory_multiple_alloc_free)]"

abbreviation array_tests :: "'z test_state_scheme test_entry list" where
  "array_tests \<equiv> (''memory_alloc_and_free'', test_memory_alloc_and_free) # multiple_test"

abbreviation zero_tests :: "'z test_state_scheme test_entry list" where
  "zero_tests \<equiv> (''memory_alloc_zero'', test_memory_alloc_zero) # array_tests"

abbreviation memory_tests :: "'z test_state_scheme test_entry list" where
  "memory_tests \<equiv> (''memory_alloc_basic'', test_memory_alloc_basic) # zero_tests"

lemma memory_tests_run:
  fixes s :: "'z test_state_scheme"
  assumes d: "uart_drains (device s)" and c: "carved_heap s h k [] lim" and room: "140 \<le> k" "lim + 12 < 2 ^ 32"
  obtains t b l m a n where "run_test_entries memory_tests s = Some t" "tested 13 s t"
    "8 dvd b + 4" "free_list t [(h, l), (b, m), (a, n)]" "h + 8 + l = b + 4" "b + 8 + m = a + 4" "a + 8 + n = lim + 12" "a \<le> lim" "k < l + 120"
proof -
  have r: "34 \<le> k" "lim + 4 < 2 ^ 32" "44 \<le> k + 4" "lim + 4 + 4 < 2 ^ 32" "140 \<le> k + 4 + 4" "lim + 4 + 4 + 4 < 2 ^ 32"
    using room by simp_all
  obtain s1 where s1: "run_test_entries ((''memory_alloc_basic'', test_memory_alloc_basic) # zero_tests) s = run_test_entries zero_tests s1"
    "tested 1 s s1" "carved_heap s1 h (k + 4) [] (lim + 4)" "uart_drains (device s1)"
    by (rule test_entry_runs [OF d alloc_basic_passes [OF _ carved_heap_cong [OF _ c] r(1,2)]])
  obtain s2 where s2: "run_test_entries ((''memory_alloc_zero'', test_memory_alloc_zero) # array_tests) s1 = run_test_entries array_tests s2"
    "tested 0 s1 s2" "carved_heap s2 h (k + 4) [] (lim + 4)" "uart_drains (device s2)"
    by (rule test_entry_runs [OF s1(4) alloc_zero_passes [OF carved_heap_cong [OF _ s1(3)]]])
  obtain s3 where s3: "run_test_entries ((''memory_alloc_and_free'', test_memory_alloc_and_free) # multiple_test) s2 = run_test_entries multiple_test s3"
    "tested 6 s2 s3" "carved_heap s3 h (k + 4 + 4) [] (lim + 4 + 4)" "uart_drains (device s3)"
    by (rule test_entry_runs [OF s2(4) alloc_and_free_passes [OF _ carved_heap_cong [OF _ s2(3)] r(3,4)]])
  have "\<exists>t. test_memory_multiple_alloc_free u = Some t \<and> tested 6 u t \<and> (\<exists>a b l. 8 dvd b + 4
      \<and> free_list t [(h, l), (b, a - b - 4), (a, lim + 4 + 4 - a - 4)] \<and> h + 8 + l = b + 4 \<and> b + 4 < a \<and> a + 8 \<le> lim + 4 + 4 \<and> k + 4 + 4 < l + 120)"
    if "uart_drains (device u)" "same_heap s3 u" for u
    using multiple_alloc_free_passes [OF that(1) carved_heap_cong [OF that(2) s3(3)] r(5,6)] by blast
  then obtain t where t: "run_test_entries ((''memory_multiple_alloc_free'', test_memory_multiple_alloc_free) # []) s3 = run_test_entries [] t"
    "tested 6 s3 t" "\<exists>a b l. 8 dvd b + 4
      \<and> free_list t [(h, l), (b, a - b - 4), (a, lim + 4 + 4 - a - 4)] \<and> h + 8 + l = b + 4 \<and> b + 4 < a \<and> a + 8 \<le> lim + 4 + 4 \<and> k + 4 + 4 < l + 120"
    by (rule test_entry_runs [OF s3(4)])
  have n: "tested 13 s t" using tested_trans [OF tested_trans [OF tested_trans [OF s1(2) s2(2)] s3(2)] t(2)] by simp
  have run: "run_test_entries memory_tests s = Some t" using s1(1) s2(1) s3(1) t(1) by (simp only: run_test_entries.simps(1))
  from t(3) obtain a b l where f: "8 dvd b + 4" "free_list t [(h, l), (b, a - b - 4), (a, lim + 4 + 4 - a - 4)]"
    "h + 8 + l = b + 4" "b + 4 < a" "a + 8 \<le> lim + 4 + 4" "k + 4 + 4 < l + 120" by blast
  show thesis
    by (rule that [OF run n f(1-3)]) (use f(4-6) in simp_all)
qed

text \<open>The runner around them: it resets the counters and prints the verdict.\<close>

lemma same_but_console_counts:
  "same_but_console s t \<Longrightarrow> tests_passed t = tests_passed s \<and> tests_failed (t :: 'z test_state_scheme) = tests_failed s"
  by (cases s; cases t) (simp add: same_but_console_def)

lemma prints_from_put_i32: "v s = n \<Longrightarrow> prints_from s (\<lambda>s. put_i32 (v s) s) (cstr (int_to_string n))"
  by (rule prints_from_cong [OF _ prints_fromI [OF prints_put_i32_string]]) simp

definition test_results :: "'z test_state_scheme \<Rightarrow> 'z test_state_scheme option" where
  "test_results s =
     do { s \<leftarrow> output_string (LF # ''Test Results: '') s; s \<leftarrow> put_i32 (tests_passed s) s;
      s \<leftarrow> output_string '' passed, '' s; s \<leftarrow> put_i32 (tests_failed s) s; s \<leftarrow> output_string ('' failed'' @ [LF]) s;
      if tests_failed s = 0 then output_string (''All tests passed!'' @ [LF]) s else output_string (''Some tests failed!'' @ [LF]) s }"

definition test_header :: "nat \<Rightarrow> 'z test_state_scheme \<Rightarrow> 'z test_state_scheme option" where
  "test_header n s = do { s \<leftarrow> output_string ''Running '' s; s \<leftarrow> put_i32 (of_nat n) s; output_string ('' tests...'' @ [LF, LF]) s }"

lemma run_tests_parts:
  "run_tests tests s = do { s \<leftarrow> test_header (length tests) (s\<lparr>tests_passed := 0, tests_failed := 0\<rparr>);
     s \<leftarrow> run_test_entries tests s; test_results s }"
  by (simp add: run_tests_def test_header_def test_results_def)

lemma all_passed_printed:
  fixes s :: "'z test_state_scheme"
  assumes "tests_passed s = p" and "tests_failed s = 0"
  shows "prints_from s test_results
      ((LF # ''Test Results: '') @ cstr (int_to_string p) @ '' passed, '' @ cstr (int_to_string 0) @ ('' failed'' @ [LF])
        @ (if True then ''All tests passed!'' @ [LF] else ''Some tests failed!'' @ [LF]))"
  unfolding test_results_def [abs_def]
  by (rule prints_from_seq prints_from_if prints_from_literal prints_from_put_i32
      | use assms in \<open>simp add: same_but_console_counts\<close>)+

lemma run_tests_all_pass:
  fixes s :: "'z test_state_scheme"
  assumes d: "uart_drains (device s)"
    and run: "\<And>u. uart_drains (device u) \<Longrightarrow> same_heap s u \<Longrightarrow> \<exists>t. run_test_entries tests u = Some t \<and> tested n u t \<and> Q t"
    and Q: "\<And>t u. same_heap t u \<Longrightarrow> Q t \<Longrightarrow> Q u"
  obtains t out where "run_tests tests s = Some t" "tests_passed t = n" "tests_failed t = 0" "same_but_tests s t" "Q t"
    "sent t = out @ map of_char (crlf (LF # ''Test Results: '' @ cstr (int_to_string n) @ '' passed, 0 failed'' @ [LF] @ ''All tests passed!'' @ [LF]))"
proof -
  let ?s = "s\<lparr>tests_passed := 0, tests_failed := 0\<rparr>"
  have "\<exists>out. prints (test_header (length tests) :: 'z test_state_scheme \<Rightarrow> _) out"
    unfolding test_header_def [abs_def] by (rule exI, (rule prints_seq prints_output_string prints_put_i32_string)+)
  then obtain out where "prints (test_header (length tests) :: 'z test_state_scheme \<Rightarrow> _) out" ..
  moreover have "uart_drains (device ?s)" using d by simp
  ultimately obtain u where u: "test_header (length tests) ?s = Some u" "same_but_console ?s u" "uart_drains (device u)" by (rule printsD)
  have "same_heap s u" using same_but_console_heap [OF u(2)] by (simp add: same_heap_def)
  from run [OF u(3) this] obtain v where v: "run_test_entries tests u = Some v" "tested n u v" "Q v" by blast
  have cnt: "tests_passed v = n" "tests_failed v = 0"
    using v(2) same_but_console_counts [OF u(2)] by (simp_all add: tested_def)
  have "uart_drains (device v)" using u(3) tested_device [OF v(2)] by simp
  with all_passed_printed [OF cnt] obtain t where
    t: "test_results v = Some t"
    "same_but_console v t" and st: "sent t = sent v @ map of_char (crlf ((LF # ''Test Results: '') @ cstr (int_to_string n) @ '' passed, ''
        @ cstr (int_to_string 0) @ ('' failed'' @ [LF]) @ (if True then ''All tests passed!'' @ [LF] else ''Some tests failed!'' @ [LF])))"
    unfolding prints_from_def by blast
  have "cstr (int_to_string 0) = ''0''" by code_simp
  note st = st [unfolded this]
  have "run_tests tests s = Some t" using u(1) v(1) t(1) by (simp add: run_tests_parts)
  moreover have "tests_passed t = n" "tests_failed t = 0" using same_but_console_counts [OF t(2)] cnt by simp_all
  moreover have "same_but_tests s t"
    using u(2) v(2) t(2) by (cases s; cases u; cases v; cases t) (simp add: tested_def same_but_tests_def same_but_console_def)
  moreover have "Q t" using Q [OF _ v(3)] same_but_console_heap [OF t(2)] by (simp add: same_heap_def)
  ultimately show thesis by (rule that) (use st in simp)
qed

lemma memory_tests_list: "run_memory_tests s = run_tests memory_tests s"
  by (simp add: run_memory_tests_def)

lemma one_segment_carved: "free_list s [(h, k)] \<Longrightarrow> 1 \<le> h \<Longrightarrow> h + 8 + k < 2 ^ 32 \<Longrightarrow> carved_heap s h k [] (h + 8 + k)"
  by (simp add: carved_heap_def)

text \<open>The first segment serves a request it has room for, whatever the rest of the list is.\<close>

lemma malloc_first_segment:
  assumes fl: "free_list s ((h, l) # segs)" "h + 8 + l < 2 ^ 32" and sz: "4 \<le> unat sz" "unat sz + 24 \<le> l"
  obtains p t where "malloc sz s = Some (p, t)" "unat p = block_data (unat sz) 8 (h, l)"
proof -
  let ?c = "first_free s" and ?e = "first_free s + 8 + seg_size (ram s) (first_free s)"
  let ?d = "(?e - sz) AND NOT 7"
  from fl have c: "?c \<noteq> 0" "unat ?c = h" "unat (seg_size (ram s) ?c) = l" by (auto simp: free_list_def)
  have req: "request_ok sz 8" using sz fl(2) is_pow2_8 by (simp add: request_ok_def)
  have fits: "block_fits (unat sz) 8 (h, l)" using carve_block [OF sz, of h] by (simp add: block_fits_def)
  note arith = step_arith [OF req, of ?c "seg_size (ram s) ?c", unfolded c, OF fl(2)]
  have "malloc sz s = Some (?d, take_block 0 ?c (?d - 4) (?e - (?d - 4)) s)"
    using arith(1) fits c(1) sz by (auto simp: malloc_def allocate_def allocate_loop.simps [of sz 8 0 ?c s] Let_def)
  moreover have "unat ?d = block_data (unat sz) 8 (h, l)" using arith(2) fits by simp
  ultimately show thesis by (rule that)
qed

lemma next_block_over_header:
  assumes fl: "free_list s ((h, l) # segs)" "h + 8 + l = b + 4" "b + 4 < 2 ^ 32" "8 dvd b + 4"
    and sz: "8 dvd unat sz" "0 < unat sz" "unat sz + 24 \<le> l"
  obtains p t where "malloc sz s = Some (p, t)" "unat p + unat sz = b + 4"
proof -
  have four: "4 \<le> unat sz" using dvd_imp_le [OF sz(1,2)] by simp
  have small: "h + 8 + l < 2 ^ 32" using fl(2,3) by simp
  obtain p t where p: "malloc sz s = Some (p, t)" "unat p = block_data (unat sz) 8 (h, l)"
    by (rule malloc_first_segment [OF fl(1) small four sz(3)])
  have "8 dvd b + 4 - unat sz" by (rule dvd_diff_nat [OF fl(4) sz(1)])
  then have "unat p = b + 4 - unat sz" using p(2) fl(2) by (simp add: block_data_def Let_def dvd_eq_mod_eq_0)
  moreover have "unat sz \<le> b + 4" using sz(3) fl(2) by simp
  ultimately show thesis using that [OF p(1)] by simp
qed

text \<open>
  What the tests leave: three segments of which each claims the first four bytes of the
  header of the next, the last one twelve bytes past the end of the segment they
  started from. The next request of a multiple of eight bytes gets a block that ends
  with the size field of the second segment.
\<close>

lemma memory_tests_left:
  fixes s :: "'z test_state_scheme"
  assumes "uart_drains (device s)" and "free_list s [(h, k)]" and "1 \<le> h" and "300 \<le> k" and "h + 8 + k + 12 < 2 ^ 32"
  obtains t l b m a n where "run_memory_tests s = Some t" "tests_passed t = 13" "tests_failed t = 0" "same_but_tests s t"
    "free_list t [(h, l), (b, m), (a, n)]" "h + 8 + l = b + 4" "b + 8 + m = a + 4" "a + 8 + n = h + 8 + k + 12" "a \<le> h + 8 + k" "\<not> heap_ok t"
    "\<forall>sz \<in> {8, 16, 24, 32}. \<exists>p u. malloc sz t = Some (p, u) \<and> unat p + unat sz = b + 4"
proof -
  define Q where "Q t \<longleftrightarrow> (\<exists>b l m a n. 8 dvd b + 4 \<and> free_list t [(h, l), (b, m), (a, n)] \<and> h + 8 + l = b + 4
    \<and> b + 8 + m = a + 4 \<and> a + 8 + n = h + 8 + k + 12 \<and> a \<le> h + 8 + k \<and> k < l + 120)" for t :: "'z test_state_scheme"
  have c: "carved_heap s h k [] (h + 8 + k)" using assms by (intro one_segment_carved) simp_all
  have k: "140 \<le> k" using assms(4) by simp
  have run: "\<exists>t. run_test_entries memory_tests u = Some t \<and> tested 13 u t \<and> Q t"
    if dr: "uart_drains (device u)" and sh: "same_heap s u" for u :: "'z test_state_scheme"
  proof -
    obtain t b l m a n where "run_test_entries memory_tests u = Some t" "tested 13 u t"
      "8 dvd b + 4" "free_list t [(h, l), (b, m), (a, n)]" "h + 8 + l = b + 4" "b + 8 + m = a + 4" "a + 8 + n = h + 8 + k + 12" "a \<le> h + 8 + k" "k < l + 120"
      by (rule memory_tests_run [OF dr carved_heap_cong [OF sh c] k assms(5)])
    then show ?thesis unfolding Q_def by blast
  qed
  have cong: "Q u" if "same_heap t u" "Q t" for t u
    using that by (simp add: Q_def free_list_def same_heap_def)
  obtain t where t: "run_memory_tests s = Some t" "tests_passed t = 13" "tests_failed t = 0" "same_but_tests s t" "Q t"
    unfolding memory_tests_list by (rule run_tests_all_pass [where Q = Q, OF assms(1) run cong])
  from t(5) obtain b l m a n where q: "8 dvd b + 4" "free_list t [(h, l), (b, m), (a, n)]" "h + 8 + l = b + 4"
    "b + 8 + m = a + 4" "a + 8 + n = h + 8 + k + 12" "a \<le> h + 8 + k" "k < l + 120" unfolding Q_def by blast
  have "\<not> heap_ok t"
  proof
    assume "heap_ok t"
    then obtain segs where segs: "free_list t segs" "segs_ok 1 segs" unfolding heap_ok_def by blast
    have "segs = [(h, l), (b, m), (a, n)]" by (rule path_unique [OF segs(1) [unfolded free_list_def] q(2) [unfolded free_list_def]])
    with segs(2) q(3) show False by simp
  qed
  moreover have "\<exists>p u. malloc sz t = Some (p, u) \<and> unat p + unat sz = b + 4" if "sz \<in> {8, 16, 24, 32}" for sz
  proof -
    have "b + 4 < 2 ^ 32" using q(4,5) assms(5) by simp
    moreover have "8 dvd unat sz" "0 < unat sz" "unat sz + 24 \<le> l" using that q(7) assms(4) by auto
    ultimately show ?thesis by (rule next_block_over_header [OF q(2,3) _ q(1)]) blast
  qed
  ultimately show thesis using that [OF t(1-4) q(2-6)] by blast
qed

section \<open>Properties\<close>

text \<open>
  The kernel's memory tests pass. On a heap of one segment with room for the
  three blocks of the last test, \<^verbatim>\<open>run_memory_tests\<close> returns, all thirteen assertions
  hold, the verdict says so, and nothing changes but console, heap and counters.
\<close>

theorem memory_tests_pass:
  fixes s :: "'z test_state_scheme"
  assumes "uart_drains (device s)" and "free_list s [(h, k)]" and "1 \<le> h" and "140 \<le> k" and "h + 8 + k + 12 < 2 ^ 32"
  shows "\<exists>t out. run_memory_tests s = Some t \<and> tests_passed t = 13 \<and> tests_failed t = 0 \<and> same_but_tests s t
     \<and> sent t = out @ map of_char (crlf (LF # ''Test Results: 13 passed, 0 failed'' @ [LF] @ ''All tests passed!'' @ [LF]))"
proof -
  have c: "carved_heap s h k [] (h + 8 + k)" using assms by (intro one_segment_carved) simp_all
  have run: "\<exists>t. run_test_entries memory_tests u = Some t \<and> tested 13 u t \<and> True"
    if "uart_drains (device u)" "same_heap s u" for u :: "'z test_state_scheme"
    by (rule memory_tests_run [OF that(1) carved_heap_cong [OF that(2) c] assms(4,5)]) blast
  have n: "cstr (int_to_string 13) = ''13''" by code_simp
  obtain t out where "run_tests memory_tests s = Some t" "tests_passed t = 13" "tests_failed t = 0" "same_but_tests s t" True
    "sent t = out @ map of_char (crlf (LF # ''Test Results: '' @ cstr (int_to_string 13) @ '' passed, 0 failed'' @ [LF] @ ''All tests passed!'' @ [LF]))"
    by (rule run_tests_all_pass [where Q = "\<lambda>_. True", OF assms(1) run])
  then show ?thesis unfolding memory_tests_list n by (intro exI [of _ t] exI [of _ out]) simp
qed

definition self_test_example :: test_state where
  "self_test_example = (test_boot uart_ready)\<lparr>ram := store32 0x1000 0x200 (\<lambda>_. 0), first_free := 0x1000\<rparr>"

lemma self_test_example_heap: "free_list self_test_example [(0x1000, 0x200)]" "uart_drains (device self_test_example)"
  by (simp_all add: self_test_example_def free_list_def seg_size_def seg_next_def store32_def load32_def
      test_boot_def async_boot_def test_state.defs async.defs idt_state.defs boot_defs)

theorem memory_tests_pass_witness:
  "\<exists>t. run_memory_tests self_test_example = Some t \<and> tests_passed t = 13 \<and> tests_failed t = 0"
  using memory_tests_pass [OF self_test_example_heap(2,1)] by auto

end
