(* ===== verification/Kernel_Memory.thy ===== *)
theory Kernel_Memory
  imports Kernel_Tasks Memory_Tests
begin

text \<open>
  The memory section of \<^verbatim>\<open>kernel_main\<close>: the services (allocator, clock, wake-up list and
  executor) come up from the memory map of the boot loader, and the memory tests run on
  the heap they leave.
\<close>

section \<open>The services\<close>

text \<open>What the services rely on: heap, clock, wake-up list and devices. Messages keep them.\<close>

definition quiet :: "'z async_scheme \<Rightarrow> 'z async_scheme \<Rightarrow> bool" where
  "quiet s t \<longleftrightarrow> same_heap s t \<and> monotonic_time t = monotonic_time s \<and> wake_up_list t = wake_up_list s \<and> device t = device s"

lemma quiet_refl: "quiet s s"
  by (simp add: quiet_def same_heap_def)

lemma quiet_trans: "quiet s t \<Longrightarrow> quiet t u \<Longrightarrow> quiet s u"
  by (simp add: quiet_def same_heap_def)

lemma quiet_console: "same_but_console s t \<Longrightarrow> quiet s t"
  using same_but_console_heap [of s t] same_but_console_clock [of s t] same_but_console_device [of s t]
  by (simp add: quiet_def same_heap_def)

lemma quiet_says:
  assumes "uart_drains (device s)"
  obtains t where "output_string str s = Some t" "quiet s t"
  using printsD [OF prints_output_string assms] quiet_console by metis

lemma init_port_manager_quiet: "quiet s (init_port_manager s)"
  by (simp add: init_port_manager_eq quiet_def same_heap_def)

lemma quiet_heap_blocks: "quiet s t \<Longrightarrow> heap_blocks s segs bs \<Longrightarrow> heap_blocks t segs bs"
  using heap_blocks_cong [of s t segs bs] by (simp add: quiet_def same_heap_def)

text \<open>A request served from the top of a single segment.\<close>

lemma malloc_top_block:
  assumes hb: "heap_blocks s [(h, k)] bs" and sz: "malloc_served sz" "4 \<le> unat sz" "unat sz + 24 \<le> k"
  obtains p t k' where "malloc sz s = Some (p, t)" "p \<noteq> 0" "same_but_heap s t" "heap_blocks t [(h, k')] ((p, unat sz) # bs)"
    "unat p = h + 12 + k'" "k < k' + unat sz + 12" "k' + unat sz + 4 \<le> k" "same_outside {h..<h + 8 + k} (ram s) (ram t)"
proof -
  from hb have fl: "free_list s [(h, k)]" "segs_ok 1 [(h, k)]" by (auto simp: heap_blocks_def in_use_blocks_def)
  then have c: "carved_heap s h k [] (h + 8 + k)" by (intro one_segment_carved) simp_all
  obtain a t where t: "malloc sz s = Some (of_nat (a + 4), t)" "(of_nat (a + 4) :: ptr) \<noteq> 0" "same_but_heap s t"
    "carved_heap t h (a - (h + 8)) [(a, h + 8 + k - a)] (h + 8 + k)"
    "h + 8 < a" "a + 4 + unat sz \<le> h + 8 + k" "h + 8 + k < a + 12 + unat sz"
    by (rule malloc_carves [OF c sz(2,3)])
  have out: "same_outside {h..<h + 8 + k} (ram s) (ram t)"
    using malloc_outside [OF sz(1) heap_blocks_ok [OF hb] t(1)] by (simp add: free_bytes_eq [OF fl(1)])
  have free: "free_list t [(h, a - (h + 8))]" using t(4) by (simp add: carved_heap_def)
  have p: "unat (of_nat (a + 4) :: ptr) = a + 4" using t(6) fl(2) by (subst unat_of_nat) simp
  have "heap_blocks t [(h, a - (h + 8))] ((of_nat (a + 4), unat sz) # bs)"
    using hb sz(1,2)
  proof (cases rule: malloc_block)
    case full
    with t(1,2) show ?thesis by simp
  next
    case (block a' t' segs')
    then have "t' = t" "a' = of_nat (a + 4)" using t(1) by simp_all
    moreover have "segs' = [(h, a - (h + 8))]"
      using block(4) free path_unique \<open>t' = t\<close> unfolding heap_blocks_def in_use_blocks_def free_list_def by blast
    ultimately show ?thesis using block(4) by simp
  qed
  from that [OF t(1-3) this _ _ _ out] show thesis using p t(5-7) by simp
qed

text \<open>The clock and the wake-up list are the first two blocks.\<close>

lemma clock_block_created:
  assumes hb: "heap_blocks s [(h, k)] []" and "28 \<le> k" and "monotonic_time s = 0"
  obtains t k' where "monotonic_time_init_global s = Some t" "heap_blocks t [(h, k')] [(monotonic_time t, 4)]"
    "field (monotonic_time t) 0 t = 0" "k < k' + 16" "k' + 8 \<le> k" "wake_up_list t = wake_up_list s" "device t = device s"
    "unat (monotonic_time t) = h + 12 + k'"
proof -
  have sz: "malloc_served 4" "4 \<le> unat (4 :: u32)" "unat (4 :: u32) + 24 \<le> k" using assms(2) by (simp_all add: malloc_served_def)
  obtain p u k' where u: "malloc 4 s = Some (p, u)" "p \<noteq> 0" "same_but_heap s u" "heap_blocks u [(h, k')] [(p, unat (4 :: u32))]"
    "unat p = h + 12 + k'" "k < k' + unat (4 :: u32) + 12" "k' + unat (4 :: u32) + 4 \<le> k"
    by (rule malloc_top_block [OF hb sz])
  let ?t = "set_field p 0 0 (u\<lparr>monotonic_time := p\<rparr>)"
  have "heap_blocks (u\<lparr>monotonic_time := p\<rparr>) [(h, k')] [(p, 4)]" using u(4) heap_blocks_cong [of u "u\<lparr>monotonic_time := p\<rparr>"] by simp
  then have hb': "heap_blocks ?t [(h, k')] [(p, 4)]" by (rule set_field_heap_blocks [where n = 4]) simp_all
  have kept: "wake_up_list u = wake_up_list s" "device u = device s" using same_but_heap_system [OF u(3)] by simp_all
  have m: "monotonic_time ?t = p" "wake_up_list ?t = wake_up_list u" "device ?t = device u" by (simp_all add: set_field_def)
  show thesis
    by (rule that [of ?t k']) (use u assms(3) hb' kept in \<open>simp_all add: m monotonic_time_init_global_def\<close>)
qed

lemma wake_list_created:
  assumes hb: "heap_blocks s [(h, k)] bs" and "32 \<le> k" and "wake_up_list s = 0"
  obtains t k' where "wake_up_list_init s = Some t" "heap_blocks t [(h, k')] ((wake_up_list t, 8) # bs)"
    "field (wake_up_list t) 0 t = 0" "field (wake_up_list t) 4 t = 0" "k < k' + 20" "k' + 12 \<le> k" "monotonic_time t = monotonic_time s" "device t = device s"
    "unat (wake_up_list t) = h + 12 + k'" "\<forall>q n off. (q, n) \<in> set bs \<longrightarrow> unat off + 4 \<le> n \<longrightarrow> field q off t = field q off s"
proof -
  have sz: "malloc_served 8" "4 \<le> unat (8 :: u32)" "unat (8 :: u32) + 24 \<le> k" using assms(2) by (simp_all add: malloc_served_def)
  obtain p u k' where u: "malloc 8 s = Some (p, u)" "p \<noteq> 0" "same_but_heap s u" "heap_blocks u [(h, k')] ((p, unat (8 :: u32)) # bs)"
    "unat p = h + 12 + k'" "k < k' + unat (8 :: u32) + 12" "k' + unat (8 :: u32) + 4 \<le> k" "same_outside {h..<h + 8 + k} (ram s) (ram u)"
    by (rule malloc_top_block [OF hb sz])
  let ?ws = "[(p, 0, 0), (p, 4, 0)] :: field_write list" and ?v = "u\<lparr>wake_up_list := p\<rparr>"
  let ?t = "set_fields ?ws ?v"
  have "heap_blocks ?v [(h, k')] ((p, 8) # bs)" using u(4) heap_blocks_cong [of u ?v] by simp
  then have hb': "heap_blocks ?t [(h, k')] ((p, 8) # bs)" by (rule set_fields_heap_blocks) auto
  have kept: "monotonic_time u = monotonic_time s" "device u = device s" using same_but_heap_system [OF u(3)] by simp_all
  have m: "wake_up_list ?t = p" "monotonic_time ?t = monotonic_time u" "device ?t = device u" by (simp_all add: set_field_def)
  have "bytes_of p 0 \<inter> bytes_of p 4 = {}" by (rule bytes_same_apart) simp
  moreover have "unat p + 8 \<le> 2 ^ 32" using block_end [OF heap_blocks_in_use [OF hb'], of p 8] by simp
  ultimately have f: "field p off ?t = 0" if "off = 0 \<or> off = 4" for off
    using that field_set_fields [of ?ws p off 0 ?v] by (simp del: set_fields.simps)
  show thesis
  proof (rule that [of ?t k'])
    show "wake_up_list_init s = Some ?t" using u(1,2) assms(3) by (simp add: wake_up_list_init_def)
    show "\<forall>q n off. (q, n) \<in> set bs \<longrightarrow> unat off + 4 \<le> n \<longrightarrow> field q off ?t = field q off s"
    proof (intro allI impI)
      fix q n and off :: u32
      assume q: "(q, n) \<in> set bs" "unat off + 4 \<le> n"
      have "extent (q, n) \<inter> {h..<h + 8 + k} = {}" using hb q(1) by (auto simp: heap_blocks_def)
      moreover have "unat q + n \<le> 2 ^ 32" using block_end [OF heap_blocks_in_use [OF hb] q(1)] .
      ultimately have "field q off u = field q off s" using field_block_kept [OF u(8) _ q(2)] by blast
      moreover have "extent (p, 8) \<inter> extent (q, n) = {}"
        using in_use_disjoint [of ?t "[(h, k')]" "[(p, 8)]" bs "(p, 8)" "(q, n)"] heap_blocks_in_use [OF hb'] q(1) by simp
      then have "bytes_of q off \<inter> written ?ws = {}"
        using bytes_apart [of p 8 q n 0 off] bytes_apart [of p 8 q n 4 off] q(2) by auto
      then have "field q off ?t = field q off ?v"
        by (rule field_set_fields_other [rotated]) (use q block_end [OF heap_blocks_in_use [OF hb] q(1)] \<open>unat p + 8 \<le> 2 ^ 32\<close> in simp_all)
      moreover have "field q off ?v = field q off u" by (rule field_cong) simp
      ultimately show "field q off ?t = field q off s" by simp
    qed
  qed (use u hb' kept f m in \<open>simp_all del: set_fields.simps\<close>)
qed

text \<open>The executor is static; its three fields are set and the messages printed.\<close>

lemma executor_created:
  assumes d: "uart_drains (device s)" and E: "unat (sym_g_executor L) + 12 \<le> 2 ^ 32"
  obtains t where "async_init L s = Some t" "same_outside (bytes_at (sym_g_executor L) 12) (ram s) (ram t)" "first_free t = first_free s"
    "field (sym_g_executor L) 0 t = 0" "field (sym_g_executor L) 8 t = 0"
    "monotonic_time t = monotonic_time s" "wake_up_list t = wake_up_list s" "device t = device s"
proof -
  let ?E = "sym_g_executor L"
  let ?ws = "[(?E, 0, 0), (?E, 8, 0)] :: field_write list"
  let ?w = "set_fields ?ws s"
  let ?u = "set_byte (?E + 4) 1 ?w"
  have fits: "fits ?ws" using E by simp
  have "bytes_of ?E 0 \<inter> bytes_of ?E 8 = {}" by (rule bytes_same_apart) simp
  then have f: "field ?E off ?w = 0" if "off = 0 \<or> off = 8" for off
    using that field_set_fields [OF fits, of ?E off 0 s] by (auto simp del: set_fields.simps)
  have E4: "unat (?E + 4) = unat ?E + 4" using E by (simp add: unat_plus4)
  have b: "same_outside {unat ?E + 4} (ram ?w) (ram ?u)" unfolding E4 [symmetric] by (simp add: set_byte_def same_outside_byte)
  have out: "same_outside (bytes_at ?E 12) (ram s) (ram ?u)"
  proof (rule same_outside_trans)
    show "same_outside (bytes_at ?E 12) (ram s) (ram ?w)"
      by (rule same_outside_mono [OF set_fields_outside [OF fits]]) (auto simp: bytes_of_def bytes_at_def)
    show "same_outside (bytes_at ?E 12) (ram ?w) (ram ?u)" by (rule same_outside_mono [OF b]) (auto simp: bytes_at_def)
  qed
  have fu: "field ?E off ?u = 0" if "off = 0 \<or> off = 8" for off
    using field_same_outside [OF b, of ?E off] f [OF that] that E by (auto simp: bytes_of_def)
  have fr: "monotonic_time ?u = monotonic_time s" "wake_up_list ?u = wake_up_list s" "device ?u = device s" "first_free ?u = first_free s"
    by (simp_all add: set_byte_def set_field_def)
  have "uart_drains (device ?u)" using d fr(3) by simp
  then obtain v where v: "output_string (''Async executor initialized'' @ [LF]) ?u = Some v" "quiet ?u v"
    by (rule quiet_says)
  let ?v = "v\<lparr>g_monotonic_ticks := 0\<rparr>"
  have v': "quiet ?u ?v" using v(2) by (simp add: quiet_def same_heap_def)
  then have "uart_drains (device ?v)" using d fr(3) by (simp add: quiet_def)
  then obtain x where x: "output_string (''Monotonic time initialized'' @ [LF]) ?v = Some x" "quiet ?v x" by (rule quiet_says)
  have x': "quiet ?u x" using quiet_trans [OF v' x(2)] .
  then have "uart_drains (device x)" using d fr(3) by (simp add: quiet_def)
  then obtain t where t: "output_string (''Async system initialized'' @ [LF]) x = Some t" "quiet x t" by (rule quiet_says)
  have t': "quiet ?u t" using quiet_trans [OF x' t(2)] .
  have run: "async_init L s = Some t" using v(1) x(1) t(1) by (simp add: async_init_def executor_init_def monotonic_time_init_def Let_def)
  have "field ?E off t = field ?E off ?u" for off using t' by (intro field_cong) (simp add: quiet_def same_heap_def)
  then show thesis
    using that [OF run] out fu fr t' by (simp add: quiet_def same_heap_def)
qed

text \<open>
  The services are up: nothing is scheduled and nothing queued, and the blocks in use
  (clock, list and \<open>bs\<close>) are clear of the free list, as the executor is.
\<close>

definition services_up :: "linker_map \<Rightarrow> 'z async_scheme \<Rightarrow> seg list \<Rightarrow> block list \<Rightarrow> bool" where
  "services_up L s segs bs \<longleftrightarrow> heap_blocks s segs (wake_blocks s [] bs) \<and> wake_list_ok s segs [] bs
     \<and> exec_ok L (get_global_executor L) s segs [] (wake_blocks s [] bs)
     \<and> bytes_at (get_global_executor L) 12 \<inter> seg_bytes segs = {}"

text \<open>
  The boot loader's map leads to the region of \<open>l\<close> bytes at \<open>b\<close>, in which the end of
  the reserved memory \<open>R\<close> lies with room above it.
\<close>

definition boot_region :: "'z mem_scheme \<Rightarrow> ptr \<Rightarrow> ptr \<Rightarrow> ptr \<Rightarrow> u32 \<Rightarrow> u32 \<Rightarrow> u32 \<Rightarrow> bool" where
  "boot_region s kernel_end esp mb b l R \<longleftrightarrow> load32 (ram s) mb AND push_bit 6 1 \<noteq> 0
     \<and> (\<exists>es. mmap (ram s) (load32 (ram s) (mb + 48)) (load32 (ram s) (mb + 48) + load32 (ram s) (mb + 44)) es
          \<and> best_region es (0, 0) = (b, l)) \<and> l \<noteq> 0
     \<and> R = (if kernel_end > esp then kernel_end else esp) \<and> 0 < unat R \<and> b \<le> R
     \<and> unat R + 100 \<le> unat b + unat l \<and> unat b + unat l + 4 < 2 ^ 32"

lemma allocator_ready:
  fixes s :: "'z async_scheme"
  assumes d: "uart_drains (device s)" and map: "boot_region s (sym_kernel_end L) esp mb b l R"
  obtains t h where "do { s \<leftarrow> output_string (''Initializing memory allocator for tests...'' @ [LF]) s;
        s \<leftarrow> init_allocator (sym_kernel_end L) esp mb s;
        s \<leftarrow> output_string (''Initializing port manager...'' @ [LF]) s;
        let s = init_port_manager s;
        output_string (''Initializing monotonic time...'' @ [LF]) s } = Some t"
    "unat R \<le> h" "h < unat R + 8" "heap_blocks t [(h, unat b + unat l - (h + 8))] []"
    "monotonic_time t = monotonic_time s" "wake_up_list t = wake_up_list s" "device t = device s"
proof -
  obtain s1 where s1: "output_string (''Initializing memory allocator for tests...'' @ [LF]) s = Some s1" "quiet s s1" by (rule quiet_says [OF d])
  have ram: "ram s1 = ram s" using s1(2) by (simp add: quiet_def same_heap_def)
  from map obtain es where m: "load32 (ram s) mb AND push_bit 6 1 \<noteq> 0"
      "mmap (ram s) (load32 (ram s) (mb + 48)) (load32 (ram s) (mb + 48) + load32 (ram s) (mb + 44)) es"
      "best_region es (0, 0) = (b, l)" "l \<noteq> 0" "R = (if sym_kernel_end L > esp then sym_kernel_end L else esp)" "b \<le> R"
      "unat R + 15 \<le> unat b + unat l" "unat b + unat l < 2 ^ 32" "0 < unat R"
    unfolding boot_region_def by fastforce
  from init_allocator_run [of s1 mb es b l R esp "sym_kernel_end L", unfolded ram, OF m] obtain h s2 where
    s2: "init_allocator (sym_kernel_end L) esp mb s1 = Some s2" "unat R \<le> h" "h < unat R + 8"
      "free_list s2 [(h, unat b + unat l - (h + 8))]" "same_but_heap s1 s2" by blast
  have hb: "heap_blocks s2 [(h, unat b + unat l - (h + 8))] []"
    using s2(2-4) map by (auto simp: heap_blocks_def in_use_blocks_def boot_region_def)
  have k2: "device s2 = device s" "monotonic_time s2 = monotonic_time s" "wake_up_list s2 = wake_up_list s"
    using s1(2) same_but_heap_system [OF s2(5)] by (simp_all add: quiet_def)
  obtain s3 where s3: "output_string (''Initializing port manager...'' @ [LF]) s2 = Some s3" "quiet s2 s3"
    by (rule quiet_says [OF d [folded k2(1)]])
  have q4: "quiet s2 (init_port_manager s3)" by (rule quiet_trans [OF s3(2) init_port_manager_quiet])
  then have "uart_drains (device (init_port_manager s3))" using d k2(1) by (simp add: quiet_def)
  then obtain t where t: "output_string (''Initializing monotonic time...'' @ [LF]) (init_port_manager s3) = Some t" "quiet (init_port_manager s3) t"
    by (rule quiet_says)
  note q5 = quiet_trans [OF q4 t(2)]
  show thesis
    by (rule that [of t h]) (use s1(1) s2(1-3) s3(1) t(1) k2 q5 quiet_heap_blocks [OF q5 hb] in \<open>simp_all add: quiet_def Let_def\<close>)
qed

lemma clock_and_list_ready:
  fixes s :: "'z async_scheme"
  assumes d: "uart_drains (device s)" and hb: "heap_blocks s [(h, k)] []" and k: "60 \<le> k" and none: "monotonic_time s = 0" "wake_up_list s = 0"
  obtains t k' where "do { s \<leftarrow> monotonic_time_init_global s; s \<leftarrow> output_string (''Initializing wake-up list...'' @ [LF]) s;
        s \<leftarrow> wake_up_list_init s; output_string (''Initializing async executor...'' @ [LF]) s } = Some t"
    "heap_blocks t [(h, k')] [(wake_up_list t, 8), (monotonic_time t, 4)]" "k < k' + 40" "k' + 20 \<le> k" "device t = device s"
    "field (monotonic_time t) 0 t = 0" "field (wake_up_list t) 0 t = 0" "field (wake_up_list t) 4 t = 0" "unat (wake_up_list t) = h + 12 + k'"
    "h + 12 \<le> unat (monotonic_time t)"
proof -
  have k28: "28 \<le> k" using k by simp
  obtain s6 k1 where s6: "monotonic_time_init_global s = Some s6" "heap_blocks s6 [(h, k1)] [(monotonic_time s6, 4)]"
    "field (monotonic_time s6) 0 s6 = 0" "k < k1 + 16" "k1 + 8 \<le> k" "wake_up_list s6 = wake_up_list s" "device s6 = device s" "unat (monotonic_time s6) = h + 12 + k1"
    by (rule clock_block_created [OF hb k28 none(1)])
  obtain s7 where s7: "output_string (''Initializing wake-up list...'' @ [LF]) s6 = Some s7" "quiet s6 s7" by (rule quiet_says [OF d [folded s6(7)]])
  have "32 \<le> k1" "wake_up_list s7 = 0" using s6(4,6) k none(2) s7(2) by (simp_all add: quiet_def)
  then obtain s8 k2 where s8: "wake_up_list_init s7 = Some s8" "heap_blocks s8 [(h, k2)] ((wake_up_list s8, 8) # [(monotonic_time s6, 4)])"
    "field (wake_up_list s8) 0 s8 = 0" "field (wake_up_list s8) 4 s8 = 0" "k1 < k2 + 20" "k2 + 12 \<le> k1" "monotonic_time s8 = monotonic_time s7" "device s8 = device s7"
    "unat (wake_up_list s8) = h + 12 + k2" "\<forall>q n off. (q, n) \<in> set [(monotonic_time s6, 4)] \<longrightarrow> unat off + 4 \<le> n \<longrightarrow> field q off s8 = field q off s7"
    by (rule wake_list_created [OF quiet_heap_blocks [OF s7(2) s6(2)]])
  have d8: "device s8 = device s" "monotonic_time s8 = monotonic_time s6" using s8(7,8) s7(2) s6(7) by (simp_all add: quiet_def)
  have clk: "field (monotonic_time s6) 0 s8 = 0"
    using s8(10) [rule_format, of "monotonic_time s6" 4 0] s6(3) field_same_heap [of s6 s7] s7(2) by (simp add: quiet_def)
  obtain t where t: "output_string (''Initializing async executor...'' @ [LF]) s8 = Some t" "quiet s8 t" by (rule quiet_says [OF d [folded d8(1)]])
  have f: "field p off t = field p off s8" for p off using t(2) by (intro field_same_heap) (simp add: quiet_def)
  show thesis
    by (rule that [of t k2]) (use s6(1,4,5,8) s7(1) s8(1-6,9) t d8 clk quiet_heap_blocks [OF t(2) s8(2)] in \<open>simp_all add: f quiet_def\<close>)
qed

text \<open>The executor, below the heap, completes the services.\<close>

lemma executor_completes_services:
  fixes s :: "'z async_scheme"
  assumes d: "uart_drains (device s)" and E: "sym_g_executor L \<noteq> 0" "unat (sym_g_executor L) + 12 \<le> h"
    and heap: "heap_blocks s [(h, k)] [(wake_up_list s, 8), (monotonic_time s, 4)]"
    and zero: "field (monotonic_time s) 0 s = 0" "field (wake_up_list s) 0 s = 0" "field (wake_up_list s) 4 s = 0"
    and above: "h + 12 \<le> unat (wake_up_list s)" "h + 12 \<le> unat (monotonic_time s)"
  obtains t where "async_init L s = Some t" "services_up L t [(h, k)] []" "monotonic_time_get_ticks_global t = 0"
    "wake_up_list t = wake_up_list s" "device t = device s"
proof -
  let ?E = "sym_g_executor L" and ?bs = "[(wake_up_list s, 8), (monotonic_time s, 4)]"
  have E32: "unat ?E + 12 \<le> 2 ^ 32" using E(2) above(1) unat_u32_less [of "wake_up_list s"] by simp
  obtain t where t: "async_init L s = Some t" "same_outside (bytes_at ?E 12) (ram s) (ram t)" "first_free t = first_free s"
    "field ?E 0 t = 0" "field ?E 8 t = 0" "monotonic_time t = monotonic_time s" "wake_up_list t = wake_up_list s" "device t = device s"
    by (rule executor_created [OF d E32])
  have apart: "bytes_at ?E 12 \<inter> {h..} = {}" using E(2) by (auto simp: bytes_at_def)
  have ext: "extent b \<subseteq> {h..}" if "b \<in> set ?bs" for b using that above by (auto simp: extent_def)
  have hdr: "headers [(h, k)] \<subseteq> {h..}" "seg_bytes [(h, k)] \<subseteq> {h..}" by auto
  have hb: "heap_blocks t [(h, k)] ?bs"
  proof (rule heap_blocks_same_outside [OF heap t(2,3)])
    show "bytes_at ?E 12 \<inter> {unat q - 4..<unat q} = {}" if q: "(q, n) \<in> set ?bs" for q n
    proof -
      have "{unat q - 4..<unat q} \<subseteq> {h..}" using q above by auto
      with apart show ?thesis by blast
    qed
  qed (use apart hdr in blast)
  have kept: "field q off t = field q off s" if "(q, n) \<in> set ?bs" "unat off + 4 \<le> n" for q n off
    using field_block_kept [OF t(2) _ that(2)] apart ext [OF that(1)] block_end [OF heap_blocks_in_use [OF hb] that(1)] by blast
  have bs: "wake_blocks t [] [] = ?bs" using t(6,7) by (simp add: wake_blocks_def)
  have wl: "wake_list_ok t [(h, k)] [] []"
    using heap_blocks_in_use [OF hb] kept [of "wake_up_list s" 8] zero(2,3) t(7) by (simp add: wake_list_ok_def bs)
  have clk: "monotonic_time_get_ticks_global t = 0"
    using kept [of "monotonic_time s" 4 0] zero(1) t(6) by (simp add: monotonic_time_get_ticks_global_def)
  have "bytes_at ?E 12 \<inter> area ?bs = {}" using apart ext by (fastforce simp: area_def)
  then have ex: "exec_ok L ?E t [(h, k)] [] ?bs"
    using heap_blocks_in_use [OF hb] E(1) E32 apart hdr t d by (auto simp: exec_ok_def exec_apart_def blocks_of_def)
  have "bytes_at ?E 12 \<inter> seg_bytes [(h, k)] = {}" using apart hdr(2) by blast
  then have "services_up L t [(h, k)] []" using hb wl ex by (simp add: services_up_def bs get_global_executor_def)
  from that [OF t(1) this clk t(7,8)] show thesis .
qed

lemma services_run:
  fixes s :: "'z async_scheme"
  assumes d: "uart_drains (device s)" and none: "monotonic_time s = 0" "wake_up_list s = 0"
    and map: "boot_region s (sym_kernel_end L) esp mb b l R" and E: "sym_g_executor L \<noteq> 0" "unat (sym_g_executor L) + 12 \<le> unat R"
  obtains t h k where "kernel_services L esp mb s = Some t" "unat R \<le> h" "h < unat R + 8" "unat b + unat l < h + k + 48" "h + k + 28 \<le> unat b + unat l"
    "services_up L t [(h, k)] []" "monotonic_time_get_ticks_global t = 0"
    "unat (wake_up_list t) = h + 12 + k" "device t = device s"
proof -
  from map have R: "unat R + 100 \<le> unat b + unat l" unfolding boot_region_def by blast
  obtain s5 h where s5: "do { s \<leftarrow> output_string (''Initializing memory allocator for tests...'' @ [LF]) s;
        s \<leftarrow> init_allocator (sym_kernel_end L) esp mb s;
        s \<leftarrow> output_string (''Initializing port manager...'' @ [LF]) s;
        let s = init_port_manager s;
        output_string (''Initializing monotonic time...'' @ [LF]) s } = Some s5"
    "unat R \<le> h" "h < unat R + 8" "heap_blocks s5 [(h, unat b + unat l - (h + 8))] []"
    "monotonic_time s5 = monotonic_time s" "wake_up_list s5 = wake_up_list s" "device s5 = device s"
    by (rule allocator_ready [OF d map])
  have k0: "60 \<le> unat b + unat l - (h + 8)" using R s5(3) by simp
  obtain s9 k where s9: "do { s \<leftarrow> monotonic_time_init_global s5; s \<leftarrow> output_string (''Initializing wake-up list...'' @ [LF]) s;
        s \<leftarrow> wake_up_list_init s; output_string (''Initializing async executor...'' @ [LF]) s } = Some s9"
    "heap_blocks s9 [(h, k)] [(wake_up_list s9, 8), (monotonic_time s9, 4)]" "unat b + unat l - (h + 8) < k + 40" "k + 20 \<le> unat b + unat l - (h + 8)" "device s9 = device s5"
    "field (monotonic_time s9) 0 s9 = 0" "field (wake_up_list s9) 0 s9 = 0" "field (wake_up_list s9) 4 s9 = 0" "unat (wake_up_list s9) = h + 12 + k"
    "h + 12 \<le> unat (monotonic_time s9)"
    by (rule clock_and_list_ready [OF d [folded s5(7)] s5(4) k0 none(1) [folded s5(5)] none(2) [folded s5(6)]])
  have d9: "uart_drains (device s9)" using d s9(5) s5(7) by simp
  have "unat (sym_g_executor L) + 12 \<le> h" "h + 12 \<le> unat (wake_up_list s9)" using E(2) s5(2) s9(9) by simp_all
  then obtain t where t: "async_init L s9 = Some t" "services_up L t [(h, k)] []" "monotonic_time_get_ticks_global t = 0"
    "wake_up_list t = wake_up_list s9" "device t = device s9"
    using executor_completes_services [OF d9 E(1) _ s9(2,6-8) _ s9(10)] by metis
  have run: "kernel_services L esp mb s = Some t" using s5(1) s9(1) t(1) by (auto simp: kernel_services_def Let_def split: Option.bind_splits)
  show thesis
    by (rule that [OF run s5(2,3) _ _ t(2,3)]) (use s9(3,4,5,9) s5(7) t(4,5) in simp_all)
qed

section \<open>Properties\<close>

text \<open>
  C5 (the services come up). From the memory map of the boot loader, with the executor
  in the reserved memory, \<^verbatim>\<open>kernel_main\<close> brings up allocator, clock, wake-up list and
  executor: one free segment right below the two blocks in use, a clock at zero, an
  empty wake-up list and an empty queue. The conditions on heap, list and queue that
  the later sections rely on hold.
\<close>

theorem kernel_services_ready:
  fixes s :: "'z async_scheme"
  assumes "uart_drains (device s)" and "monotonic_time s = 0" and "wake_up_list s = 0" and "boot_region s (sym_kernel_end L) esp mb b l R"
    and "get_global_executor L \<noteq> 0" and "unat (get_global_executor L) + 12 \<le> unat R"
  shows "\<exists>t h k. kernel_services L esp mb s = Some t \<and> unat R \<le> h \<and> h + k + 28 \<le> unat b + unat l \<and> unat b + unat l < h + k + 48
     \<and> services_up L t [(h, k)] [] \<and> monotonic_time_get_ticks_global t = 0"
  by (rule services_run [OF assms(1-4) assms(5,6) [unfolded get_global_executor_def]]) blast

text \<open>The memory map of one region of 3 MiB at 1 MiB, and the kernel in the lower part of it.\<close>

definition boot_example :: test_state where
  "boot_example = (test_boot uart_ready)\<lparr>ram := example_ram\<rparr>"

definition boot_linker :: linker_map where
  "boot_linker = example_linker\<lparr>sym_kernel_end := 0x120000\<rparr>"

lemma boot_example_region: "boot_region boot_example (sym_kernel_end boot_linker) 0x118000 0x500 0x100000 0x300000 0x120000"
proof -
  have "best_region [(0x100000, 0x300000, 1)] (0, 0) = (0x100000, 0x300000)" by code_simp
  then have "\<exists>es. mmap example_ram (load32 example_ram (0x500 + 48)) (load32 example_ram (0x500 + 48) + load32 example_ram (0x500 + 44)) es
      \<and> best_region es (0, 0) = (0x100000, 0x300000)" using example_map(2) by blast
  moreover have "ram boot_example = example_ram" by (simp add: boot_example_def)
  ultimately show ?thesis using example_map(1) by (simp add: boot_region_def boot_linker_def)
qed

lemma boot_example_start:
  "uart_drains (device boot_example)" "monotonic_time boot_example = 0" "wake_up_list boot_example = 0"
  "get_global_executor boot_linker \<noteq> 0" "unat (get_global_executor boot_linker) + 12 \<le> unat (0x120000 :: u32)"
  by (simp_all add: boot_example_def test_boot_def async_boot_def test_state.defs async.defs idt_state.defs boot_defs
      get_global_executor_def boot_linker_def example_linker_def)

theorem kernel_services_ready_witness:
  "\<exists>t h k. kernel_services boot_linker 0x118000 0x500 boot_example = Some t \<and> 0x120000 \<le> h \<and> h + k + 28 \<le> 0x400000
     \<and> services_up boot_linker t [(h, k)] []"
  using kernel_services_ready [OF boot_example_start(1-3) boot_example_region boot_example_start(4,5)] by auto

text \<open>
  C32 (the memory tests give the wake-up list away). After the services are up, the
  memory tests report thirteen assertions passed and none failed, and leave a free list
  that is no longer well formed: its three segments overlap, and the last one claims
  the whole block of the wake-up list, which is in use. The next request of a multiple
  of eight bytes is served by a block that ends with the size field of the second
  segment.
\<close>

theorem memory_tests_claim_wake_list:
  fixes s :: "'z test_state_scheme"
  assumes "uart_drains (device s)" and "monotonic_time s = 0" and "wake_up_list s = 0" and "boot_region s (sym_kernel_end L) esp mb b l R"
    and "get_global_executor L \<noteq> 0" and "unat (get_global_executor L) + 12 \<le> unat R" and "unat R + 400 \<le> unat b + unat l"
  shows "\<exists>t h i c m a n. do { s \<leftarrow> kernel_services L esp mb s; run_memory_tests s } = Some t \<and> tests_passed t = 13 \<and> tests_failed t = 0
     \<and> free_list t [(h, i), (c, m), (a, n)] \<and> h + 8 + i = c + 4 \<and> c + 8 + m = a + 4 \<and> \<not> heap_ok t
     \<and> wake_up_list t \<noteq> 0 \<and> block_extent (wake_up_list t) 8 \<subseteq> {a..<a + 8 + n}
     \<and> (\<forall>sz \<in> {8, 16, 24, 32}. \<exists>p u. malloc sz t = Some (p, u) \<and> unat p + unat sz = c + 4)"
proof -
  obtain u h k where u: "kernel_services L esp mb s = Some u" "unat R \<le> h" "h < unat R + 8" "unat b + unat l < h + k + 48" "h + k + 28 \<le> unat b + unat l"
    "services_up L u [(h, k)] []" "unat (wake_up_list u) = h + 12 + k" "device u = device s"
    by (rule services_run [OF assms(1-4) assms(5,6) [unfolded get_global_executor_def]])
  have fl: "free_list u [(h, k)]" using u(6) by (simp add: services_up_def heap_blocks_def in_use_blocks_def)
  have up: "unat b + unat l + 4 < 2 ^ 32" "0 < unat R" using assms(4) unfolding boot_region_def by blast+
  have hk: "300 \<le> k" "h + 8 + k + 12 < 2 ^ 32" "1 \<le> h" using u(2-5) up assms(7) by linarith+
  obtain t i c m a n where t: "run_memory_tests u = Some t" "tests_passed t = 13" "tests_failed t = 0" "same_but_tests u t"
    "free_list t [(h, i), (c, m), (a, n)]" "h + 8 + i = c + 4" "c + 8 + m = a + 4" "a + 8 + n = h + 8 + k + 12" "a \<le> h + 8 + k" "\<not> heap_ok t"
    "\<forall>sz \<in> {8, 16, 24, 32}. \<exists>p u. malloc sz t = Some (p, u) \<and> unat p + unat sz = c + 4"
    by (rule memory_tests_left [OF _ fl hk(3,1,2)]) (use assms(1) u(8) in simp_all)
  have w: "wake_up_list t = wake_up_list u" using t(4) by (cases u; cases t) (simp add: same_but_tests_def)
  have "block_extent (wake_up_list t) 8 = {h + 8 + k..<h + 8 + k + 12}" using u(7) w by (auto simp: block_extent_def)
  with t(8,9) have "block_extent (wake_up_list t) 8 \<subseteq> {a..<a + 8 + n}" by auto
  moreover have "wake_up_list t \<noteq> 0" using u(7) w by auto
  moreover have "do { s \<leftarrow> kernel_services L esp mb s; run_memory_tests s } = Some t" using u(1) t(1) by simp
  ultimately show ?thesis using t(2,3,5-7,10,11) by blast
qed

theorem memory_tests_claim_wake_list_witness:
  "\<exists>t. do { s \<leftarrow> kernel_services boot_linker 0x118000 0x500 boot_example; run_memory_tests s } = Some t
     \<and> tests_passed t = 13 \<and> \<not> heap_ok t"
  using memory_tests_claim_wake_list [OF boot_example_start(1-3) boot_example_region boot_example_start(4,5)] by auto

end
