(* ===== verification/Interrupt_Setup.thy ===== *)
theory Interrupt_Setup
  imports Kernel_Memory
begin

text \<open>
  The sections of \<^verbatim>\<open>kernel_main\<close> that set the interrupts up: the system clock, the
  custom interrupt and the serial interrupt. They lead from the services to the state
  in which the kernel sleeps and runs its tasks.
\<close>

section \<open>The driver of the system clock\<close>

lemma services_up_quiet: "quiet s t \<Longrightarrow> services_up L s segs bs \<Longrightarrow> services_up L t segs bs"
  using heap_blocks_cong [of s t segs] wake_list_ok_cong [of s t segs "[]" bs] exec_ok_cong [of s t L] wake_blocks_same [of t s]
  by (simp add: services_up_def quiet_def same_heap_def)

lemma services_up_drains: "services_up L s segs bs \<Longrightarrow> uart_drains (device s)"
  by (simp add: services_up_def exec_ok_def)

lemma services_up_alloc:
  fixes s :: "'z async_scheme"
  assumes up: "services_up L s segs bs" and room: "has_room 24 segs"
  obtains p t segs' where "malloc 12 s = Some (p, t)" "p \<noteq> 0" "same_but_heap s t" "services_up L t segs' ((p, 12) # bs)"
proof -
  let ?E = "get_global_executor L" and ?Q = "seg_bytes segs"
  from up have hb: "heap_blocks s segs (wake_blocks s [] bs)" and wl: "wake_list_ok s segs [] bs"
    and ex: "exec_ok L ?E s segs [] (wake_blocks s [] bs)" and E: "bytes_at ?E 12 \<inter> ?Q = {}" by (simp_all add: services_up_def)
  have sz: "malloc_served 12" "4 \<le> unat (12 :: u32)" by (simp_all add: malloc_served_def)
  obtain p t segs' where t: "malloc 12 s = Some (p, t)" "p \<noteq> 0" "same_but_heap s t" "heap_blocks t segs' ((p, 12) # wake_blocks s [] bs)"
    "same_outside ?Q (ram s) (ram t)" "seg_bytes segs' \<subseteq> ?Q" "extent (p, 12) \<subseteq> ?Q"
    by (rule malloc_block [OF hb sz]) (use room in \<open>simp_all add: that\<close>)
  note same = same_but_heap_system [OF t(3)]
  have wb: "wake_blocks t [] cs = wake_blocks s [] cs" for cs using same by (intro wake_blocks_same) simp_all
  have hb': "heap_blocks t segs' (wake_blocks t [] ((p, 12) # bs))"
    by (rule heap_blocks_perm [OF t(4)]) (simp add: wb, simp add: wake_blocks_def)
  have Q: "?Q \<inter> area (wake_blocks s [] bs) = {}" using heap_blocks_area [OF hb] by blast
  have "headers segs' \<subseteq> ?Q" using headers_seg_bytes [of segs'] t(6) by blast
  then have "exec_apart ?E segs' (wake_blocks t [] ((p, 12) # bs))"
    using ex E t(7) unfolding exec_ok_def exec_apart_def wb by (auto simp: wake_blocks_def blocks_of_def)
  then have ex': "exec_ok L ?E t segs' [] (wake_blocks t [] ((p, 12) # bs))"
    using same E heap_blocks_in_use [OF hb'] by (intro exec_ok_kept [OF ex t(5)]) (auto simp: wake_blocks_def blocks_of_def)
  have "field (wake_up_list s) off t = field (wake_up_list s) off s" if "off = 0 \<or> off = 4" for off
  proof (rule field_block_kept [OF t(5), of _ 8])
    show "?Q \<inter> extent (wake_up_list s, 8) = {}" using Q by (auto simp: wake_blocks_def)
    show "unat (wake_up_list s) + 8 \<le> 2 ^ 32" by (rule block_end [OF heap_blocks_in_use [OF hb]]) (simp add: wake_blocks_def)
  qed (use that in auto)
  then have "wake_list_ok t segs' [] ((p, 12) # bs)"
    using wl heap_blocks_in_use [OF hb'] same by (simp add: wake_list_ok_def)
  with hb' ex' E t(6) have "services_up L t segs' ((p, 12) # bs)" unfolding services_up_def by blast
  with that [OF t(1-3)] show thesis .
qed

text \<open>What the setup leaves alone: the controllers' handles, the handlers and the log.\<close>

definition setup_kept :: "'z async_scheme \<Rightarrow> 'z async_scheme \<Rightarrow> bool" where
  "setup_kept s t \<longleftrightarrow> master_pic_cmd t = master_pic_cmd s \<and> master_pic_data t = master_pic_data s
     \<and> slave_pic_cmd t = slave_pic_cmd s \<and> slave_pic_data t = slave_pic_data s
     \<and> interrupt_handlers t = interrupt_handlers s \<and> handlers_initialized t = handlers_initialized s \<and> g_log_buffer t = g_log_buffer s"

lemma setup_kept_trans: "setup_kept s t \<Longrightarrow> setup_kept t u \<Longrightarrow> setup_kept s u"
  by (simp add: setup_kept_def)

lemma registry_setup: "same_but_registry s t \<Longrightarrow> quiet s t \<and> setup_kept s (t :: 'z async_scheme)"
  by (cases s; cases t) (simp add: same_but_registry_def quiet_def same_heap_def setup_kept_def)

lemma heap_setup: "same_but_heap s t \<Longrightarrow> setup_kept s (t :: 'z async_scheme)"
  by (cases s; cases t) (simp add: same_but_heap_def setup_kept_def)

lemma console_setup: "same_but_console s t \<Longrightarrow> quiet s t \<and> setup_kept s (t :: 'z async_scheme)"
  using quiet_console [of s t] by (cases s; cases t) (simp add: same_but_console_def setup_kept_def)

text \<open>The ports the driver asks for are free and two handles are left.\<close>

definition clock_ports_free :: "'z async_scheme \<Rightarrow> bool" where
  "clock_ports_free s \<longleftrightarrow> ports_ok s \<and> CMOS_CONTROL_PORT \<notin> ran (held s) \<and> CMOS_DATA_PORT \<notin> ran (held s) \<and> card (dom (held s)) < 63"

lemma clock_driver_ready:
  fixes s :: "'z async_scheme"
  assumes up: "services_up L s segs bs" and room: "has_room 24 segs" and ports: "clock_ports_free s" and pic: "pic_ready s"
  obtains rtc u segs' where "init_rtc s = Some (rtc, u)" "rtc \<noteq> 0" "services_up L u segs' ((rtc, 12) # bs)" "setup_kept s u"
    "driver_ready u rtc" "nmi_enabled (rtc_drivers u rtc)" "pic_ready u"
proof -
  from ports have ok: "ports_ok s" "CMOS_CONTROL_PORT \<notin> ran (held s)" "CMOS_DATA_PORT \<notin> ran (held s)" "card (dom (held s)) < 63"
    by (simp_all add: clock_ports_free_def)
  have "card (dom (held s)) < 64" using ok(4) by simp
  from request_port_grants [OF ok(1,2) this] obtain c s1 where
    c: "request_port CMOS_CONTROL_PORT s = (Some c, s1)" "held s c = None" "held s1 = (held s)(c \<mapsto> CMOS_CONTROL_PORT)"
      "ports_ok s1" "card (dom (held s1)) = Suc (card (dom (held s)))"
      "ran (held s1) = insert CMOS_CONTROL_PORT (ran (held s))" "same_but_registry s s1" by blast
  have "CMOS_DATA_PORT \<notin> ran (held s1)" "card (dom (held s1)) < 64" using c ok by simp_all
  from request_port_grants [OF c(4) this] obtain k s2 where
    k: "request_port CMOS_DATA_PORT s1 = (Some k, s2)" "held s1 k = None" "same_but_registry s1 s2" by blast
  note r1 = registry_setup [OF c(7)] and r2 = registry_setup [OF k(3)]
  have "services_up L s2 segs bs" by (rule services_up_quiet [OF _ up]) (use r1 r2 quiet_trans in blast)
  from services_up_alloc [OF this room] obtain rtc s3 segs' where
    m: "malloc 12 s2 = Some (rtc, s3)" "rtc \<noteq> 0" "same_but_heap s2 s3" "services_up L s3 segs' ((rtc, 12) # bs)" .
  define u where "u = s3\<lparr>rtc_drivers := (rtc_drivers s3)(rtc := \<lparr>control_port = Some c, data_port = Some k, nmi_enabled = True\<rparr>),
      trace := cmos_write 0 CMOS_REG_B (cmos_val (device s) 0 CMOS_REG_B (trace s) OR 6) (cmos_read (device s) 0 CMOS_REG_B (trace s))\<rparr>"
  note g = init_rtc_granted [OF ok(1) c(1) k(1) m(1-3), folded u_def]
  have "quiet s3 u" by (simp add: u_def quiet_def same_heap_def)
  then have up': "services_up L u segs' ((rtc, 12) # bs)" by (rule services_up_quiet [OF _ m(4)])
  have "setup_kept s s3" using r1 r2 heap_setup [OF m(3)] setup_kept_trans by blast
  then have kept: "setup_kept s u" by (simp add: setup_kept_def u_def)
  have "c \<noteq> k" using c(3) k(2) by (metis fun_upd_same option.distinct(1))
  then have "held s k = None" using c(3) k(2) by simp
  then have "holds u h p" if "holds s h p" for h p using that c(2) by (auto simp: holds_def g(4))
  then have "pic_ready u" using pic kept by (simp add: pic_ready_def setup_kept_def)
  with that [OF g(1) m(2) up' kept g(2,3)] show thesis .
qed

section \<open>The system clock\<close>

text \<open>The clock is set: its driver holds the ports and its handler is registered.\<close>

definition clock_set :: "linker_map \<Rightarrow> ptr \<Rightarrow> seg list \<Rightarrow> block list \<Rightarrow> 'z async_scheme \<Rightarrow> bool" where
  "clock_set L rtc segs bs s \<longleftrightarrow> services_up L s segs ((rtc, 12) # bs) \<and> system_rtc_instance s = rtc \<and> driver_ready s rtc
     \<and> pic_ready s \<and> handlers_initialized s \<and> interrupt_handlers s 0x48 = sym_rtc_interrupt_handler L"

text \<open>What the clock section starts from.\<close>

definition clock_start :: "linker_map \<Rightarrow> seg list \<Rightarrow> block list \<Rightarrow> 'z async_scheme \<Rightarrow> bool" where
  "clock_start L segs bs s \<longleftrightarrow> services_up L s segs bs \<and> has_room 24 segs \<and> clock_ports_free s \<and> pic_ready s"

lemma clock_set_drains: "clock_set L rtc segs bs s \<Longrightarrow> uart_drains (device s)"
  by (auto simp: clock_set_def dest: services_up_drains)

lemma clock_set_console:
  assumes "clock_set L rtc segs bs s" and "same_but_console s t"
  shows "clock_set L rtc segs bs t"
proof -
  note c = console_setup [OF assms(2)] and p = same_but_console_clock [OF assms(2)] and r = same_but_console_registry [OF assms(2)]
  have "driver_ready t q = driver_ready s q" for q by (rule driver_ready_cong) (use p r in simp_all)
  with assms c p services_up_quiet [of s t] same_but_console_pic_ready [OF assms(2)] show ?thesis
    by (auto simp: clock_set_def setup_kept_def)
qed

lemma clock_start_console:
  assumes "clock_start L segs bs s" and "same_but_console s t"
  shows "clock_start L segs bs t"
  using assms console_setup [OF assms(2)] services_up_quiet [of s t] same_but_console_pic_ready [OF assms(2)]
    held_console [OF assms(2)] ports_ok_console [OF assms(2)] by (simp add: clock_start_def clock_ports_free_def)

lemma clock_start_says:
  assumes "clock_start L segs bs s"
  obtains t where "output_string str s = Some t" "clock_start L segs bs t" "g_log_buffer t = g_log_buffer s"
proof -
  have "uart_drains (device s)" using assms services_up_drains by (auto simp: clock_start_def)
  from printsD [OF prints_output_string this] obtain t where "output_string str s = Some t" "same_but_console s t" by blast
  with clock_start_console [OF assms] same_but_console_log that show thesis by blast
qed

lemma clock_set_says:
  assumes "clock_set L rtc segs bs s"
  obtains t where "output_string str s = Some t" "clock_set L rtc segs bs t" "g_log_buffer t = g_log_buffer s"
proof -
  from printsD [OF prints_output_string clock_set_drains [OF assms]] obtain t where "output_string str s = Some t" "same_but_console s t" by blast
  with clock_set_console [OF assms] same_but_console_log that show thesis by blast
qed

lemma clock_enabled:
  fixes s :: "'z async_scheme"
  assumes st: "clock_start L segs bs s"
  obtains rtc u t segs' where "init_rtc s = Some (rtc, u)" "rtc \<noteq> 0"
    "enable_rtc_interrupts rtc (sym_rtc_interrupt_handler L) (u\<lparr>system_rtc_instance := rtc\<rparr>) = Some (0, t)"
    "clock_set L rtc segs' bs t" "g_log_buffer t = g_log_buffer s"
proof -
  from st have "services_up L s segs bs" "has_room 24 segs" "clock_ports_free s" "pic_ready s" by (simp_all add: clock_start_def)
  then obtain rtc u segs' where u: "init_rtc s = Some (rtc, u)" "rtc \<noteq> 0" "services_up L u segs' ((rtc, 12) # bs)" "setup_kept s u"
    "driver_ready u rtc" "nmi_enabled (rtc_drivers u rtc)" "pic_ready u" by (rule clock_driver_ready)
  let ?u = "u\<lparr>system_rtc_instance := rtc\<rparr>"
  have r: "driver_ready ?u rtc" "nmi_enabled (rtc_drivers ?u rtc)" "pic_ready ?u"
    using u(5-7) driver_ready_cong [of ?u u rtc] pic_ready_cong [of ?u u] by simp_all
  obtain t where t: "enable_rtc_interrupts rtc (sym_rtc_interrupt_handler L) ?u = Some (0, t)"
    and eq: "\<exists>H h. t = ?u\<lparr>interrupt_handlers := H(72 := sym_rtc_interrupt_handler L), handlers_initialized := True, trace := h\<rparr>"
    using enable_rtc_interrupts_run [OF r refl refl refl refl refl refl] by blast
  from eq obtain H h where t': "t = ?u\<lparr>interrupt_handlers := H(72 := sym_rtc_interrupt_handler L), handlers_initialized := True, trace := h\<rparr>" by blast
  have "quiet u t" by (simp add: t' quiet_def same_heap_def)
  then have "services_up L t segs' ((rtc, 12) # bs)" by (rule services_up_quiet [OF _ u(3)])
  moreover have "driver_ready t rtc" "pic_ready t" using u(5,7) driver_ready_cong [of t u rtc] pic_ready_cong [of t u] by (simp_all add: t')
  ultimately have "clock_set L rtc segs' bs t" by (simp add: clock_set_def t')
  moreover have "g_log_buffer t = g_log_buffer s" using u(4) by (simp add: t' setup_kept_def)
  ultimately show thesis by (rule that [OF u(1,2) t])
qed

lemma kernel_clock_runs:
  fixes s :: "'z async_scheme"
  assumes st: "clock_start L segs bs s"
  obtains rtc t segs' where "kernel_clock L s = Some t" "rtc \<noteq> 0" "clock_set L rtc segs' bs t" "g_log_buffer t = g_log_buffer s"
proof -
  obtain s1 where 1: "output_string (LF # ''Dynamic Interrupt Registration System Active!'' @ [LF]) s = Some s1"
    "clock_start L segs bs s1" "g_log_buffer s1 = g_log_buffer s" by (rule clock_start_says [OF st])
  obtain s2 where 2: "output_string (''RTC driver successfully registered for periodic interrupts using the new system.'' @ [LF]) s1 = Some s2"
    "clock_start L segs bs s2" "g_log_buffer s2 = g_log_buffer s1" by (rule clock_start_says [OF 1(2)])
  obtain s3 where 3: "output_string (''Setting up system-wide periodic RTC interrupts...'' @ [LF]) s2 = Some s3"
    "clock_start L segs bs s3" "g_log_buffer s3 = g_log_buffer s2" by (rule clock_start_says [OF 2(2)])
  obtain rtc u v segs' where v: "init_rtc s3 = Some (rtc, u)" "rtc \<noteq> 0"
    "enable_rtc_interrupts rtc (sym_rtc_interrupt_handler L) (u\<lparr>system_rtc_instance := rtc\<rparr>) = Some (0, v)"
    "clock_set L rtc segs' bs v" "g_log_buffer v = g_log_buffer s3" by (rule clock_enabled [OF 3(2)])
  obtain s4 where 4: "output_string (''Periodic RTC interrupts enabled successfully for system clock!'' @ [LF]) v = Some s4"
    "clock_set L rtc segs' bs s4" "g_log_buffer s4 = g_log_buffer v" by (rule clock_set_says [OF v(4)])
  obtain t where t: "output_string (''System tick counter will now increment with each RTC interrupt.'' @ [LF]) s4 = Some t"
    "clock_set L rtc segs' bs t" "g_log_buffer t = g_log_buffer s4" by (rule clock_set_says [OF 4(2)])
  have "kernel_clock L s = Some t" using 1(1) 2(1) 3(1) v(1-3) 4(1) t(1) by (simp add: kernel_clock_def Let_def)
  moreover have "g_log_buffer t = g_log_buffer s" using 1(3) 2(3) 3(3) v(5) 4(3) t(3) by simp
  ultimately show thesis using that v(2) t(2) by blast
qed

section \<open>The custom and the serial interrupt\<close>

lemma clock_set_custom:
  fixes s :: "'z async_scheme"
  assumes cs: "clock_set L rtc segs bs s" and L: "handlers_distinct L" "sym_custom_interrupt_handler L \<noteq> 0"
  obtains t where "kernel_custom_handler L s = Some t" "clock_set L rtc segs bs t" "g_log_buffer t = g_log_buffer s"
proof -
  from cs have c: "services_up L s segs ((rtc, 12) # bs)" "system_rtc_instance s = rtc" "driver_ready s rtc" "pic_ready s"
    "handlers_initialized s" "interrupt_handlers s 0x48 = sym_rtc_interrupt_handler L" by (simp_all add: clock_set_def)
  have "custom_phase (kept_part s) (custom_handler_called s) (interrupt_handlers s) (other_io (trace s)) s"
    using c services_up_drains [OF c(1)] by (simp add: custom_phase_def)
  from kernel_custom_handler_runs [OF L this] obtain t where t: "kernel_custom_handler L s = Some t"
    "custom_phase (kept_part s) (custom_handler_called s + 2) ((interrupt_handlers s)(0x81 := 0)) (other_io (trace s)) t" by blast
  from t(2) have k: "kept_part t = kept_part s" "pic_ready t" "handlers_initialized t" "interrupt_handlers t = (interrupt_handlers s)(0x81 := 0)"
    by (simp_all add: custom_phase_def)
  have "quiet s t" "rtc_drivers t = rtc_drivers s" "system_rtc_instance t = system_rtc_instance s" "port_registry t = port_registry s"
    "g_log_buffer t = g_log_buffer s" using k(1) by (simp_all add: kept_part_def quiet_def same_heap_def)
  moreover from this have "driver_ready t rtc" using c(3) driver_ready_cong [of t s rtc] by simp
  ultimately have "clock_set L rtc segs bs t"
    using c k services_up_quiet [OF _ c(1)] by (simp add: clock_set_def)
  with that [OF t(1)] \<open>g_log_buffer t = g_log_buffer s\<close> show thesis by blast
qed

text \<open>The system is up when the serial handler is registered too.\<close>

lemma clock_set_system:
  assumes cs: "clock_set L rtc segs bs s" and H: "interrupt_handlers s 0x44 = sym_async_serial_interrupt_handler L"
    and nz: "sym_rtc_interrupt_handler L \<noteq> 0" "sym_async_serial_interrupt_handler L \<noteq> 0"
  shows "system_heap L (get_global_executor L) s segs [] [] ((rtc, 12) # bs)"
  using assms clock_set_drains [OF cs] unfolding clock_set_def services_up_def system_heap_def system_ok_def clock_ok_def
  by (simp add: handler_of_def blocks_of_def)

lemma clock_set_cong:
  fixes s t :: "'z async_scheme"
  assumes "clock_set L rtc segs bs s" and "quiet s t" and "rtc_drivers t = rtc_drivers s" "system_rtc_instance t = system_rtc_instance s"
    "port_registry t = port_registry s" "master_pic_cmd t = master_pic_cmd s" "master_pic_data t = master_pic_data s"
    "slave_pic_cmd t = slave_pic_cmd s" "slave_pic_data t = slave_pic_data s" "handlers_initialized t"
    and "interrupt_handlers t 0x48 = interrupt_handlers s 0x48"
  shows "clock_set L rtc segs bs t"
  using assms services_up_quiet [OF assms(2)] driver_ready_cong [of t s rtc] pic_ready_cong [of t s] by (simp add: clock_set_def)

lemma serial_irq_vector: "irq_id_to_vector \<lparr>irq_type = IRQ_PIC1, irq_index = 4\<rparr> = 0x44"
  by (simp add: irq_id_to_vector_def)

lemma kernel_serial_handler_runs:
  fixes s :: "'z async_scheme"
  assumes cs: "clock_set L rtc segs bs s" and log: "log_ok s"
  obtains t where "kernel_serial_handler L s = Some t" "clock_set L rtc segs bs t"
    "interrupt_handlers t 0x44 = sym_async_serial_interrupt_handler L" "log_queue t = []"
proof -
  let ?h = "sym_async_serial_interrupt_handler L"
  obtain s1 where 1: "output_string (''Registering async serial interrupt handler for IRQ 4...'' @ [LF]) s = Some s1"
    "clock_set L rtc segs bs s1" "g_log_buffer s1 = g_log_buffer s" by (rule clock_set_says [OF cs])
  let ?s2 = "s1\<lparr>interrupt_handlers := (interrupt_handlers s1)(0x44 := ?h)\<rparr>"
  have reg: "register_interrupt_handler_irq \<lparr>irq_type = IRQ_PIC1, irq_index = 4\<rparr> ?h s1 = (0, ?s2)"
    using 1(2) by (cases s1) (simp add: register_interrupt_handler_irq_def serial_irq_vector register_handler_eq clock_set_def)
  have 2: "clock_set L rtc segs bs ?s2" using 1(2) by (intro clock_set_cong [OF 1(2)]) (simp_all add: quiet_def same_heap_def clock_set_def)
  have "uart_drains (device ?s2)" by (rule clock_set_drains [OF 2])
  from printsD [OF prints_output_string this] obtain s3 where
    3: "output_string (''Successfully registered async serial interrupt handler!'' @ [LF]) ?s2 = Some s3" "same_but_console ?s2 s3" by blast
  have 3: "output_string (''Successfully registered async serial interrupt handler!'' @ [LF]) ?s2 = Some s3"
    "clock_set L rtc segs bs s3" "interrupt_handlers s3 0x44 = ?h" "g_log_buffer s3 = g_log_buffer s"
    using 3 clock_set_console [OF 2 3(2)] console_setup [OF 3(2)] 1(3) by (simp_all add: setup_kept_def)
  have "pic_ready s3" using 3(2) by (simp add: clock_set_def)
  then obtain h where um: "pic_unmask_irq 4 s3 = s3\<lparr>trace := h\<rparr>" using pic_unmask_irq_clears [of s3 4] by (auto simp: Let_def)
  let ?s4 = "s3\<lparr>trace := h\<rparr>"
  have 4: "clock_set L rtc segs bs ?s4" using 3(2) by (intro clock_set_cong [OF 3(2)]) (simp_all add: quiet_def same_heap_def clock_set_def)
  have "log_ok ?s4" using log 3(4) by (simp add: log_ok_def)
  moreover have "uart_drains (device ?s4)" by (rule clock_set_drains [OF 4])
  ultimately obtain t where t: "logger_service ?s4 = Some t" "log_queue t = []" "same_but_log_console ?s4 t"
    using logger_service_run [OF _ refl] by blast
  let ?s5 = "?s4\<lparr>g_log_buffer := g_log_buffer t\<rparr>"
  have 5: "clock_set L rtc segs bs ?s5" using 4 by (intro clock_set_cong [OF 4]) (simp_all add: quiet_def same_heap_def clock_set_def)
  have con: "same_but_console ?s5 t" using t(3) by (simp add: same_but_log_console_def)
  have "interrupt_handlers t = interrupt_handlers ?s5" using console_setup [OF con] by (simp add: setup_kept_def)
  then have h: "interrupt_handlers t 0x44 = ?h" using 3(3) by simp
  have "kernel_serial_handler L s = Some t" using 1(1) reg 3(1) um t(1) by (simp add: kernel_serial_handler_def Let_def)
  from that [OF this clock_set_console [OF 5 con] h t(2)] show thesis .
qed

section \<open>Properties\<close>


text \<open>
  A kernel after its services: list at \<open>0x2000\<close>, clock at \<open>0x2010\<close>, a free segment of 256
  bytes below, and the four ports of the controllers held.
\<close>

definition setup_example :: async where
  "setup_example = (kernel_example cmos_clock)\<lparr>port_registry := (port_registry (kernel_example cmos_clock))
       (0 := \<lparr>port = 0, in_use = False, next_handle = None\<rparr>, 1 := \<lparr>port = 0, in_use = False, next_handle = None\<rparr>),
     first_free := 0x1000, wake_up_list := 0x2000, monotonic_time := 0x2010,
     ram := fold (\<lambda>(a, v). store32 a v) [(0x1000, 0x100), (0x1FFC, 12), (0x200C, 8)] (\<lambda>_. 0)\<rparr>"

lemma setup_example_fields:
  "load32 (ram setup_example) 0x160 = 0" "load32 (ram setup_example) 0x168 = 0"
  "load32 (ram setup_example) 0x1000 = 0x100" "load32 (ram setup_example) 0x1004 = 0"
  "load32 (ram setup_example) 0x1FFC = 12" "load32 (ram setup_example) 0x2000 = 0" "load32 (ram setup_example) 0x2004 = 0"
  "load32 (ram setup_example) 0x200C = 8" "first_free setup_example = 0x1000" "wake_up_list setup_example = 0x2000"
  "monotonic_time setup_example = 0x2010" "device setup_example = cmos_clock"
  by (simp_all add: setup_example_def kernel_example_def rtc_example_def apart4_def load32_zero)

lemma setup_example_up: "services_up example_linker setup_example [(0x1000, 0x100)] []"
proof -
  let ?s = setup_example and ?segs = "[(0x1000, 0x100)] :: seg list"
  have E: "get_global_executor example_linker = 0x160" by (simp add: get_global_executor_def example_linker_def)
  have use: "in_use_blocks ?s ?segs (wake_blocks ?s [] [])"
    unfolding in_use_blocks_def wake_blocks_def
    by (simp add: free_list_def seg_size_def seg_next_def live_def setup_example_fields extent_disjointI extent_intervalI)
  moreover have "exec_apart 0x160 ?segs (wake_blocks ?s [] [])"
    by (auto simp: exec_apart_def bytes_at_def extent_def wake_blocks_def setup_example_fields)
  moreover have "(0x2010, 4) \<in> set (wake_blocks ?s [] [])" by (simp add: wake_blocks_def setup_example_fields)
  ultimately have "exec_ok example_linker 0x160 ?s ?segs [] (wake_blocks ?s [] [])"
    by (simp add: exec_ok_def field_def setup_example_fields blocks_of_def)
  moreover have "wake_list_ok ?s ?segs [] []" using use by (simp add: wake_list_ok_def field_def setup_example_fields)
  moreover have "heap_blocks ?s ?segs (wake_blocks ?s [] [])"
    using use by (simp add: heap_blocks_def wake_blocks_def setup_example_fields extent_intervalI)
  moreover have "bytes_at 0x160 12 \<inter> seg_bytes ?segs = {}" by (auto simp: bytes_at_def)
  ultimately show ?thesis by (simp add: services_up_def E)
qed

lemma setup_example_ports: "held setup_example = [2 \<mapsto> 0x20, 3 \<mapsto> 0x21, 4 \<mapsto> 0xA0, 5 \<mapsto> 0xA1]" "clock_ports_free setup_example"
  "pic_ready setup_example" "log_ok setup_example"
proof -
  show h: "held setup_example = [2 \<mapsto> 0x20, 3 \<mapsto> 0x21, 4 \<mapsto> 0xA0, 5 \<mapsto> 0xA1]"
    by (auto simp: setup_example_def kernel_example_def rtc_example_def held_def fun_eq_iff)
  have "pm_initialized setup_example" by (simp add: setup_example_def kernel_example_def rtc_example_def)
  then have "ports_ok setup_example" unfolding ports_ok_def h by (auto split: if_splits)
  then show "clock_ports_free setup_example" unfolding clock_ports_free_def h by (auto simp: ran_def)
  show "pic_ready setup_example"
    unfolding pic_ready_def holds_def h by (simp add: setup_example_def kernel_example_def)
  show "log_ok setup_example"
    using logger_boot_ok(1) [of cmos_clock]
    by (simp add: log_ok_def setup_example_def kernel_example_def rtc_example_def async_boot_def idt_state.defs idt_boot_def gdt_state.defs logger.defs)
qed


end
